(* ===== verification/Prelude.thy ===== *)
theory Prelude
  imports Main "HOL-Library.Word"
begin

text \<open>
  Shared vocabulary of the development: the fixed-width integers of the firmware, C memory
  as lists with checked accesses (an access outside the array is \<open>None\<close>, the model's
  value for undefined behaviour), the casts that truncate, and the generic facts the
  component theories use.

  Two named collections carry the proofs of the component theories: \<open>mem_simps\<close> for checked
  memory accesses, \<open>wrap_simps\<close> for the truncating casts.
\<close>

unbundle bit_operations_syntax

named_theorems mem_simps
named_theorems wrap_simps

section \<open>Fixed-width integers\<close>

type_synonym u8 = "8 word"
type_synonym u16 = "16 word"
type_synonym u32 = "32 word"
type_synonym u64 = "64 word"

text \<open>Lengths held in a \<open>uint16_t\<close> are naturals; \<open>to_u16\<close> is the cast that truncates them.\<close>

definition to_u16 :: "nat \<Rightarrow> nat" where
  "to_u16 n = n mod 65536"

lemma to_u16_small [simp, wrap_simps]: "n < 65536 \<Longrightarrow> to_u16 n = n"
  by (simp add: to_u16_def)

lemma to_u16_less [simp]: "to_u16 n < 65536"
  by (simp add: to_u16_def)

text \<open>Conversion of an \<open>int\<close> difference to a 32-bit \<open>size_t\<close>: a negative value wraps.\<close>

definition to_size :: "int \<Rightarrow> nat" where
  "to_size i = nat (i mod 4294967296)"

lemma to_size_diff [simp, wrap_simps]:
  "b \<le> a \<Longrightarrow> a < 4294967296 \<Longrightarrow> to_size (int a - int b) = a - b"
  by (simp add: to_size_def mod_pos_pos_trivial of_nat_diff)

lemma unat_u8_less: "unat (b :: u8) < 256"
  using unsigned_less [of b, where ?'a = nat] by simp

lemma unat_ucast_8_32 [simp]: "unat (ucast (b :: u8) :: u32) = unat b"
proof -
  have "unat b < 2 ^ 32" using unat_u8_less [of b] by simp
  then show ?thesis by (simp add: unsigned_ucast_eq take_bit_nat_eq_self)
qed

section \<open>Checked memory\<close>

text \<open>
  \<open>mem_get\<close> reads one element, \<open>mem_read\<close> a block, \<open>mem_write\<close> overwrites a block
  (\<open>memcpy\<close>, \<open>memmove\<close>). Out of range they are \<open>None\<close>.
\<close>

definition mem_get :: "'a list \<Rightarrow> nat \<Rightarrow> 'a option" where
  "mem_get buf i = (if i < length buf then Some (buf ! i) else None)"

definition mem_read :: "'a list \<Rightarrow> nat \<Rightarrow> nat \<Rightarrow> 'a list option" where
  "mem_read buf off n = (if off + n \<le> length buf then Some (take n (drop off buf)) else None)"

definition mem_write :: "'a list \<Rightarrow> nat \<Rightarrow> 'a list \<Rightarrow> 'a list option" where
  "mem_write buf off xs =
     (if off + length xs \<le> length buf
      then Some (take off buf @ xs @ drop (off + length xs) buf) else None)"

lemma mem_get_Some [simp, mem_simps]: "i < length buf \<Longrightarrow> mem_get buf i = Some (buf ! i)"
  by (simp add: mem_get_def)

lemma mem_read_Some [simp, mem_simps]:
  "off + n \<le> length buf \<Longrightarrow> mem_read buf off n = Some (take n (drop off buf))"
  by (simp add: mem_read_def)

lemma mem_write_Some [simp, mem_simps]:
  "off + length xs \<le> length buf \<Longrightarrow>
   mem_write buf off xs = Some (take off buf @ xs @ drop (off + length xs) buf)"
  by (simp add: mem_write_def)

lemma mem_write_length: "mem_write buf off xs = Some buf' \<Longrightarrow> length buf' = length buf"
  by (auto simp: mem_write_def split: if_splits)

lemma mem_write_in_range: "mem_write buf off xs = Some buf' \<Longrightarrow> off + length xs \<le> length buf"
  by (auto simp: mem_write_def split: if_splits)

text \<open>What a block write leaves in the prefix it extends.\<close>

lemma take_after_write:
  "off \<le> length buf \<Longrightarrow>
   take (off + length xs) (take off buf @ xs @ rest) = take off buf @ xs"
  by (simp add: min_def)

lemma take_prefix_write [simp]:
  "n \<le> length xs \<Longrightarrow> take n (xs @ ys) = take n xs"
  by simp

section \<open>Lists\<close>

lemma takeWhile_dropWhile_length:
  "length (takeWhile P xs) + length (dropWhile P xs) = length xs"
  by (metis length_append takeWhile_dropWhile_id)

lemma dropWhile_neq_hd: "dropWhile (\<lambda>x. x \<noteq> a) xs = y # ys \<Longrightarrow> y = a"
  by (induction xs) (auto split: if_splits)

lemma nth_mod_Suc_update:
  "i < n \<Longrightarrow> j < n \<Longrightarrow> length xs = n \<Longrightarrow> (xs[i := v]) ! j = (if j = i then v else xs ! j)"
  by simp

lemma nth_in_drop:
  assumes "i \<le> j" "j < length xs" shows "xs ! j \<in> set (drop i xs)"
proof -
  have "drop i xs ! (j - i) = xs ! j" "j - i < length (drop i xs)" using assms by simp_all
  then show ?thesis by (metis nth_mem)
qed

lemma nth_take_drop: "k < m \<Longrightarrow> j + k < length xs \<Longrightarrow> take m (drop j xs) ! k = xs ! (j + k)"
  by simp

lemma take_drop_head:
  assumes "j < length xs" "xs ! j \<noteq> c" shows "take (length (c # cs)) (drop j xs) \<noteq> c # cs"
proof -
  have "drop j xs = xs ! j # drop (Suc j) xs" using assms(1) by (simp add: Cons_nth_drop_Suc)
  then show ?thesis using assms(2) by simp
qed

lemma foldl_pres:
  assumes "P s" and "\<And>s x. P s \<Longrightarrow> P (f s x)"
  shows "P (foldl f s xs)"
  using assms by (induction xs arbitrary: s) auto

lemma sum_list_map_take_Suc:
  "n < length xs \<Longrightarrow>
   sum_list (map f (take (Suc n) xs)) = sum_list (map f (take n xs)) + (f (xs ! n) :: 'a :: monoid_add)"
  by (simp add: take_Suc_conv_app_nth)

section \<open>Words as counters\<close>

text \<open>Below the wrap, a word counter and the natural it stands for compare alike.\<close>

lemma u32_of_nat_less [simp]:
  "m < 2 ^ 32 \<Longrightarrow> n < 2 ^ 32 \<Longrightarrow> (of_nat m :: u32) < of_nat n \<longleftrightarrow> m < n"
  by (simp add: word_less_nat_alt unsigned_of_nat take_bit_nat_eq_self)

lemma u32_unat_of_nat [simp]: "n < 2 ^ 32 \<Longrightarrow> unat (of_nat n :: u32) = n"
  by (simp add: unsigned_of_nat take_bit_nat_eq_self)

section \<open>Step relations\<close>

text \<open>States reachable from an initial one by the steps of a machine.\<close>

inductive reach :: "('s \<Rightarrow> bool) \<Rightarrow> ('s \<Rightarrow> 's \<Rightarrow> bool) \<Rightarrow> 's \<Rightarrow> bool"
  for init :: "'s \<Rightarrow> bool" and step :: "'s \<Rightarrow> 's \<Rightarrow> bool" where
  start: "init s \<Longrightarrow> reach init step s"
| move: "reach init step s \<Longrightarrow> step s t \<Longrightarrow> reach init step t"

text \<open>What a component proves of its machine, and what follows for every reachable state.\<close>

locale machine_invariant =
  fixes init :: "'s \<Rightarrow> bool" and step :: "'s \<Rightarrow> 's \<Rightarrow> bool" and inv :: "'s \<Rightarrow> bool"
  assumes init_inv: "init s \<Longrightarrow> inv s"
    and step_inv: "inv s \<Longrightarrow> step s t \<Longrightarrow> inv t"
begin

lemma reach_inv: "reach init step s \<Longrightarrow> inv s"
  by (induction rule: reach.induct) (auto intro: init_inv step_inv)

lemma steps_inv: "step\<^sup>*\<^sup>* s t \<Longrightarrow> inv s \<Longrightarrow> inv t"
  by (induction rule: rtranclp_induct) (auto intro: step_inv)

end

end
