(* ===== verification/Rtcm_Crc.thy ===== *)
theory Rtcm_Crc
  imports Prelude
begin

text \<open>
  CRC-24Q of \<open>src/main/interface/ntrip_tx_core.c\<close>: the 256-entry table, the table-driven
  checksum, and its equivalence with the bitwise algorithm.
\<close>

section \<open>The code\<close>

definition CRC24Q_POLY :: u32 where
  "CRC24Q_POLY = 0x1864CFB"

text \<open>One iteration of the inner loop of \<open>crc24q_build_table\<close>.\<close>

definition crc24q_bit :: "u32 \<Rightarrow> u32" where
  "crc24q_bit crc0 =
     (let crc = push_bit 1 crc0 in
      if crc AND 0x1000000 \<noteq> 0 then crc XOR CRC24Q_POLY else crc)"

definition crc24q_entry :: "u32 \<Rightarrow> u32" where
  "crc24q_entry i = ((crc24q_bit ^^ 8) (push_bit 16 i)) AND 0xFFFFFF"

definition crc24q_build_table :: "u32 list" where
  "crc24q_build_table = map (\<lambda>i. crc24q_entry (of_nat i)) [0..<256]"

definition crc24q_update :: "u32 \<Rightarrow> u8 \<Rightarrow> u32" where
  "crc24q_update crc d =
     (push_bit 8 crc AND 0xFFFFFF) XOR
     crc24q_build_table ! unat ((drop_bit 16 crc XOR ucast d) AND 0xFF)"

definition rtcm_crc24q :: "u8 list \<Rightarrow> u32" where
  "rtcm_crc24q data = foldl crc24q_update 0 data"

section \<open>The bitwise reference\<close>

text \<open>
  The reference has no table: the byte is added into the top of the 24-bit register and
  the register is divided by the polynomial one bit at a time.
\<close>

definition crc24q_ref_update :: "u32 \<Rightarrow> u8 \<Rightarrow> u32" where
  "crc24q_ref_update crc d = (crc24q_bit ^^ 8) (crc XOR push_bit 16 (ucast d))"

definition crc24q_ref :: "u8 list \<Rightarrow> u32" where
  "crc24q_ref data = foldl crc24q_ref_update 0 data"

section \<open>Equivalence\<close>

definition crc24 :: "u32 \<Rightarrow> bool" where
  "crc24 c \<longleftrightarrow> (\<forall>n \<ge> 24. \<not> bit c n)"

lemma bit_POLY_ge: "25 \<le> n \<Longrightarrow> \<not> bit CRC24Q_POLY n"
  by (cases "n < 32") (auto simp: CRC24Q_POLY_def bit_numeral_rec numeral_eq_Suc
      less_Suc_eq not_less dest: bit_imp_le_length)

lemma bit_POLY_24: "bit CRC24Q_POLY 24"
  by (simp add: CRC24Q_POLY_def)

lemma bit_pow24: "bit (0x1000000 :: u32) n \<longleftrightarrow> n = 24"
proof -
  have "(0x1000000 :: u32) = 2 ^ 24" by simp
  then show ?thesis by (simp only: bit_exp_iff) (auto simp: possible_bit_def)
qed

lemma bit_shl1: "bit (push_bit 1 c :: u32) n \<longleftrightarrow> 1 \<le> n \<and> n < 32 \<and> bit c (n - 1)"
  by (simp only: bit_push_bit_iff possible_bit_word) auto

lemma crc24q_bit_alt:
  "crc24q_bit c = push_bit 1 c XOR (if bit c 23 then CRC24Q_POLY else 0)"
proof -
  have "push_bit 1 c AND 0x1000000 = (if bit c 23 then 0x1000000 else 0)"
  proof (rule bit_word_eqI)
    fix n :: nat
    show "bit (push_bit 1 c AND 0x1000000) n = bit (if bit c 23 then 0x1000000 else 0 :: u32) n"
      by (cases "n = 24"; cases "bit c 23")
        (simp_all only: if_True if_False bit_and_iff bit_shl1 bit_pow24, simp_all)
  qed
  then show ?thesis by (simp add: crc24q_bit_def Let_def)
qed

lemma bit_crc24q_bit:
  "bit (crc24q_bit c) n \<longleftrightarrow> (1 \<le> n \<and> n < 32 \<and> bit c (n - 1)) \<noteq> (bit c 23 \<and> bit CRC24Q_POLY n)"
  unfolding crc24q_bit_alt bit_xor_iff bit_shl1 by simp

text \<open>The bit step is linear over exclusive or, and keeps the register at 24 bits.\<close>

lemma crc24q_bit_xor: "crc24q_bit (a XOR b) = crc24q_bit a XOR crc24q_bit b"
  by (rule bit_word_eqI) (auto simp: bit_crc24q_bit bit_xor_iff)

lemma crc24q_bits_xor: "(crc24q_bit ^^ k) (a XOR b) = (crc24q_bit ^^ k) a XOR (crc24q_bit ^^ k) b"
  by (induction k) (simp_all add: crc24q_bit_xor)

lemma crc24q_bit_crc24:
  assumes "crc24 c" shows "crc24 (crc24q_bit c)"
  unfolding crc24_def
proof (intro allI impI)
  fix n :: nat assume n: "24 \<le> n"
  show "\<not> bit (crc24q_bit c) n"
  proof (cases "n = 24")
    case True
    then show ?thesis using bit_POLY_24 by (simp add: bit_crc24q_bit)
  next
    case False
    with n have "25 \<le> n" "24 \<le> n - 1" by simp_all
    then show ?thesis using assms
      by (simp add: bit_crc24q_bit bit_POLY_ge crc24_def)
  qed
qed

lemma crc24q_bits_crc24: "crc24 c \<Longrightarrow> crc24 ((crc24q_bit ^^ k) c)"
  by (induction k) (simp_all add: crc24q_bit_crc24)

lemma crc24q_bits_low:
  assumes "\<forall>n \<ge> 16. \<not> bit c n" and "k \<le> 8"
  shows "(crc24q_bit ^^ k) c = push_bit k c"
  using assms(2)
proof (induction k)
  case (Suc k)
  have "\<not> bit (push_bit k c) 23"
    using Suc.prems assms(1) by (auto simp: bit_simps)
  then have "crc24q_bit (push_bit k c) = push_bit 1 (push_bit k c)"
    by (simp only: crc24q_bit_alt if_False xor.right_neutral)
  then have "crc24q_bit (push_bit k c) = push_bit (Suc k) c"
    by (simp only: push_bit_push_bit plus_1_eq_Suc)
  with Suc show ?case by simp
qed simp

lemma mask24: "(0xFFFFFF :: u32) = mask 24" and mask8: "(0xFF :: u32) = mask 8"
  by (simp_all add: mask_eq_exp_minus_1)

lemma crc24_mask:
  assumes "crc24 c" shows "c AND 0xFFFFFF = c"
  unfolding mask24
  using assms by (intro bit_word_eqI) (auto simp only: bit_and_iff bit_mask_iff crc24_def possible_bit_word not_le[symmetric])

text \<open>The table index and the low half of the register.\<close>

lemma crc24q_table_nth:
  assumes "k = (drop_bit 16 c XOR ucast (d :: u8)) AND (0xFF :: u32)"
  shows "crc24q_build_table ! unat k = crc24q_entry k"
proof -
  have "k = take_bit 8 (drop_bit 16 c XOR ucast d)"
    unfolding assms mask8 by (simp only: take_bit_eq_mask)
  then have "unat k = take_bit 8 (unat (drop_bit 16 c XOR ucast d))" by (simp only: unsigned_take_bit_eq)
  then have "unat k < 256" using take_bit_nat_less_exp [of 8] by simp
  then show ?thesis by (simp add: crc24q_build_table_def)
qed

lemma bit_k:
  assumes "crc24 c"
  shows "bit ((drop_bit 16 c XOR ucast (d :: u8)) AND (0xFF :: u32)) n \<longleftrightarrow> bit c (16 + n) \<noteq> bit d n"
proof (cases "n < 8")
  case True
  then show ?thesis unfolding mask8
    by (simp add: bit_and_iff bit_mask_iff bit_xor_iff bit_drop_bit_eq bit_ucast_iff)
next
  case False
  then have "\<not> bit d n" using bit_imp_le_length [of d n] by auto
  then show ?thesis using False assms unfolding mask8 by (simp add: bit_and_iff bit_mask_iff crc24_def)
qed

lemma crc24q_update_ref:
  assumes c: "crc24 c"
  shows "crc24q_update c d = crc24q_ref_update c d"
proof -
  define k :: u32 where "k = (drop_bit 16 c XOR ucast d) AND 0xFF"
  define lo :: u32 where "lo = take_bit 16 c"
  note bk = bit_k [OF c, of d, folded k_def]
  have k24: "crc24 (push_bit 16 k)"
  proof (unfold crc24_def, intro allI impI)
    fix n :: nat assume "24 \<le> n"
    then have "\<not> bit c n" "\<not> bit d (n - 16)"
      using c bit_imp_le_length [of d "n - 16"] by (auto simp: crc24_def)
    then show "\<not> bit (push_bit 16 k) n"
      using \<open>24 \<le> n\<close> by (simp add: bit_push_bit_iff bk)
  qed
  have split: "c XOR push_bit 16 (ucast d) = lo XOR push_bit 16 k"
  proof (rule bit_word_eqI)
    fix n :: nat assume n: "n < LENGTH(32)"
    show "bit (c XOR push_bit 16 (ucast d)) n = bit (lo XOR push_bit 16 k) n"
      using n by (cases "n < 16") (auto simp: bit_xor_iff bit_push_bit_iff lo_def bit_take_bit_iff bk bit_ucast_iff)
  qed
  have low: "(crc24q_bit ^^ 8) lo = push_bit 8 lo"
    by (rule crc24q_bits_low) (auto simp: lo_def bit_take_bit_iff)
  have lo_eq: "push_bit 8 c AND 0xFFFFFF = push_bit 8 lo" unfolding mask24
    by (rule bit_word_eqI) (auto simp: bit_and_iff bit_mask_iff bit_push_bit_iff lo_def bit_take_bit_iff)
  have "crc24q_entry k = (crc24q_bit ^^ 8) (push_bit 16 k)"
    unfolding crc24q_entry_def by (rule crc24_mask [OF crc24q_bits_crc24 [OF k24]])
  then have "crc24q_update c d = push_bit 8 lo XOR (crc24q_bit ^^ 8) (push_bit 16 k)"
    using crc24q_table_nth [OF k_def] by (simp add: crc24q_update_def k_def [symmetric] lo_eq)
  also have "\<dots> = crc24q_ref_update c d"
    by (simp add: crc24q_ref_update_def split crc24q_bits_xor low)
  finally show ?thesis .
qed

lemma crc24q_ref_update_crc24:
  assumes "crc24 c" shows "crc24 (crc24q_ref_update c d)"
proof -
  have "\<not> bit d (n - 16)" if "24 \<le> n" for n using that bit_imp_le_length [of d "n - 16"] by auto
  then have "crc24 (c XOR push_bit 16 (ucast d))"
    using assms by (auto simp: crc24_def bit_xor_iff bit_push_bit_iff bit_ucast_iff)
  then show ?thesis unfolding crc24q_ref_update_def by (rule crc24q_bits_crc24)
qed

lemma rtcm_crc24q_ref: "rtcm_crc24q data = crc24q_ref data"
proof -
  have "crc24 c \<Longrightarrow> foldl crc24q_update c data = foldl crc24q_ref_update c data" for c
    by (induction data arbitrary: c) (simp_all add: crc24q_update_ref crc24q_ref_update_crc24)
  then show ?thesis by (simp add: rtcm_crc24q_def crc24q_ref_def crc24_def)
qed

lemma rtcm_crc24q_crc24: "crc24 (rtcm_crc24q data)"
  unfolding rtcm_crc24q_ref crc24q_ref_def
  by (rule foldl_pres) (simp_all add: crc24q_ref_update_crc24, simp add: crc24_def)

section \<open>Property of the CRC\<close>

text \<open>The table-driven CRC-24Q equals the bit-by-bit CRC with polynomial 0x1864CFB, initial value
  zero and no reflection, on every byte sequence, and the result fits 24 bits.\<close>

theorem crc24q_table_correct:
  "rtcm_crc24q data = crc24q_ref data \<and> rtcm_crc24q data AND 0xFFFFFF = rtcm_crc24q data"
  using rtcm_crc24q_ref crc24_mask [OF rtcm_crc24q_crc24] by simp

end
