(* ===== verification/Rtcm_Frame.thy ===== *)
theory Rtcm_Frame
  imports Rtcm_Crc
begin

text \<open>
  The RTCM3 frame format as the parser of \<open>src/main/interface/ntrip_tx_core.c\<close> reads it, and
  the specification of that parser: \<open>rtcm_scan\<close> splits a whole byte stream into complete
  CRC-valid frames, skipped bytes and a remainder that waits for more input. The C parser
  works on a 1029-byte buffer and arbitrary chunks; \<open>Rtcm_Parser\<close> shows that it computes
  \<open>rtcm_scan\<close> of the concatenated stream.
\<close>

section \<open>Frame format\<close>

definition RTCM_MAX_FRAME_B :: nat where
  [simp]: "RTCM_MAX_FRAME_B = 1029"

text \<open>\<open>(uint16_t)((((buf[1] & 0x03u) << 8) | buf[2]) + 6u)\<close>\<close>

definition frame_need :: "u8 \<Rightarrow> u8 \<Rightarrow> nat" where
  "frame_need b1 b2 =
     to_u16 (unat ((push_bit 8 (ucast (b1 AND 0x03)) OR ucast b2) + 6 :: u32))"

text \<open>The three CRC bytes, most significant first.\<close>

definition crc_bytes :: "u8 \<Rightarrow> u8 \<Rightarrow> u8 \<Rightarrow> u32" where
  "crc_bytes x y z = push_bit 16 (ucast x) OR push_bit 8 (ucast y) OR ucast z"

lemma frame_need_eq: "frame_need b1 b2 = unat (b1 AND 3) * 256 + unat b2 + 6"
proof -
  let ?hi = "push_bit 8 (ucast (b1 AND 3)) :: u32" and ?lo = "ucast b2 :: u32"
  have "?hi AND ?lo = 0"
    by (rule bit_word_eqI) (auto simp: bit_simps dest: bit_imp_le_length)
  then have or: "?hi OR ?lo = ?hi + ?lo"
    by (simp add: disjunctive_add_eq_or)
  have "unat (b1 AND 3) \<le> unat (3 :: u8)"
    by (rule word_and_le1 [THEN word_le_nat_alt [THEN iffD1]])
  then have b1: "unat (b1 AND 3) \<le> 3" by simp
  have b2: "unat b2 \<le> 255" using unat_u8_less [of b2] by simp
  have hi: "unat ?hi = unat (b1 AND 3) * 256"
    using b1 by (simp add: push_bit_eq_mult unat_word_ariths)
  have lo: "unat ?lo = unat b2" by simp
  have "unat (?hi + ?lo + 6) = unat (b1 AND 3) * 256 + unat b2 + 6"
    using b1 b2 by (simp add: unat_word_ariths hi lo)
  then show ?thesis
    using b1 b2 by (simp add: frame_need_def or)
qed

lemma frame_need_bounds: "6 \<le> frame_need b1 b2" "frame_need b1 b2 \<le> RTCM_MAX_FRAME_B"
proof -
  have "unat (b1 AND 3) \<le> unat (3 :: u8)"
    by (rule word_and_le1 [THEN word_le_nat_alt [THEN iffD1]])
  moreover have "unat b2 \<le> 255" using unat_u8_less [of b2] by simp
  ultimately show "6 \<le> frame_need b1 b2" "frame_need b1 b2 \<le> RTCM_MAX_FRAME_B"
    by (simp_all add: frame_need_eq)
qed

lemma frame_need_less: "\<not> frame_need b1 b2 < 6" "frame_need b1 b2 < 65536"
  using frame_need_bounds [of b1 b2] by simp_all

lemma frame_need_pos [simp]: "0 < frame_need b1 b2"
  using frame_need_bounds(1) [of b1 b2] by simp

definition valid_frame :: "u8 list \<Rightarrow> bool" where
  "valid_frame f \<longleftrightarrow>
     3 \<le> length f \<and> f ! 0 = 0xD3 \<and> f ! 1 AND 0xFC = 0 \<and>
     length f = frame_need (f ! 1) (f ! 2) \<and>
     rtcm_crc24q (take (length f - 3) f) =
       crc_bytes (f ! (length f - 3)) (f ! (length f - 2)) (f ! (length f - 1))"

lemma valid_frame_length: "valid_frame f \<Longrightarrow> 6 \<le> length f \<and> length f \<le> RTCM_MAX_FRAME_B"
  unfolding valid_frame_def by (metis frame_need_bounds)

section \<open>Scanning a stream\<close>

record scanned =
  sc_frames :: "u8 list list"
  sc_skipped :: nat
  sc_crc :: nat
  sc_rest :: "u8 list"

definition sc_skip :: "nat \<Rightarrow> scanned \<Rightarrow> scanned" where
  "sc_skip n r = r\<lparr>sc_skipped := n + sc_skipped r\<rparr>"

definition sc_bad :: "scanned \<Rightarrow> scanned" where
  "sc_bad r = r\<lparr>sc_skipped := Suc (sc_skipped r), sc_crc := Suc (sc_crc r)\<rparr>"

definition sc_frame :: "u8 list \<Rightarrow> scanned \<Rightarrow> scanned" where
  "sc_frame f r = r\<lparr>sc_frames := f # sc_frames r\<rparr>"

definition sc_stop :: "u8 list \<Rightarrow> scanned" where
  "sc_stop xs = \<lparr>sc_frames = [], sc_skipped = 0, sc_crc = 0, sc_rest = xs\<rparr>"

definition sc_join :: "scanned \<Rightarrow> scanned \<Rightarrow> scanned" where
  "sc_join a b = \<lparr>sc_frames = sc_frames a @ sc_frames b, sc_skipped = sc_skipped a + sc_skipped b,
     sc_crc = sc_crc a + sc_crc b, sc_rest = sc_rest b\<rparr>"

lemmas sc_defs = sc_skip_def sc_bad_def sc_frame_def sc_stop_def sc_join_def

text \<open>
  A stream is scanned from the left: bytes before the next preamble are skipped; a preamble
  with a reserved bit set, or whose frame fails its CRC, is skipped as one byte and the
  scan restarts behind it; a frame that passes is emitted whole; an incomplete header or
  frame is the remainder.
\<close>

function rtcm_scan :: "u8 list \<Rightarrow> scanned" where
  "rtcm_scan [] = sc_stop []"
| "rtcm_scan (x # xs) =
     (let s = x # xs in
      if x \<noteq> 0xD3 then sc_skip 1 (rtcm_scan xs)
      else if length s < 3 then sc_stop s
      else if s ! 1 AND 0xFC \<noteq> 0 then sc_skip 1 (rtcm_scan xs)
      else let need = frame_need (s ! 1) (s ! 2) in
        if length s < need then sc_stop s
        else if rtcm_crc24q (take (need - 3) s) =
                crc_bytes (s ! (need - 3)) (s ! (need - 2)) (s ! (need - 1))
        then sc_frame (take need s) (rtcm_scan (drop need s))
        else sc_bad (rtcm_scan xs))"
  by pat_completeness auto
termination
  by (relation "measure length") auto

declare rtcm_scan.simps(2) [simp del]

lemma rtcm_scan_skip: "x \<noteq> 0xD3 \<Longrightarrow> rtcm_scan (x # xs) = sc_skip 1 (rtcm_scan xs)"
  by (simp add: rtcm_scan.simps)

lemma rtcm_scan_takeWhile:
  "rtcm_scan xs =
   sc_skip (length (takeWhile (\<lambda>b. b \<noteq> 0xD3) xs)) (rtcm_scan (dropWhile (\<lambda>b. b \<noteq> 0xD3) xs))"
  by (induction xs) (simp_all add: rtcm_scan_skip sc_defs)

text \<open>The cases of a stream that begins with a preamble.\<close>

lemma rtcm_scan_short: "xs ! 0 = 0xD3 \<Longrightarrow> xs \<noteq> [] \<Longrightarrow> length xs < 3 \<Longrightarrow> rtcm_scan xs = sc_stop xs"
  by (cases xs) (simp_all add: rtcm_scan.simps)

lemma rtcm_scan_reserved:
  "xs ! 0 = 0xD3 \<Longrightarrow> 3 \<le> length xs \<Longrightarrow> xs ! 1 AND 0xFC \<noteq> 0 \<Longrightarrow>
   rtcm_scan xs = sc_skip 1 (rtcm_scan (tl xs))"
  by (cases xs) (auto simp: rtcm_scan.simps Let_def)

lemma rtcm_scan_partial:
  "xs ! 0 = 0xD3 \<Longrightarrow> 3 \<le> length xs \<Longrightarrow> xs ! 1 AND 0xFC = 0 \<Longrightarrow>
   length xs < frame_need (xs ! 1) (xs ! 2) \<Longrightarrow> rtcm_scan xs = sc_stop xs"
  by (cases xs) (auto simp: rtcm_scan.simps Let_def)

lemma rtcm_scan_accept:
  "xs ! 0 = 0xD3 \<Longrightarrow> xs ! 1 AND 0xFC = 0 \<Longrightarrow> need = frame_need (xs ! 1) (xs ! 2) \<Longrightarrow>
   need \<le> length xs \<Longrightarrow>
   rtcm_crc24q (take (need - 3) xs) = crc_bytes (xs ! (need - 3)) (xs ! (need - 2)) (xs ! (need - 1)) \<Longrightarrow>
   rtcm_scan xs = sc_frame (take need xs) (rtcm_scan (drop need xs))"
  using frame_need_bounds(1) [of "xs ! 1" "xs ! 2"]
  by (cases xs) (auto simp: rtcm_scan.simps Let_def)

lemma rtcm_scan_frame:
  assumes "valid_frame f" shows "rtcm_scan (f @ ys) = sc_frame f (rtcm_scan ys)"
proof -
  have len: "6 \<le> length f" using assms valid_frame_length by blast
  have "rtcm_scan (f @ ys) = sc_frame (take (length f) (f @ ys)) (rtcm_scan (drop (length f) (f @ ys)))"
    using assms len by (intro rtcm_scan_accept) (auto simp: valid_frame_def nth_append)
  then show ?thesis by simp
qed

lemma rtcm_scan_badcrc:
  "xs ! 0 = 0xD3 \<Longrightarrow> xs ! 1 AND 0xFC = 0 \<Longrightarrow> need = frame_need (xs ! 1) (xs ! 2) \<Longrightarrow>
   need \<le> length xs \<Longrightarrow>
   rtcm_crc24q (take (need - 3) xs) \<noteq> crc_bytes (xs ! (need - 3)) (xs ! (need - 2)) (xs ! (need - 1)) \<Longrightarrow>
   rtcm_scan xs = sc_bad (rtcm_scan (tl xs))"
  using frame_need_bounds(1) [of "xs ! 1" "xs ! 2"]
  by (cases xs) (auto simp: rtcm_scan.simps Let_def)

text \<open>Any complete CRC-valid prefix of a stream is a valid frame.\<close>

lemma valid_frame_take:
  assumes "xs ! 0 = 0xD3" "xs ! 1 AND 0xFC = 0" "need = frame_need (xs ! 1) (xs ! 2)"
    "need \<le> length xs"
    "rtcm_crc24q (take (need - 3) xs) = crc_bytes (xs ! (need - 3)) (xs ! (need - 2)) (xs ! (need - 1))"
  shows "valid_frame (take need xs)"
proof -
  have "6 \<le> need" using frame_need_bounds(1) assms(3) by blast
  then show ?thesis using assms by (simp add: valid_frame_def min_def take_drop)
qed

lemma rtcm_scan_cases:
  obtains (empty) "xs = []"
  | (skip) x ys where "xs = x # ys" "x \<noteq> 0xD3"
  | (short) "xs \<noteq> []" "xs ! 0 = 0xD3" "length xs < 3"
  | (reserved) "xs ! 0 = 0xD3" "3 \<le> length xs" "xs ! 1 AND 0xFC \<noteq> 0"
  | (partial) "xs ! 0 = 0xD3" "3 \<le> length xs" "xs ! 1 AND 0xFC = 0"
      "length xs < frame_need (xs ! 1) (xs ! 2)"
  | (frame) f ys where "valid_frame f" "xs = f @ ys"
  | (badcrc) need where "xs ! 0 = 0xD3" "3 \<le> length xs" "xs ! 1 AND 0xFC = 0"
      "need = frame_need (xs ! 1) (xs ! 2)" "need \<le> length xs"
      "rtcm_crc24q (take (need - 3) xs) \<noteq> crc_bytes (xs ! (need - 3)) (xs ! (need - 2)) (xs ! (need - 1))"
proof -
  consider "xs = []" | "xs \<noteq> []" "xs ! 0 \<noteq> 0xD3" | "xs \<noteq> []" "xs ! 0 = 0xD3" "length xs < 3"
    | "xs ! 0 = 0xD3" "3 \<le> length xs" by fastforce
  then show ?thesis
  proof cases
    case 2 then show ?thesis using skip by (cases xs) auto
  next
    case 4
    define need where "need = frame_need (xs ! 1) (xs ! 2)"
    show ?thesis
      using 4 reserved partial badcrc [of need] frame [of "take need xs" "drop need xs"]
        valid_frame_take [of xs need]
      by (fold need_def) (cases "xs ! 1 AND 0xFC = 0"; cases "length xs < need"; fastforce simp: need_def)
  qed (use empty short in blast)+
qed

text \<open>An induction rule with one case per decision of the scanner.\<close>

lemma rtcm_scan_induct [case_names empty skip short reserved partial frame badcrc]:
  assumes "P []"
    and "\<And>x ys. x \<noteq> 0xD3 \<Longrightarrow> P ys \<Longrightarrow> P (x # ys)"
    and "\<And>xs. xs \<noteq> [] \<Longrightarrow> xs ! 0 = 0xD3 \<Longrightarrow> length xs < 3 \<Longrightarrow> P xs"
    and "\<And>xs. xs ! 0 = 0xD3 \<Longrightarrow> 3 \<le> length xs \<Longrightarrow> xs ! 1 AND 0xFC \<noteq> 0 \<Longrightarrow> P (tl xs) \<Longrightarrow> P xs"
    and "\<And>xs. xs ! 0 = 0xD3 \<Longrightarrow> 3 \<le> length xs \<Longrightarrow> xs ! 1 AND 0xFC = 0 \<Longrightarrow>
           length xs < frame_need (xs ! 1) (xs ! 2) \<Longrightarrow> P xs"
    and "\<And>f ys. valid_frame f \<Longrightarrow> P ys \<Longrightarrow> P (f @ ys)"
    and "\<And>xs need. xs ! 0 = 0xD3 \<Longrightarrow> 3 \<le> length xs \<Longrightarrow> xs ! 1 AND 0xFC = 0 \<Longrightarrow>
           need = frame_need (xs ! 1) (xs ! 2) \<Longrightarrow> need \<le> length xs \<Longrightarrow>
           rtcm_crc24q (take (need - 3) xs) \<noteq>
             crc_bytes (xs ! (need - 3)) (xs ! (need - 2)) (xs ! (need - 1)) \<Longrightarrow>
           rtcm_scan xs = sc_bad (rtcm_scan (tl xs)) \<Longrightarrow> P (tl xs) \<Longrightarrow> P xs"
  shows "P xs"
proof (induction xs rule: length_induct)
  case (1 xs)
  show ?case
  proof (cases xs rule: rtcm_scan_cases)
    case (frame f ys)
    then have "length ys < length xs" using valid_frame_length by fastforce
    with 1 frame show ?thesis using assms(6) by blast
  next
    case (badcrc need)
    have "P (tl xs)" using 1 badcrc(2) by (cases xs) auto
    then show ?thesis using assms(7) [OF badcrc] rtcm_scan_badcrc badcrc by blast
  qed (use 1 assms in auto)
qed

lemmas rtcm_scan_eqs = rtcm_scan_skip rtcm_scan_short rtcm_scan_reserved rtcm_scan_partial
  rtcm_scan_frame rtcm_scan_badcrc

section \<open>Properties of the scanner\<close>

text \<open>Every byte of the stream is in a frame, skipped, or in the remainder.\<close>

lemma rtcm_scan_conserves:
  "sum_list (map length (sc_frames (rtcm_scan xs))) + sc_skipped (rtcm_scan xs)
     + length (sc_rest (rtcm_scan xs)) = length xs"
proof (induction xs rule: rtcm_scan_induct)
  case (badcrc xs need)
  from badcrc(2,7,8) show ?case by (cases xs) (simp_all add: sc_defs)
qed (simp_all add: rtcm_scan_eqs, auto simp: sc_defs)

lemma rtcm_scan_valid: "f \<in> set (sc_frames (rtcm_scan xs)) \<Longrightarrow> valid_frame f"
proof (induction xs rule: rtcm_scan_induct)
  case (badcrc xs need)
  from badcrc(7,8,9) show ?case by (simp add: sc_defs)
qed (simp_all add: rtcm_scan_eqs, auto simp: sc_defs)

text \<open>The remainder is empty or begins with a preamble and waits for more input.\<close>

definition scan_waits :: "u8 list \<Rightarrow> bool" where
  "scan_waits xs \<longleftrightarrow>
     xs = [] \<or> (xs ! 0 = 0xD3 \<and>
       (length xs < 3 \<or> (xs ! 1 AND 0xFC = 0 \<and> length xs < frame_need (xs ! 1) (xs ! 2))))"

lemma rtcm_scan_waits: "scan_waits (sc_rest (rtcm_scan xs))"
proof (induction xs rule: rtcm_scan_induct)
  case (badcrc xs need)
  from badcrc(7,8) show ?case by (simp add: sc_defs)
qed (simp_all add: rtcm_scan_eqs, auto simp: sc_defs scan_waits_def)

lemma rtcm_scan_waiting: "scan_waits xs \<Longrightarrow> rtcm_scan xs = sc_stop xs"
  unfolding scan_waits_def
  by (cases "xs = []"; cases "length xs < 3") (auto simp: rtcm_scan_short rtcm_scan_partial)

lemma scan_waits_length: "scan_waits xs \<Longrightarrow> length xs < RTCM_MAX_FRAME_B"
  using frame_need_bounds(2) [of "xs ! 1" "xs ! 2"] by (auto simp: scan_waits_def)

text \<open>
  Scanning in pieces: the remainder of a first piece, extended by the second, gives what
  the whole stream gives. This is why chunk boundaries do not matter.
\<close>

lemma sc_join_algebra:
  "sc_skip n (sc_join a b) = sc_join (sc_skip n a) b"
  "sc_bad (sc_join a b) = sc_join (sc_bad a) b"
  "sc_frame f (sc_join a b) = sc_join (sc_frame f a) b"
  "sc_join (sc_join a b) c = sc_join a (sc_join b c)"
  "sc_join (sc_stop xs) b = b"
  "sc_rest (sc_skip n a) = sc_rest a" "sc_rest (sc_bad a) = sc_rest a"
  "sc_rest (sc_frame f a) = sc_rest a" "sc_rest (sc_stop xs) = xs" "sc_rest (sc_join a b) = sc_rest b"
  by (simp_all add: sc_defs)

lemma rtcm_scan_append:
  "rtcm_scan (xs @ ys) = sc_join (rtcm_scan xs) (rtcm_scan (sc_rest (rtcm_scan xs) @ ys))"
proof (induction xs rule: rtcm_scan_induct)
  case (reserved xs)
  then have "rtcm_scan (xs @ ys) = sc_skip 1 (rtcm_scan (tl xs @ ys))"
    by (subst rtcm_scan_reserved) (auto simp: nth_append tl_append split: list.splits)
  with reserved show ?case by (simp add: rtcm_scan_reserved sc_join_algebra)
next
  case (badcrc xs need)
  have six: "6 \<le> need" using badcrc frame_need_bounds(1) by blast
  have "rtcm_scan (xs @ ys) = sc_bad (rtcm_scan (tl (xs @ ys)))"
    by (rule rtcm_scan_badcrc [where need = need]) (use badcrc six in \<open>auto simp: nth_append\<close>)
  moreover have "tl (xs @ ys) = tl xs @ ys" using badcrc by (cases xs) auto
  ultimately show ?case using badcrc(7,8) by (simp add: sc_join_algebra)
qed (simp_all add: rtcm_scan_eqs sc_join_algebra)

section \<open>Encoding\<close>

text \<open>The sender side of the format: preamble, 10-bit length, payload, CRC-24Q.\<close>

definition encode_frame :: "u8 list \<Rightarrow> u8 list" where
  "encode_frame payload =
     (let n = length payload;
          h = [0xD3, of_nat (n div 256), of_nat (n mod 256)] @ payload;
          crc = rtcm_crc24q h
      in h @ [ucast (drop_bit 16 crc), ucast (drop_bit 8 crc), ucast crc])"

lemma crc_bytes_split:
  assumes "crc24 c"
  shows "crc_bytes (ucast (drop_bit 16 c)) (ucast (drop_bit 8 c)) (ucast c) = c"
proof (rule bit_word_eqI)
  fix n :: nat
  have "bit c n \<Longrightarrow> n < 24" using assms by (metis crc24_def not_le)
  then show "bit (crc_bytes (ucast (drop_bit 16 c)) (ucast (drop_bit 8 c)) (ucast c)) n = bit c n"
    by (cases "n < 8"; cases "n < 16") (auto simp: crc_bytes_def bit_simps)
qed

lemma length_bits:
  assumes "n < 1024"
  shows "of_nat (n div 256) AND (0xFC :: u8) = 0" "of_nat (n div 256) AND (3 :: u8) = of_nat (n div 256)"
proof -
  have "n div 256 < 4" using assms by simp
  then have "n div 256 \<in> {0, 1, 2, 3}" by auto
  then show "of_nat (n div 256) AND (0xFC :: u8) = 0" "of_nat (n div 256) AND (3 :: u8) = of_nat (n div 256)"
    by auto
qed

lemma encode_frame_valid:
  assumes "length payload < 1024" shows "valid_frame (encode_frame payload)"
proof -
  define n where "n = length payload"
  define h :: "u8 list" where "h = [0xD3, of_nat (n div 256), of_nat (n mod 256)] @ payload"
  define f where "f = encode_frame payload"
  have f: "f = h @ [ucast (drop_bit 16 (rtcm_crc24q h)), ucast (drop_bit 8 (rtcm_crc24q h)),
      ucast (rtcm_crc24q h)]" (is "_ = h @ [?x, ?y, ?z]")
    by (simp add: f_def encode_frame_def h_def n_def Let_def)
  have lenh: "length h = n + 3" by (simp add: h_def n_def)
  have hd: "f ! 0 = 0xD3" "f ! 1 = of_nat (n div 256)" "f ! 2 = of_nat (n mod 256)"
    by (simp_all add: f h_def)
  have "n div 256 < 256" using assms by (simp add: n_def)
  then have "frame_need (f ! 1) (f ! 2) = (n div 256) * 256 + n mod 256 + 6"
    unfolding hd frame_need_eq using length_bits(2) [of n] assms
    by (simp add: n_def unsigned_of_nat take_bit_nat_eq_self)
  then have need: "frame_need (f ! 1) (f ! 2) = length f" by (simp add: f lenh)
  have idx: "f ! (length f - 3) = ?x" "f ! (length f - 2) = ?y" "f ! (length f - 1) = ?z"
    and tk: "take (length f - 3) f = h" by (simp_all add: f lenh nth_append)
  show ?thesis
    unfolding f_def [symmetric] valid_frame_def idx tk need
    unfolding hd using length_bits(1) [of n] assms
    by (simp add: crc_bytes_split rtcm_crc24q_crc24 n_def) (simp add: f lenh)
qed

lemma rtcm_scan_encoded:
  assumes "\<forall>p \<in> set ps. length p < 1024"
  shows "rtcm_scan (concat (map encode_frame ps) @ ys) =
    sc_join \<lparr>sc_frames = map encode_frame ps, sc_skipped = 0, sc_crc = 0, sc_rest = []\<rparr> (rtcm_scan ys)"
  using assms
  by (induction ps) (simp_all add: rtcm_scan_frame encode_frame_valid sc_join_algebra, simp_all add: sc_defs)

end
