(* ===== verification/Rtcm_Parser.thy ===== *)
theory Rtcm_Parser
  imports Rtcm_Frame "HOL-Library.Monad_Syntax"
begin

text \<open>
  The stateful RTCM parser of \<open>src/main/interface/ntrip_tx_core.c\<close>: \<open>rtcm_parser_init\<close>,
  \<open>parser_hunt_in_buf\<close>, \<open>parser_process\<close> and \<open>rtcm_parser_feed\<close>, over the 1029-byte
  buffer with every read and write checked. A result of \<open>None\<close> is an access outside the
  buffer or a loop that does not end; the refinement theorem shows neither happens and that
  the parser computes \<open>rtcm_scan\<close>.

  The frame callback is a parameter: \<open>None\<close> for a null pointer, otherwise a function that
  updates a context of any type with the frame and its receive time.
\<close>

section \<open>The code\<close>

record rtcm_parser =
  p_buf :: "u8 list"
  p_have :: nat
  p_need :: nat
  p_frames_ok :: u64
  p_bytes_ok :: u64
  p_bytes_discarded :: u64
  p_crc_errors :: u64

type_synonym 'c frame_cb = "('c \<Rightarrow> u8 list \<Rightarrow> u32 \<Rightarrow> 'c) option"

definition deliver :: "'c frame_cb \<Rightarrow> u32 \<Rightarrow> 'c \<Rightarrow> u8 list \<Rightarrow> 'c" where
  "deliver cb now c f = (case cb of None \<Rightarrow> c | Some g \<Rightarrow> g c f now)"

definition rtcm_parser_init :: rtcm_parser where
  "rtcm_parser_init = \<lparr>p_buf = replicate RTCM_MAX_FRAME_B 0, p_have = 0, p_need = 0,
     p_frames_ok = 0, p_bytes_ok = 0, p_bytes_discarded = 0, p_crc_errors = 0\<rparr>"

function hunt_scan :: "u8 list \<Rightarrow> nat \<Rightarrow> nat \<Rightarrow> nat option" where
  "hunt_scan buf hv i =
     (if i < hv
      then do { b \<leftarrow> mem_get buf i; if b \<noteq> 0xD3 then hunt_scan buf hv (i + 1) else Some i }
      else Some i)"
  by pat_completeness auto
termination
  by (relation "measure (\<lambda>(buf, hv, i). hv - i)") auto

definition parser_hunt_in_buf :: "rtcm_parser \<Rightarrow> nat \<Rightarrow> rtcm_parser option" where
  "parser_hunt_in_buf p from = do {
     i \<leftarrow> hunt_scan (p_buf p) (p_have p) from;
     let p = p\<lparr>p_bytes_discarded := p_bytes_discarded p + of_nat i\<rparr>;
     if i < p_have p
     then do {
       xs \<leftarrow> mem_read (p_buf p) i (p_have p - i);
       b \<leftarrow> mem_write (p_buf p) 0 xs;
       Some (p\<lparr>p_buf := b, p_have := p_have p - i, p_need := 0\<rparr>)
     }
     else Some (p\<lparr>p_have := 0, p_need := 0\<rparr>)
   }"

text \<open>The accepted-frame branch of the loop: count, deliver, consume, resynchronise.\<close>

definition parser_accept ::
  "'c frame_cb \<Rightarrow> u32 \<Rightarrow> nat \<Rightarrow> rtcm_parser \<Rightarrow> 'c \<Rightarrow> (rtcm_parser \<times> 'c) option" where
  "parser_accept cb now need p c = do {
     frame \<leftarrow> mem_read (p_buf p) 0 need;
     let p = p\<lparr>p_frames_ok := p_frames_ok p + 1, p_bytes_ok := p_bytes_ok p + of_nat need\<rparr>;
     let c = deliver cb now c frame;
     b \<leftarrow> (if p_have p > need
           then do { xs \<leftarrow> mem_read (p_buf p) need (p_have p - need); mem_write (p_buf p) 0 xs }
           else Some (p_buf p));
     let p = p\<lparr>p_buf := b, p_have := p_have p - need, p_need := 0\<rparr>;
     if p_have p > 0
     then do {
       b0 \<leftarrow> mem_get (p_buf p) 0;
       if b0 \<noteq> 0xD3 then do { p \<leftarrow> parser_hunt_in_buf p 0; Some (p, c) } else Some (p, c)
     }
     else Some (p, c)
   }"

text \<open>One iteration of the \<open>for (;;)\<close> of \<open>parser_process\<close>; the flag says that it returned.\<close>

definition parser_round ::
  "'c frame_cb \<Rightarrow> u32 \<Rightarrow> rtcm_parser \<Rightarrow> 'c \<Rightarrow> (bool \<times> rtcm_parser \<times> 'c) option" where
  "parser_round cb now p c =
     (if p_have p < 3 then Some (True, p\<lparr>p_need := 0\<rparr>, c)
      else do {
        b1 \<leftarrow> mem_get (p_buf p) 1;
        if b1 AND 0xFC \<noteq> 0 then do { p \<leftarrow> parser_hunt_in_buf p 1; Some (False, p, c) }
        else do {
          b2 \<leftarrow> mem_get (p_buf p) 2;
          let need = frame_need b1 b2;
          let p = p\<lparr>p_need := need\<rparr>;
          if p_have p < need then Some (True, p, c)
          else do {
            x \<leftarrow> mem_get (p_buf p) (need - 3);
            y \<leftarrow> mem_get (p_buf p) (need - 2);
            z \<leftarrow> mem_get (p_buf p) (need - 1);
            body \<leftarrow> mem_read (p_buf p) 0 (need - 3);
            if rtcm_crc24q body = crc_bytes x y z
            then do { (p, c) \<leftarrow> parser_accept cb now need p c; Some (False, p, c) }
            else do {
              p \<leftarrow> parser_hunt_in_buf (p\<lparr>p_crc_errors := p_crc_errors p + 1\<rparr>) 1;
              Some (False, p, c)
            }
          }
        }
      })"

partial_function (option) parser_process ::
  "'c frame_cb \<Rightarrow> u32 \<Rightarrow> rtcm_parser \<Rightarrow> 'c \<Rightarrow> (rtcm_parser \<times> 'c) option" where
  "parser_process cb now p c = do {
     (done, p, c) \<leftarrow> parser_round cb now p c;
     if done then Some (p, c) else parser_process cb now p c
   }"

text \<open>
  The hunt at the top of the feed loop. When no preamble is in the input the loop returns:
  the parser then still holds no byte.
\<close>

definition feed_hunt :: "rtcm_parser \<Rightarrow> u8 list \<Rightarrow> (rtcm_parser \<times> u8 list) option" where
  "feed_hunt p ds =
     (if p_have p = 0
      then let g = takeWhile (\<lambda>b. b \<noteq> 0xD3) ds; rest = dropWhile (\<lambda>b. b \<noteq> 0xD3) ds;
               p = p\<lparr>p_bytes_discarded := p_bytes_discarded p + of_nat (length g)\<rparr>
           in if rest = [] then Some (p, [])
              else do { b \<leftarrow> mem_write (p_buf p) 0 [0xD3]; Some (p\<lparr>p_buf := b, p_have := 1\<rparr>, tl rest) }
      else Some (p, ds))"

text \<open>Top up toward the next decision point, and process when it is reached.\<close>

definition feed_fill ::
  "'c frame_cb \<Rightarrow> u32 \<Rightarrow> rtcm_parser \<Rightarrow> 'c \<Rightarrow> u8 list \<Rightarrow> (rtcm_parser \<times> 'c \<times> u8 list) option" where
  "feed_fill cb now p c ds = do {
     let target = (if p_have p < 3 then 3 else p_need p);
     let want = to_size (int target - int (p_have p));
     let n = (if want < length ds then want else length ds);
     b \<leftarrow> mem_write (p_buf p) (p_have p) (take n ds);
     let p = p\<lparr>p_buf := b, p_have := to_u16 (p_have p + to_u16 n)\<rparr>;
     (p, c) \<leftarrow> (if p_have p = target then parser_process cb now p c else Some (p, c));
     Some (p, c, drop n ds)
   }"

partial_function (option) rtcm_parser_feed ::
  "'c frame_cb \<Rightarrow> u32 \<Rightarrow> rtcm_parser \<Rightarrow> 'c \<Rightarrow> u8 list \<Rightarrow> (rtcm_parser \<times> 'c) option" where
  "rtcm_parser_feed cb now p c ds =
     (if ds = [] then Some (p, c)
      else do {
        (p, ds) \<leftarrow> feed_hunt p ds;
        if p_have p = 0 then Some (p, c)
        else do {
          (p, c, ds) \<leftarrow> feed_fill cb now p c ds;
          rtcm_parser_feed cb now p c ds
        }
      })"

section \<open>Invariant and abstraction\<close>

text \<open>The bytes the parser holds.\<close>

definition pending :: "rtcm_parser \<Rightarrow> u8 list" where
  "pending p = take (p_have p) (p_buf p)"

text \<open>What holds inside the processing loop: the buffer is intact and begins with a preamble.\<close>

definition parser_buf_ok :: "rtcm_parser \<Rightarrow> bool" where
  "parser_buf_ok p \<longleftrightarrow> length (p_buf p) = RTCM_MAX_FRAME_B \<and> p_have p \<le> RTCM_MAX_FRAME_B \<and>
     (p_have p > 0 \<longrightarrow> p_buf p ! 0 = 0xD3)"

text \<open>The invariant between calls, as the comment above \<open>parser_process\<close> lists it.\<close>

definition parser_ok :: "rtcm_parser \<Rightarrow> bool" where
  "parser_ok p \<longleftrightarrow> length (p_buf p) = RTCM_MAX_FRAME_B \<and>
     (p_have p = 0 \<or>
      (p_buf p ! 0 = 0xD3 \<and> p_have p < 3) \<or>
      (p_buf p ! 0 = 0xD3 \<and> 3 \<le> p_have p \<and> p_buf p ! 1 AND 0xFC = 0 \<and>
       p_need p = frame_need (p_buf p ! 1) (p_buf p ! 2) \<and> p_have p < p_need p))"

text \<open>The effect of scanning, seen on the parser's counters, buffer and callback context.\<close>

definition parser_after ::
  "'c frame_cb \<Rightarrow> u32 \<Rightarrow> rtcm_parser \<Rightarrow> 'c \<Rightarrow> scanned \<Rightarrow> rtcm_parser \<Rightarrow> 'c \<Rightarrow> bool" where
  "parser_after cb now p c r p' c' \<longleftrightarrow>
     pending p' = sc_rest r \<and>
     p_frames_ok p' = p_frames_ok p + of_nat (length (sc_frames r)) \<and>
     p_bytes_ok p' = p_bytes_ok p + of_nat (sum_list (map length (sc_frames r))) \<and>
     p_bytes_discarded p' = p_bytes_discarded p + of_nat (sc_skipped r) \<and>
     p_crc_errors p' = p_crc_errors p + of_nat (sc_crc r) \<and>
     c' = foldl (deliver cb now) c (sc_frames r)"

lemma parser_after_trans:
  "parser_after cb now p c a p' c' \<Longrightarrow> parser_after cb now p' c' b p'' c'' \<Longrightarrow>
   parser_after cb now p c (sc_join a b) p'' c''"
  by (simp add: parser_after_def sc_join_def)

lemma parser_after_refl: "parser_after cb now p c (sc_stop (pending p)) p c"
  by (simp add: parser_after_def sc_stop_def)

lemma parser_ok_buf: "parser_ok p \<Longrightarrow> parser_buf_ok p"
  using frame_need_bounds(2) [of "p_buf p ! 1" "p_buf p ! 2"]
  by (auto simp: parser_ok_def parser_buf_ok_def)

lemma length_pending: "parser_buf_ok p \<Longrightarrow> length (pending p) = p_have p"
  by (simp add: pending_def parser_buf_ok_def)

lemma pending_nth: "i < p_have p \<Longrightarrow> pending p ! i = p_buf p ! i"
  by (simp add: pending_def)

lemma parser_ok_waits:
  assumes "parser_ok p" shows "scan_waits (pending p)"
proof -
  have len: "length (pending p) = p_have p" using assms parser_ok_buf length_pending by blast
  show ?thesis using assms len pending_nth [of 0 p] pending_nth [of 1 p] pending_nth [of 2 p]
    by (cases "p_have p = 0") (auto simp: scan_waits_def parser_ok_def)
qed

lemma parser_init_ok: "parser_ok rtcm_parser_init" "pending rtcm_parser_init = []"
  by (simp_all add: parser_ok_def rtcm_parser_init_def pending_def)

section \<open>Refinement: the processing loop\<close>

declare hunt_scan.simps [simp del]

lemma hunt_scan_eq:
  "hv \<le> length buf \<Longrightarrow> i \<le> hv \<Longrightarrow>
   hunt_scan buf hv i = Some (i + length (takeWhile (\<lambda>b. b \<noteq> 0xD3) (drop i (take hv buf))))"
proof (induction buf hv i rule: hunt_scan.induct)
  case (1 buf hv i)
  show ?case
  proof (cases "i < hv")
    case True
    then have "drop i (take hv buf) = buf ! i # drop (Suc i) (take hv buf)"
      using "1.prems" Cons_nth_drop_Suc [of i "take hv buf"] by simp
    with 1 True show ?thesis by (simp add: hunt_scan.simps [of buf hv i])
  next
    case False
    with "1.prems" show ?thesis by (subst hunt_scan.simps) simp
  qed
qed

definition skip_to :: "u8 list \<Rightarrow> nat \<Rightarrow> u8 list" where
  "skip_to xs fr = dropWhile (\<lambda>b. b \<noteq> 0xD3) (drop fr xs)"

lemma skip_to_length: "length (skip_to xs fr) \<le> length xs - fr"
  unfolding skip_to_def by (metis length_dropWhile_le length_drop)

lemma rtcm_scan_skip_to:
  "fr \<le> length xs \<Longrightarrow>
   rtcm_scan (drop fr xs) = sc_skip (length xs - fr - length (skip_to xs fr)) (rtcm_scan (skip_to xs fr))"
  unfolding skip_to_def
  using rtcm_scan_takeWhile [of "drop fr xs"]
    takeWhile_dropWhile_length [of "\<lambda>b. b \<noteq> 0xD3" "drop fr xs"]
  by (metis add_diff_cancel_right' length_drop)

lemma parser_hunt:
  assumes "length (p_buf p) = RTCM_MAX_FRAME_B" "p_have p \<le> RTCM_MAX_FRAME_B" "fr \<le> p_have p"
  obtains p' where "parser_hunt_in_buf p fr = Some p'" "parser_buf_ok p'"
    "p_have p' \<le> p_have p - fr"
    "parser_after cb now p c
       \<lparr>sc_frames = [], sc_skipped = p_have p - length (skip_to (pending p) fr), sc_crc = 0,
        sc_rest = skip_to (pending p) fr\<rparr> p' c"
proof -
  define xs where "xs = pending p"
  define t where "t = takeWhile (\<lambda>b. b \<noteq> 0xD3) (drop fr xs)"
  define rest where "rest = skip_to xs fr"
  have len: "length xs = p_have p" and xs: "xs = take (p_have p) (p_buf p)"
    using assms by (simp_all add: xs_def pending_def)
  have split: "drop fr xs = t @ rest" by (simp add: t_def rest_def skip_to_def)
  then have lens: "p_have p - fr = length t + length rest"
    using len by (metis length_append length_drop)
  have scan: "hunt_scan (p_buf p) (p_have p) fr = Some (fr + length t)"
    using hunt_scan_eq [of "p_have p" "p_buf p" fr] assms by (simp add: t_def xs)
  have restd: "rest = drop (fr + length t) xs" by (metis split append_eq_conv_conj drop_drop add.commute)
  then have restb: "rest = take (p_have p - (fr + length t)) (drop (fr + length t) (p_buf p))"
    by (simp add: xs drop_take)
  have hd: "rest \<noteq> [] \<Longrightarrow> hd rest = 0xD3"
    unfolding rest_def skip_to_def by (metis (mono_tags, lifting) hd_dropWhile)
  define i where "i = fr + length t"
  have i: "i = p_have p - length rest" and lr: "length rest = p_have p - i"
    using lens assms(3) by (simp_all add: i_def)
  note facts = scan [folded i_def] restb [folded i_def, symmetric] i lr
  let ?d = "p_bytes_discarded p + of_nat i"
  show ?thesis
  proof (cases "rest = []")
    case True
    let ?p = "p\<lparr>p_bytes_discarded := ?d, p_have := 0, p_need := 0\<rparr>"
    have "parser_hunt_in_buf p fr = Some ?p"
      using True facts by (simp add: parser_hunt_in_buf_def Let_def)
    with True i assms show ?thesis
      by (intro that [of ?p])
        (auto simp: parser_buf_ok_def parser_after_def pending_def rest_def xs_def)
  next
    case False
    then have lt: "i < p_have p" using lr by (cases rest) auto
    define b where "b = rest @ drop (length rest) (p_buf p)"
    let ?p = "p\<lparr>p_bytes_discarded := ?d, p_buf := b, p_have := length rest, p_need := 0\<rparr>"
    have "parser_hunt_in_buf p fr = Some ?p"
      using lt assms by (simp add: parser_hunt_in_buf_def Let_def facts(1,2) b_def lr)
    moreover have "b ! 0 = 0xD3" using False hd by (cases rest) (auto simp: b_def)
    ultimately show ?thesis using assms lr lens i
      by (intro that [of ?p]) (auto simp: parser_buf_ok_def parser_after_def pending_def b_def rest_def xs_def)
  qed
qed

text \<open>An iteration that does not return makes progress and matches one decision of the scanner.\<close>

definition round_ok ::
  "'c frame_cb \<Rightarrow> u32 \<Rightarrow> rtcm_parser \<Rightarrow> 'c \<Rightarrow> rtcm_parser \<Rightarrow> 'c \<Rightarrow> bool" where
  "round_ok cb now p c p' c' \<longleftrightarrow> parser_buf_ok p' \<and> p_have p' < p_have p \<and>
     (\<exists>r. parser_after cb now p c r p' c' \<and>
          rtcm_scan (pending p) = sc_join r (rtcm_scan (pending p')))"

lemma round_hunt1:
  assumes "length (p_buf p) = RTCM_MAX_FRAME_B" "p_have p \<le> RTCM_MAX_FRAME_B" "3 \<le> p_have p"
    and crc: "p_crc_errors p = p_crc_errors q + of_nat k"
    and same: "p_buf p = p_buf q" "p_have p = p_have q" "p_frames_ok p = p_frames_ok q"
      "p_bytes_ok p = p_bytes_ok q" "p_bytes_discarded p = p_bytes_discarded q"
    and scan: "rtcm_scan (pending q) = sc_join \<lparr>sc_frames = [], sc_skipped = 1, sc_crc = k, sc_rest = []\<rparr>
        (rtcm_scan (tl (pending q)))"
  obtains p' where "parser_hunt_in_buf p 1 = Some p'" "round_ok cb now q c p' c"
proof -
  obtain p' where h: "parser_hunt_in_buf p 1 = Some p'" "parser_buf_ok p'" "p_have p' \<le> p_have p - 1"
    and a: "parser_after cb now p c \<lparr>sc_frames = [], sc_skipped = p_have p - length (skip_to (pending p) 1),
      sc_crc = 0, sc_rest = skip_to (pending p) 1\<rparr> p' c"
    using assms by (elim parser_hunt [where fr = 1]) auto
  define n where "n = length (skip_to (pending p) 1)"
  have pp: "pending p = pending q" by (simp add: pending_def same)
  have len: "length (pending p) = p_have p" using assms by (simp add: pending_def)
  have n: "n \<le> p_have p - 1" using skip_to_length [of "pending p" 1] by (simp add: n_def len)
  have "rtcm_scan (tl (pending q)) = sc_skip (p_have p - 1 - n) (rtcm_scan (skip_to (pending p) 1))"
    using rtcm_scan_skip_to [of 1 "pending p"] assms(3) len by (simp add: n_def pp drop_Suc)
  then have "rtcm_scan (pending q) =
      sc_join \<lparr>sc_frames = [], sc_skipped = p_have p - n, sc_crc = k, sc_rest = skip_to (pending p) 1\<rparr>
        (rtcm_scan (skip_to (pending p) 1))"
    using scan n assms(3) by (simp add: sc_defs)
  moreover have "pending p' = skip_to (pending p) 1" using a by (simp add: parser_after_def)
  ultimately have "round_ok cb now q c p' c"
    unfolding round_ok_def using h a crc same assms(3)
    by (auto intro!: exI [of _ "\<lparr>sc_frames = [], sc_skipped = p_have p - n, sc_crc = k,
        sc_rest = skip_to (pending p) 1\<rparr>"] simp: parser_after_def n_def)
  with h show ?thesis by (intro that)
qed

lemma parser_consume:
  assumes "length (p_buf p) = RTCM_MAX_FRAME_B" "p_have p \<le> RTCM_MAX_FRAME_B"
    and pend: "pending p = f @ ys" and "f \<noteq> []"
  obtains p1 where "pending p1 = ys" "p_have p1 = length ys" "length (p_buf p1) = RTCM_MAX_FRAME_B"
    "parser_after cb now p c \<lparr>sc_frames = [f], sc_skipped = 0, sc_crc = 0, sc_rest = ys\<rparr> p1 (deliver cb now c f)"
    "parser_accept cb now (length f) p c =
       (if p_have p1 > 0
        then do { b0 \<leftarrow> mem_get (p_buf p1) 0;
          if b0 \<noteq> 0xD3 then do { p' \<leftarrow> parser_hunt_in_buf p1 0; Some (p', deliver cb now c f) }
          else Some (p1, deliver cb now c f) }
        else Some (p1, deliver cb now c f))"
proof -
  have hv: "p_have p = length f + length ys"
    using pend assms(1,2) by (metis length_append length_take min.absorb2 pending_def)
  have tk: "take (length f) (p_buf p) = f"
    using pend hv assms(1,2) by (metis append_eq_conv_conj le_add1 min.absorb2 pending_def take_take min.commute)
  have dr: "take (length ys) (drop (length f) (p_buf p)) = ys"
    using pend hv unfolding pending_def
    by (metis add_diff_cancel_left' append_eq_conv_conj drop_take)
  define b where "b = (if ys = [] then p_buf p else ys @ drop (length ys) (p_buf p))"
  let ?p = "p\<lparr>p_frames_ok := p_frames_ok p + 1, p_bytes_ok := p_bytes_ok p + of_nat (length f),
      p_buf := b, p_have := length ys, p_need := 0\<rparr>"
  show ?thesis
  proof (rule that [of ?p])
    show "parser_accept cb now (length f) p c =
       (if p_have ?p > 0
        then do { b0 \<leftarrow> mem_get (p_buf ?p) 0;
          if b0 \<noteq> 0xD3 then do { p' \<leftarrow> parser_hunt_in_buf ?p 0; Some (p', deliver cb now c f) }
          else Some (?p, deliver cb now c f) }
        else Some (?p, deliver cb now c f))"
      using hv assms(1,2) by (cases "ys = []") (simp_all add: parser_accept_def Let_def tk dr b_def)
    show "length (p_buf ?p) = RTCM_MAX_FRAME_B" using hv assms by (simp add: b_def)
    show "pending ?p = ys" by (simp add: pending_def b_def)
    then show "parser_after cb now p c \<lparr>sc_frames = [f], sc_skipped = 0, sc_crc = 0, sc_rest = ys\<rparr> ?p
        (deliver cb now c f)" by (simp add: parser_after_def)
  qed simp
qed

lemma parser_accept_ok:
  assumes "length (p_buf p) = RTCM_MAX_FRAME_B" "p_have p \<le> RTCM_MAX_FRAME_B"
    and pend: "pending p = f @ ys" and f: "valid_frame f"
  obtains p' c' where "parser_accept cb now (length f) p c = Some (p', c')" "round_ok cb now p c p' c'"
proof -
  let ?c = "deliver cb now c f"
  let ?r = "\<lparr>sc_frames = [f], sc_skipped = 0, sc_crc = 0, sc_rest = ys\<rparr>"
  have fne: "f \<noteq> []" "0 < length f" using f valid_frame_length by force+
  obtain p1 where p1: "pending p1 = ys" "p_have p1 = length ys" "length (p_buf p1) = RTCM_MAX_FRAME_B"
    and a: "parser_after cb now p c ?r p1 ?c"
    and eq: "parser_accept cb now (length f) p c =
       (if p_have p1 > 0
        then do { b0 \<leftarrow> mem_get (p_buf p1) 0;
          if b0 \<noteq> 0xD3 then do { p' \<leftarrow> parser_hunt_in_buf p1 0; Some (p', ?c) } else Some (p1, ?c) }
        else Some (p1, ?c))"
    using parser_consume [OF assms(1,2) pend fne(1)] by metis
  have hv: "p_have p = length f + length ys"
    using pend assms(1,2) by (metis length_append length_take min.absorb2 pending_def)
  then have le: "p_have p1 \<le> RTCM_MAX_FRAME_B" "p_have p1 < p_have p"
    using p1 assms(2) fne by simp_all
  have scan: "rtcm_scan (pending p) = sc_join ?r (rtcm_scan ys)"
    using f by (simp add: pend rtcm_scan_frame sc_defs)
  show ?thesis
  proof (cases "p_have p1 = 0 \<or> p_buf p1 ! 0 = 0xD3")
    case True
    then have "parser_buf_ok p1" using p1 le by (auto simp: parser_buf_ok_def)
    then have "round_ok cb now p c p1 ?c" using a scan p1 le by (auto simp: round_ok_def)
    moreover have "parser_accept cb now (length f) p c = Some (p1, ?c)" using eq True p1 by auto
    ultimately show ?thesis by (rule that [rotated])
  next
    case False
    let ?k = "\<lparr>sc_frames = [], sc_skipped = p_have p1 - length (skip_to (pending p1) 0), sc_crc = 0,
        sc_rest = skip_to (pending p1) 0\<rparr>"
    obtain p' where h: "parser_hunt_in_buf p1 0 = Some p'" "parser_buf_ok p'" "p_have p' \<le> p_have p1 - 0"
      and a': "parser_after cb now p1 ?c ?k p' ?c"
      using parser_hunt [OF p1(3) le(1), where fr = 0 and cb = cb and now = now and c = ?c] by auto
    have "rtcm_scan ys = sc_join ?k (rtcm_scan (pending p'))"
      using rtcm_scan_skip_to [of 0 ys] a' p1 by (simp add: parser_after_def sc_defs)
    then have "rtcm_scan (pending p) = sc_join (sc_join ?r ?k) (rtcm_scan (pending p'))"
      by (simp add: scan sc_join_algebra)
    then have "round_ok cb now p c p' ?c"
      unfolding round_ok_def using h le parser_after_trans [OF a a'] by auto
    moreover have "parser_accept cb now (length f) p c = Some (p', ?c)" using eq False h p1 by auto
    ultimately show ?thesis by (rule that [rotated])
  qed
qed

lemma parser_round_ok:
  assumes ok: "parser_buf_ok p"
  shows "(\<exists>n. parser_round cb now p c = Some (True, p\<lparr>p_need := n\<rparr>, c) \<and> parser_ok (p\<lparr>p_need := n\<rparr>)) \<or>
         (\<exists>p' c'. parser_round cb now p c = Some (False, p', c') \<and> round_ok cb now p c p' c')"
proof (cases "p_have p < 3")
  case True
  then show ?thesis using ok by (auto simp: parser_round_def parser_ok_def parser_buf_ok_def)
next
  case False
  have len: "length (pending p) = p_have p" using ok by (rule length_pending)
  have bl: "length (p_buf p) = RTCM_MAX_FRAME_B" "p_have p \<le> RTCM_MAX_FRAME_B" "p_buf p ! 0 = 0xD3"
    using ok False by (auto simp: parser_buf_ok_def)
  define need where "need = frame_need (p_buf p ! 1) (p_buf p ! 2)"
  have nb: "6 \<le> need" "need \<le> RTCM_MAX_FRAME_B" using frame_need_bounds by (simp_all add: need_def)
  have idx: "\<And>i. i < p_have p \<Longrightarrow> pending p ! i = p_buf p ! i" by (rule pending_nth)
  have i012: "pending p ! 0 = 0xD3" "pending p ! 1 = p_buf p ! 1" "pending p ! 2 = p_buf p ! 2"
    using False bl by (simp_all add: pending_nth)
  have need_s: "frame_need (p_buf p ! Suc 0) (p_buf p ! 2) = need" by (simp add: need_def)
  note rd = parser_round_def Let_def need_s bl
  show ?thesis
  proof (cases "pending p" rule: rtcm_scan_cases)
    case reserved
    have "rtcm_scan (pending p) = sc_join \<lparr>sc_frames = [], sc_skipped = 1, sc_crc = 0, sc_rest = []\<rparr>
        (rtcm_scan (tl (pending p)))"
      using rtcm_scan_reserved [OF reserved] by (simp add: sc_defs)
    then obtain p' where "parser_hunt_in_buf p 1 = Some p'" "round_ok cb now p c p' c"
      using round_hunt1 [where p = p and q = p and k = 0 and cb = cb and now = now and c = c] bl False by auto
    then show ?thesis using False reserved(3) i012 by (auto simp: rd)
  next
    case partial
    then have "parser_round cb now p c = Some (True, p\<lparr>p_need := need\<rparr>, c)"
      using False nb i012 len by (auto simp: parser_round_def Let_def bl need_def)
    moreover have "parser_ok (p\<lparr>p_need := need\<rparr>)"
      using partial False bl i012 len by (auto simp: parser_ok_def need_def)
    ultimately show ?thesis by blast
  next
    case (frame f ys)
    have lf: "3 \<le> length f" "length f \<le> p_have p"
      using frame valid_frame_length [of f] len by (auto simp: frame(2))
    have f: "f = take (length f) (p_buf p)"
      using frame lf by (metis append_eq_conv_conj min.absorb1 pending_def take_take)
    have fi: "\<And>i. i < length f \<Longrightarrow> f ! i = p_buf p ! i" using f by (metis nth_take)
    have ft: "take (length f - 3) f = take (length f - 3) (p_buf p)"
      using f by (metis diff_le_self min.absorb1 take_take)
    have n: "need = length f" "p_buf p ! 1 AND 0xFC = 0"
      using frame(1) lf fi [of 1] fi [of 2] by (simp_all add: valid_frame_def need_def)
    have crc: "rtcm_crc24q (take (length f - 3) (p_buf p)) = crc_bytes (p_buf p ! (length f - 3))
        (p_buf p ! (length f - 2)) (p_buf p ! (length f - 1))"
    proof -
      have "rtcm_crc24q (take (length f - 3) f) = crc_bytes (f ! (length f - 3)) (f ! (length f - 2)) (f ! (length f - 1))"
        using frame(1) unfolding valid_frame_def by blast
      then show ?thesis using lf ft fi by simp
    qed
    let ?q = "p\<lparr>p_need := length f\<rparr>"
    have pq: "pending ?q = f @ ys" using frame(2) by (simp add: pending_def)
    obtain p' c' where "parser_accept cb now (length f) ?q c = Some (p', c')" and r: "round_ok cb now ?q c p' c'"
      using parser_accept_ok [OF _ _ pq frame(1)] bl by (metis rtcm_parser.select_convs(1,2) rtcm_parser.update_convs(3) rtcm_parser.surjective)
    then have "parser_round cb now p c = Some (False, p', c')"
      using False lf n crc bl nb(2) by (simp add: rd)
    moreover have "round_ok cb now p c p' c'"
      using r by (simp add: round_ok_def parser_after_def pending_def)
    ultimately show ?thesis by blast
  next
    case (badcrc need')
    have n: "need' = need" "need \<le> p_have p" using badcrc i012 len by (simp_all add: need_def)
    have "rtcm_scan (pending p) = sc_join \<lparr>sc_frames = [], sc_skipped = 1, sc_crc = 1, sc_rest = []\<rparr>
        (rtcm_scan (tl (pending p)))"
      using rtcm_scan_badcrc [OF badcrc(1,3,4,5,6)] by (simp add: sc_defs)
    then obtain p' where h: "parser_hunt_in_buf (p\<lparr>p_need := need, p_crc_errors := p_crc_errors p + 1\<rparr>) 1 = Some p'"
      and r: "round_ok cb now p c p' c"
      using round_hunt1 [where p = "p\<lparr>p_need := need, p_crc_errors := p_crc_errors p + 1\<rparr>" and q = p and k = 1
          and cb = cb and now = now and c = c] bl False by auto
    have "take (need - 3) (pending p) = take (need - 3) (p_buf p)"
      using n by (simp add: pending_def min_absorb1)
    then have "rtcm_crc24q (take (need - 3) (p_buf p)) \<noteq> crc_bytes (p_buf p ! (need - 3)) (p_buf p ! (need - 2)) (p_buf p ! (need - 1))"
      using badcrc(6) n nb(1) idx by auto
    then have "parser_round cb now p c = Some (False, p', c)"
      using False h n nb bl badcrc(3) i012 by (simp add: rd)
    with r show ?thesis by blast
  qed (use False bl i012 len in auto)
qed

lemma parser_process_ok:
  "parser_buf_ok p \<Longrightarrow> \<exists>p' c'. parser_process cb now p c = Some (p', c') \<and> parser_ok p' \<and>
     parser_after cb now p c (rtcm_scan (pending p)) p' c'"
proof (induction "p_have p" arbitrary: p c rule: less_induct)
  case less
  from parser_round_ok [OF less.prems, of cb now c] show ?case
  proof (elim disjE exE conjE)
    fix n assume r: "parser_round cb now p c = Some (True, p\<lparr>p_need := n\<rparr>, c)" "parser_ok (p\<lparr>p_need := n\<rparr>)"
    have "rtcm_scan (pending p) = sc_stop (pending p)"
      using parser_ok_waits [OF r(2)] rtcm_scan_waiting by (simp add: pending_def)
    then show ?thesis using r
      by (subst parser_process.simps) (simp add: parser_after_def sc_defs pending_def)
  next
    fix p' c' assume r: "parser_round cb now p c = Some (False, p', c')" "round_ok cb now p c p' c'"
    then obtain p2 c2 where "parser_process cb now p' c' = Some (p2, c2)" "parser_ok p2"
      "parser_after cb now p' c' (rtcm_scan (pending p')) p2 c2"
      using less.hyps [of p' c'] by (auto simp: round_ok_def)
    then show ?thesis using r parser_after_trans
      by (subst parser_process.simps) (auto simp: round_ok_def)
  qed
qed

section \<open>Refinement: the feed loop\<close>

lemma feed_hunt_ok:
  assumes ok: "parser_ok p" and ds: "ds \<noteq> []"
  obtains p' ds' r where "feed_hunt p ds = Some (p', ds')" "parser_ok p'"
    "parser_after cb now p c r p' c"
    "rtcm_scan (pending p @ ds) = sc_join r (rtcm_scan (pending p' @ ds'))"
    "p_have p' = 0 \<longrightarrow> ds' = []" "length ds' \<le> length ds"
    "p_have p = 0 \<longrightarrow> length ds' < length ds"
proof (cases "p_have p = 0")
  case False
  then show ?thesis using ok
    by (intro that [of p ds "\<lparr>sc_frames = [], sc_skipped = 0, sc_crc = 0, sc_rest = pending p\<rparr>"])
      (auto simp: feed_hunt_def parser_after_def sc_defs)
next
  case True
  define g where "g = takeWhile (\<lambda>b. b \<noteq> 0xD3) ds"
  define rest where "rest = dropWhile (\<lambda>b. b \<noteq> 0xD3) ds"
  have scan: "rtcm_scan ds = sc_skip (length g) (rtcm_scan rest)"
    unfolding g_def rest_def by (rule rtcm_scan_takeWhile)
  have ll: "length g + length rest = length ds"
    unfolding g_def rest_def using takeWhile_dropWhile_length by (metis add.commute)
  have bl: "length (p_buf p) = RTCM_MAX_FRAME_B" and pe: "pending p = []"
    using ok True by (simp_all add: parser_ok_def pending_def)
  let ?d = "p\<lparr>p_bytes_discarded := p_bytes_discarded p + of_nat (length g)\<rparr>"
  show ?thesis
  proof (cases "rest = []")
    case re: True
    have "feed_hunt p ds = Some (?d, [])"
      using True re by (simp add: feed_hunt_def Let_def g_def rest_def)
    then show ?thesis using True re bl scan pe ds
      by (intro that [of ?d "[]" "\<lparr>sc_frames = [], sc_skipped = length g, sc_crc = 0, sc_rest = []\<rparr>"])
        (auto simp: parser_ok_def parser_after_def pending_def sc_defs)
  next
    case re: False
    have hd: "rest = 0xD3 # tl rest"
      using re unfolding rest_def by (metis (mono_tags, lifting) hd_dropWhile list.collapse)
    let ?p = "?d\<lparr>p_buf := 0xD3 # drop 1 (p_buf p), p_have := 1\<rparr>"
    have "feed_hunt p ds = Some (?p, tl rest)"
      using True re bl by (simp add: feed_hunt_def Let_def g_def [symmetric] rest_def [symmetric])
    moreover have "pending ?p = [0xD3]" by (simp add: pending_def)
    moreover have "length rest - Suc 0 < length ds" using ll ds by (cases ds) auto
    ultimately show ?thesis using True re bl scan pe ll hd
      by (intro that [of ?p "tl rest" "\<lparr>sc_frames = [], sc_skipped = length g, sc_crc = 0, sc_rest = [0xD3]\<rparr>"])
        (auto simp: parser_ok_def parser_after_def sc_defs)
  qed
qed

lemma feed_hunt_keeps:
  "feed_hunt p ds = Some (p', ds') \<Longrightarrow> p_have p \<noteq> 0 \<Longrightarrow> p' = p \<and> ds' = ds"
  by (simp add: feed_hunt_def)

lemma feed_fill_ok:
  assumes ok: "parser_ok p" and hv: "0 < p_have p"
  obtains p' c' n where "feed_fill cb now p c ds = Some (p', c', drop n ds)" "parser_ok p'"
    "parser_after cb now p c (rtcm_scan (pending p @ take n ds)) p' c'" "ds \<noteq> [] \<Longrightarrow> 0 < n"
proof -
  define target where "target = (if p_have p < 3 then 3 else p_need p)"
  define n where "n = min (target - p_have p) (length ds)"
  have bl: "length (p_buf p) = RTCM_MAX_FRAME_B" and b0: "p_buf p ! 0 = 0xD3"
    using ok hv by (auto simp: parser_ok_def)
  have tb: "p_have p < target" "target \<le> RTCM_MAX_FRAME_B"
    using ok hv frame_need_bounds(2) [of "p_buf p ! 1" "p_buf p ! 2"]
    by (auto simp: parser_ok_def target_def)
  have n: "(if to_size (int target - int (p_have p)) < length ds
      then to_size (int target - int (p_have p)) else length ds) = n"
    using tb by (simp add: n_def min_def)
  have nb: "p_have p + n \<le> target" "length (take n ds) = n" using tb by (simp_all add: n_def)
  define b where "b = take (p_have p) (p_buf p) @ take n ds @ drop (p_have p + n) (p_buf p)"
  define q where "q = p\<lparr>p_buf := b, p_have := p_have p + n\<rparr>"
  have lb: "length b = RTCM_MAX_FRAME_B" using nb tb bl by (simp add: b_def)
  have pq: "pending q = pending p @ take n ds"
    using nb tb bl by (simp add: pending_def q_def b_def)
  have bi: "\<And>i. i < p_have p \<Longrightarrow> b ! i = p_buf p ! i" using tb bl by (simp add: b_def nth_append)
  have qok: "parser_buf_ok q" using lb nb tb hv b0 bi by (simp add: parser_buf_ok_def q_def)
  have fill: "feed_fill cb now p c ds =
      do { (p, c) \<leftarrow> (if p_have q = target then parser_process cb now q c else Some (q, c));
           Some (p, c, drop n ds) }"
    unfolding feed_fill_def Let_def target_def [symmetric] n
    using nb tb bl by (simp add: b_def [symmetric] q_def del: length_take)
  have pos: "ds \<noteq> [] \<Longrightarrow> 0 < n" using tb by (simp add: n_def)
  show ?thesis
  proof (cases "p_have q = target")
    case True
    have "\<And>r p' c'. parser_after cb now q c r p' c' \<Longrightarrow> parser_after cb now p c r p' c'"
      by (simp add: parser_after_def q_def)
    with True show ?thesis using parser_process_ok [OF qok, of cb now c] fill pq pos
      by (auto intro!: that)
  next
    case False
    then have lt: "p_have q < target" using nb by (simp add: q_def)
    have qk: "parser_ok q"
      using ok lt lb b0 bi hv unfolding parser_ok_def target_def q_def
      by (auto split: if_splits)
    have "rtcm_scan (pending q) = sc_stop (pending q)"
      using parser_ok_waits [OF qk] by (rule rtcm_scan_waiting)
    then have "parser_after cb now p c (rtcm_scan (pending p @ take n ds)) q c"
      by (simp add: pq [symmetric] parser_after_def sc_defs) (simp add: q_def)
    then show ?thesis using False fill qk pos by (auto intro!: that)
  qed
qed

text \<open>The parser, on a good state, returns and computes the scanner over held bytes and input.\<close>

lemma rtcm_parser_feed_scan:
  "parser_ok p \<Longrightarrow> \<exists>p' c'. rtcm_parser_feed cb now p c ds = Some (p', c') \<and> parser_ok p' \<and>
     parser_after cb now p c (rtcm_scan (pending p @ ds)) p' c'"
proof (induction "length ds" arbitrary: p c ds rule: less_induct)
  case less
  show ?case
  proof (cases "ds = []")
    case True
    then show ?thesis using less.prems rtcm_scan_waiting [OF parser_ok_waits [OF less.prems]]
      by (subst rtcm_parser_feed.simps) (simp add: parser_after_refl)
  next
    case False
    obtain p1 ds1 r where h: "feed_hunt p ds = Some (p1, ds1)" "parser_ok p1" "parser_after cb now p c r p1 c"
        "rtcm_scan (pending p @ ds) = sc_join r (rtcm_scan (pending p1 @ ds1))"
        "p_have p1 = 0 \<longrightarrow> ds1 = []" "length ds1 \<le> length ds" "p_have p = 0 \<longrightarrow> length ds1 < length ds"
      using feed_hunt_ok [OF less.prems False, where cb = cb and now = now and c = c] by blast
    show ?thesis
    proof (cases "p_have p1 = 0")
      case True
      have "rtcm_scan (pending p1 @ ds1) = sc_stop (pending p1)"
        using rtcm_scan_waiting [OF parser_ok_waits [OF h(2)]] h(5) True by simp
      then have "parser_after cb now p c (rtcm_scan (pending p @ ds)) p1 c"
        using parser_after_trans [OF h(3) parser_after_refl] h(4) by simp
      then show ?thesis using False True h by (subst rtcm_parser_feed.simps) auto
    next
      case p1: False
      obtain p2 c2 n where f: "feed_fill cb now p1 c ds1 = Some (p2, c2, drop n ds1)" "parser_ok p2"
          "parser_after cb now p1 c (rtcm_scan (pending p1 @ take n ds1)) p2 c2" "ds1 \<noteq> [] \<Longrightarrow> 0 < n"
        using feed_fill_ok [OF h(2), of cb now c ds1] p1 by auto
      have "length (drop n ds1) < length ds"
        using f(4) h(6,7) False p1 feed_hunt_keeps [OF h(1)] by (cases "ds1 = []") (auto simp: Suc_le_eq)
      from less.hyps [OF this f(2)] obtain p' c' where
        g: "rtcm_parser_feed cb now p2 c2 (drop n ds1) = Some (p', c')" "parser_ok p'"
           "parser_after cb now p2 c2 (rtcm_scan (pending p2 @ drop n ds1)) p' c'" by blast
      have "rtcm_scan (pending p1 @ ds1) =
          sc_join (rtcm_scan (pending p1 @ take n ds1)) (rtcm_scan (pending p2 @ drop n ds1))"
        using rtcm_scan_append [of "pending p1 @ take n ds1" "drop n ds1"] f(3)
        by (simp add: parser_after_def)
      then have "parser_after cb now p c (rtcm_scan (pending p @ ds)) p' c'"
        using parser_after_trans [OF h(3) parser_after_trans [OF f(3) g(3)]] h(4) by simp
      then show ?thesis using False p1 h(1) f(1) g by (subst rtcm_parser_feed.simps) auto
    qed
  qed
qed

section \<open>Properties of the parser\<close>

text \<open>A callback that records every frame with its receive time, and what it records.\<close>

definition recorder :: "(u8 list \<times> u32) list frame_cb" where
  "recorder = Some (\<lambda>log f t. log @ [(f, t)])"

lemma foldl_recorder: "foldl (deliver recorder now) log fs = log @ map (\<lambda>f. (f, now)) fs"
  by (induction fs arbitrary: log) (simp_all add: deliver_def recorder_def)

lemma feed_scanE:
  assumes "parser_ok p"
  obtains p' c' where "rtcm_parser_feed cb now p c ds = Some (p', c')" "parser_ok p'"
    "parser_after cb now p c (rtcm_scan (pending p @ ds)) p' c'"
  using rtcm_parser_feed_scan [OF assms, of cb now c ds] by auto

text \<open>C1: From every state that satisfies the parser's invariant, a call of the feed function
  returns (no loop runs forever and no access leaves the 1029-byte buffer), keeps the invariant,
  and has the effect of the reference scanner on the held bytes followed by the input: the same
  frames delivered in the same order, and the counters advanced accordingly.\<close>

theorem parser_feed_refines_scan:
  assumes "parser_ok p"
  shows "\<exists>p' c'. rtcm_parser_feed cb now p c ds = Some (p', c') \<and> parser_ok p' \<and>
    parser_after cb now p c (rtcm_scan (pending p @ ds)) p' c'"
  using assms by (rule rtcm_parser_feed_scan)

theorem parser_feed_refines_scan_witness:
  "\<exists>p' c'. rtcm_parser_feed recorder 7 rtcm_parser_init [] [0xD3, 0] = Some (p', c') \<and> parser_ok p' \<and>
    parser_after recorder 7 rtcm_parser_init [] (rtcm_scan (pending rtcm_parser_init @ [0xD3, 0])) p' c'"
  using parser_feed_refines_scan [OF parser_init_ok(1)] .

text \<open>C20: Chunk boundaries are arbitrary. Feeding two chunks one after the other leaves the
  same callback effects, the same held bytes and the same counters as feeding them at once.\<close>

theorem parser_feed_chunks:
  assumes "parser_ok p"
  shows "\<exists>p1 c1 p2 c2 p3. rtcm_parser_feed cb now p c xs = Some (p1, c1) \<and>
    rtcm_parser_feed cb now p1 c1 ys = Some (p2, c2) \<and>
    rtcm_parser_feed cb now p c (xs @ ys) = Some (p3, c2) \<and>
    pending p3 = pending p2 \<and> p_frames_ok p3 = p_frames_ok p2 \<and> p_bytes_ok p3 = p_bytes_ok p2 \<and>
    p_bytes_discarded p3 = p_bytes_discarded p2 \<and> p_crc_errors p3 = p_crc_errors p2"
proof -
  obtain p1 c1 where a: "rtcm_parser_feed cb now p c xs = Some (p1, c1)" "parser_ok p1"
    "parser_after cb now p c (rtcm_scan (pending p @ xs)) p1 c1" using assms by (rule feed_scanE)
  obtain p2 c2 where b: "rtcm_parser_feed cb now p1 c1 ys = Some (p2, c2)"
    "parser_after cb now p1 c1 (rtcm_scan (pending p1 @ ys)) p2 c2" using a(2) by (rule feed_scanE)
  obtain p3 c3 where d: "rtcm_parser_feed cb now p c (xs @ ys) = Some (p3, c3)"
    "parser_after cb now p c (rtcm_scan (pending p @ xs @ ys)) p3 c3" using assms by (rule feed_scanE)
  have "pending p1 = sc_rest (rtcm_scan (pending p @ xs))" using a(3) by (simp add: parser_after_def)
  then have "parser_after cb now p c (rtcm_scan (pending p @ xs @ ys)) p2 c2"
    using parser_after_trans [OF a(3) b(2)] rtcm_scan_append [of "pending p @ xs" ys] by simp
  with a b d show ?thesis by (auto simp: parser_after_def)
qed

theorem parser_feed_chunks_witness:
  "\<exists>p1 c1 p2 c2 p3. rtcm_parser_feed recorder 1 rtcm_parser_init [] [0x24, 0xD3] = Some (p1, c1) \<and>
    rtcm_parser_feed recorder 1 p1 c1 [0, 0, 1] = Some (p2, c2) \<and>
    rtcm_parser_feed recorder 1 rtcm_parser_init [] ([0x24, 0xD3] @ [0, 0, 1]) = Some (p3, c2) \<and>
    pending p3 = pending p2 \<and> p_frames_ok p3 = p_frames_ok p2 \<and> p_bytes_ok p3 = p_bytes_ok p2 \<and>
    p_bytes_discarded p3 = p_bytes_discarded p2 \<and> p_crc_errors p3 = p_crc_errors p2"
  using parser_feed_chunks [OF parser_init_ok(1)] .

text \<open>Only whole CRC-valid frames reach the callback, each stamped with the time of the call
  that completed it, and no input byte is lost or counted twice: every byte fed is in an accepted
  frame, counted as discarded, or still held.\<close>

theorem parser_feed_valid_and_conserving:
  assumes "parser_ok p"
  shows "\<exists>p' fs. rtcm_parser_feed recorder now p log ds = Some (p', log @ map (\<lambda>f. (f, now)) fs) \<and>
    (\<forall>f \<in> set fs. valid_frame f) \<and>
    p_bytes_ok p' + p_bytes_discarded p' + of_nat (p_have p') =
      p_bytes_ok p + p_bytes_discarded p + of_nat (p_have p) + of_nat (length ds)"
proof -
  obtain p' c' where a: "rtcm_parser_feed recorder now p log ds = Some (p', c')" "parser_ok p'"
    "parser_after recorder now p log (rtcm_scan (pending p @ ds)) p' c'" using assms by (rule feed_scanE)
  define r where "r = rtcm_scan (pending p @ ds)"
  have len: "length (pending p) = p_have p" "length (pending p') = p_have p'"
    using assms a(2) parser_ok_buf length_pending by blast+
  then have "sum_list (map length (sc_frames r)) + sc_skipped r + p_have p' = p_have p + length ds"
    using rtcm_scan_conserves [of "pending p @ ds"] a(3) by (simp add: parser_after_def r_def)
  then have "(of_nat (sum_list (map length (sc_frames r)) + sc_skipped r + p_have p') :: u64) =
      of_nat (p_have p + length ds)" by simp
  moreover have "\<forall>f \<in> set (sc_frames r). valid_frame f" using rtcm_scan_valid by (auto simp: r_def)
  ultimately show ?thesis using a
    by (intro exI [of _ p'] exI [of _ "sc_frames r"])
      (auto simp: parser_after_def foldl_recorder r_def [symmetric] algebra_simps)
qed

theorem parser_feed_valid_and_conserving_witness:
  "\<exists>p' fs. rtcm_parser_feed recorder 5 rtcm_parser_init [] [1, 2, 0xD3] = Some (p', [] @ map (\<lambda>f. (f, 5)) fs) \<and>
    (\<forall>f \<in> set fs. valid_frame f) \<and>
    p_bytes_ok p' + p_bytes_discarded p' + of_nat (p_have p') =
      p_bytes_ok rtcm_parser_init + p_bytes_discarded rtcm_parser_init + of_nat (p_have rtcm_parser_init)
        + of_nat (length [1 :: u8, 2, 0xD3])"
  using parser_feed_valid_and_conserving [OF parser_init_ok(1)] .

text \<open>C21: Encode and parse. From the initial state, line noise that holds no preamble byte,
  followed by the RTCM frames of any payloads of up to 1023 bytes, delivers exactly those frames
  in order; the noise is discarded, nothing else is, and no CRC error is counted.\<close>

theorem parser_roundtrip:
  assumes "\<forall>b \<in> set noise. b \<noteq> 0xD3" and "\<forall>pl \<in> set pls. length pl < 1024"
  shows "\<exists>p'. rtcm_parser_feed recorder now rtcm_parser_init [] (noise @ concat (map encode_frame pls)) =
      Some (p', map (\<lambda>pl. (encode_frame pl, now)) pls) \<and>
    p_have p' = 0 \<and> p_frames_ok p' = of_nat (length pls) \<and>
    p_bytes_discarded p' = of_nat (length noise) \<and> p_crc_errors p' = 0"
proof -
  let ?ds = "noise @ concat (map encode_frame pls)"
  let ?e = "concat (map encode_frame pls)"
  obtain p' c' where a: "rtcm_parser_feed recorder now rtcm_parser_init [] ?ds = Some (p', c')" "parser_ok p'"
    "parser_after recorder now rtcm_parser_init [] (rtcm_scan (pending rtcm_parser_init @ ?ds)) p' c'"
    using parser_init_ok(1) by (rule feed_scanE)
  have "rtcm_scan ?ds = sc_skip (length noise + length (takeWhile (\<lambda>b. b \<noteq> 0xD3) ?e))
      (rtcm_scan (dropWhile (\<lambda>b. b \<noteq> 0xD3) ?e))"
    using rtcm_scan_takeWhile [of ?ds] assms(1) by (simp add: takeWhile_append dropWhile_append3)
  also have "\<dots> = sc_skip (length noise) (rtcm_scan ?e)"
    using rtcm_scan_takeWhile [of ?e] by (simp add: sc_defs)
  also have "\<dots> = \<lparr>sc_frames = map encode_frame pls, sc_skipped = length noise, sc_crc = 0, sc_rest = []\<rparr>"
    using rtcm_scan_encoded [OF assms(2), of "[]"] rtcm_scan_waiting [of "[]"]
    by (simp add: sc_defs scan_waits_def)
  finally show ?thesis
    using a parser_init_ok length_pending [OF parser_ok_buf [OF a(2)]]
    by (auto simp: parser_after_def foldl_recorder rtcm_parser_init_def)
qed

theorem parser_roundtrip_witness:
  "\<exists>p'. rtcm_parser_feed recorder 9 rtcm_parser_init [] ([0x24, 0x0A] @ concat (map encode_frame [[0x3E, 0xD0], []])) =
      Some (p', map (\<lambda>pl. (encode_frame pl, 9)) [[0x3E, 0xD0], []]) \<and>
    p_have p' = 0 \<and> p_frames_ok p' = of_nat (length [[0x3E, 0xD0 :: u8], []]) \<and>
    p_bytes_discarded p' = of_nat (length [0x24, 0x0A :: u8]) \<and> p_crc_errors p' = 0"
  by (rule parser_roundtrip) simp_all

end
