(* ===== verification/Frame_Ring.thy ===== *)
theory Frame_Ring
  imports Rtcm_Parser
begin

text \<open>
  The frame ring of \<open>src/main/interface/ntrip_tx_core.c\<close> (\<open>ntrip_ring_init\<close>,
  \<open>ntrip_ring_push\<close>, \<open>ring_oldest_seq\<close>): sixteen slots, the oldest overwritten when the
  ring is full. Each operation runs under the ring's lock in the source and is one atomic
  step here, so the lock callbacks carry no state of the model.

  The abstraction is an unbounded log of frames with their receive times: the ring holds the
  last sixteen entries, the running byte total and the next sequence number of that log.
  The locale \<open>frame_sink\<close> is the interface between the parser and whatever receives its
  frames; the ring is its instance.
\<close>

section \<open>The code\<close>

abbreviation RTCM_RING_SLOTS :: nat where
  "RTCM_RING_SLOTS \<equiv> 16"

record ring_slot =
  sl_seq :: u32
  sl_received_ms :: u32
  sl_len :: nat
  sl_cum_bytes :: u64
  sl_data :: "u8 list"

record ntrip_ring =
  r_slot :: "ring_slot list"
  r_next_seq :: u32
  r_cum_bytes :: u64
  r_pushed_frames :: u64

definition zero_slot :: ring_slot where
  "zero_slot = \<lparr>sl_seq = 0, sl_received_ms = 0, sl_len = 0, sl_cum_bytes = 0,
     sl_data = replicate RTCM_MAX_FRAME_B 0\<rparr>"

definition ntrip_ring_init :: ntrip_ring where
  "ntrip_ring_init = \<lparr>r_slot = replicate RTCM_RING_SLOTS zero_slot, r_next_seq = 0,
     r_cum_bytes = 0, r_pushed_frames = 0\<rparr>"

definition slot_index :: "u32 \<Rightarrow> nat" where
  "slot_index seq = unat seq mod RTCM_RING_SLOTS"

definition ntrip_ring_push ::
  "ntrip_ring \<Rightarrow> u8 list \<Rightarrow> nat \<Rightarrow> u32 \<Rightarrow> ntrip_ring option" where
  "ntrip_ring_push r frame len now =
     (if len < 6 \<or> len > RTCM_MAX_FRAME_B then Some r
      else do {
        s \<leftarrow> mem_get (r_slot r) (slot_index (r_next_seq r));
        src \<leftarrow> mem_read frame 0 len;
        d \<leftarrow> mem_write (sl_data s) 0 src;
        let cum = r_cum_bytes r + of_nat len;
        let s' = \<lparr>sl_seq = r_next_seq r, sl_received_ms = now, sl_len = len,
                  sl_cum_bytes = cum, sl_data = d\<rparr>;
        Some (r\<lparr>r_slot := (r_slot r)[slot_index (r_next_seq r) := s'], r_cum_bytes := cum,
                r_next_seq := r_next_seq r + 1, r_pushed_frames := r_pushed_frames r + 1\<rparr>)
      })"

definition ring_oldest_seq :: "ntrip_ring \<Rightarrow> u32" where
  "ring_oldest_seq r =
     (if r_next_seq r > of_nat RTCM_RING_SLOTS then r_next_seq r - of_nat RTCM_RING_SLOTS else 0)"

section \<open>Abstraction: the log of pushed frames\<close>

type_synonym frame_log = "(u8 list \<times> u32) list"

definition log_bytes :: "frame_log \<Rightarrow> nat" where
  "log_bytes L = sum_list (map (\<lambda>(f, t). length f) L)"

lemma log_bytes_simps [simp]:
  "log_bytes [] = 0" "log_bytes ((f, t) # L) = length f + log_bytes L"
  "log_bytes (L @ M) = log_bytes L + log_bytes M"
  by (simp_all add: log_bytes_def)

lemma log_bytes_take_Suc:
  "i < length L \<Longrightarrow> log_bytes (take (Suc i) L) = log_bytes (take i L) + length (fst (L ! i))"
  by (simp add: take_Suc_conv_app_nth log_bytes_def split_beta)

definition frame_len_ok :: "u8 list \<Rightarrow> bool" where
  "frame_len_ok f \<longleftrightarrow> 6 \<le> length f \<and> length f \<le> RTCM_MAX_FRAME_B"

lemma valid_frame_len_ok: "valid_frame f \<Longrightarrow> frame_len_ok f"
  using valid_frame_length by (auto simp: frame_len_ok_def)

text \<open>Slot \<open>s\<close> holds entry \<open>i\<close> of the log.\<close>

definition slot_holds :: "ring_slot \<Rightarrow> frame_log \<Rightarrow> nat \<Rightarrow> bool" where
  "slot_holds s L i \<longleftrightarrow> sl_seq s = of_nat i \<and> sl_received_ms s = snd (L ! i) \<and>
     sl_len s = length (fst (L ! i)) \<and> sl_cum_bytes s = of_nat (log_bytes (take (Suc i) L)) \<and>
     length (sl_data s) = RTCM_MAX_FRAME_B \<and> take (sl_len s) (sl_data s) = fst (L ! i)"

definition resident :: "frame_log \<Rightarrow> nat \<Rightarrow> bool" where
  "resident L i \<longleftrightarrow> i < length L \<and> length L \<le> i + RTCM_RING_SLOTS"

definition ring_holds :: "ntrip_ring \<Rightarrow> frame_log \<Rightarrow> bool" where
  "ring_holds r L \<longleftrightarrow> length (r_slot r) = RTCM_RING_SLOTS \<and>
     (\<forall>s \<in> set (r_slot r). length (sl_data s) = RTCM_MAX_FRAME_B) \<and>
     r_next_seq r = of_nat (length L) \<and> r_cum_bytes r = of_nat (log_bytes L) \<and>
     r_pushed_frames r = of_nat (length L) \<and>
     (\<forall>(f, t) \<in> set L. frame_len_ok f) \<and>
     (\<forall>i. resident L i \<longrightarrow> slot_holds (r_slot r ! (i mod RTCM_RING_SLOTS)) L i)"

lemma slot_index_of_nat [simp]: "slot_index (of_nat i) = i mod RTCM_RING_SLOTS"
proof -
  have "(16 :: nat) dvd 2 ^ 32" by simp
  then show ?thesis
    unfolding slot_index_def unsigned_of_nat take_bit_eq_mod by (simp add: mod_mod_cancel)
qed

lemma slot_index_less [simp]: "slot_index s < 16"
  by (simp add: slot_index_def)

lemma ring_init_holds: "ring_holds ntrip_ring_init []"
  by (simp add: ring_holds_def ntrip_ring_init_def resident_def zero_slot_def)

lemma resident_same_slot:
  assumes "resident (L @ [e]) i" "i \<noteq> length L"
  shows "i < length L" "resident L i" "i mod RTCM_RING_SLOTS \<noteq> length L mod RTCM_RING_SLOTS"
proof -
  from assms show i: "i < length L" "resident L i" by (auto simp: resident_def)
  from assms i have "length L < i + 16" by (simp add: resident_def)
  then have d: "0 < length L - i" "length L - i < 16" using i(1) by auto
  show "i mod 16 \<noteq> length L mod 16"
  proof
    assume "i mod 16 = length L mod 16"
    then have "(length L - i) mod 16 = 0" using i(1) by (metis less_imp_le mod_eq_dvd_iff_nat mod_0_imp_dvd dvd_imp_mod_0)
    then show False using d by simp
  qed
qed

text \<open>Pushing a frame of legal length succeeds and appends it to the log.\<close>

lemma ring_push_holds:
  assumes "ring_holds r L" "frame_len_ok f"
  obtains r' where "ntrip_ring_push r f (length f) now = Some r'" "ring_holds r' (L @ [(f, now)])"
proof -
  let ?i = "length L mod RTCM_RING_SLOTS"
  define s where "s = r_slot r ! ?i"
  have len: "length (r_slot r) = 16" using assms(1) by (simp add: ring_holds_def)
  have "s \<in> set (r_slot r)" unfolding s_def by (rule nth_mem) (simp add: len)
  then have ls: "length (sl_data s) = RTCM_MAX_FRAME_B" using assms(1) by (auto simp: ring_holds_def)
  define d where "d = f @ drop (length f) (sl_data s)"
  define cum where "cum = r_cum_bytes r + of_nat (length f)"
  define s' where "s' = \<lparr>sl_seq = of_nat (length L), sl_received_ms = now, sl_len = length f,
      sl_cum_bytes = cum, sl_data = d\<rparr>"
  define r' where "r' = r\<lparr>r_slot := (r_slot r)[?i := s'], r_cum_bytes := cum,
      r_next_seq := r_next_seq r + 1, r_pushed_frames := r_pushed_frames r + 1\<rparr>"
  have fl: "6 \<le> length f" "length f \<le> RTCM_MAX_FRAME_B" using assms(2) by (simp_all add: frame_len_ok_def)
  have nx: "r_next_seq r = of_nat (length L)" using assms(1) by (simp add: ring_holds_def)
  have "ntrip_ring_push r f (length f) now = Some r'"
    using fl ls len by (simp add: ntrip_ring_push_def nx s_def [symmetric] Let_def d_def s'_def cum_def r'_def)
  moreover have "ring_holds r' (L @ [(f, now)])"
  proof -
    have new: "slot_holds s' (L @ [(f, now)]) (length L)"
      using assms(1) fl ls by (simp add: slot_holds_def s'_def d_def cum_def ring_holds_def)
    have old: "slot_holds (r_slot r ! (i mod 16)) (L @ [(f, now)]) i" if "resident L i" for i
      using assms(1) that by (auto simp: ring_holds_def slot_holds_def nth_append resident_def)
    have "slot_holds (r_slot r' ! (i mod 16)) (L @ [(f, now)]) i" if "resident (L @ [(f, now)]) i" for i
      using new old resident_same_slot [OF that] len
      by (cases "i = length L") (simp_all add: r'_def)
    moreover have "\<forall>s \<in> set (r_slot r'). length (sl_data s) = RTCM_MAX_FRAME_B"
      using assms(1) fl ls by (auto simp: ring_holds_def r'_def s'_def d_def dest!: set_update_subset_insert [THEN subsetD])
    ultimately show ?thesis using assms len
      by (simp add: ring_holds_def r'_def cum_def add.commute)
  qed
  ultimately show ?thesis by (rule that)
qed

lemma ring_slot_at:
  assumes "ring_holds r L" "resident L i"
  shows "\<exists>s. mem_get (r_slot r) (slot_index (of_nat i)) = Some s \<and> slot_holds s L i"
  using assms by (auto simp: ring_holds_def)

lemma ring_oldest:
  assumes "ring_holds r L" "length L < 2 ^ 32"
  shows "ring_oldest_seq r = of_nat (length L - RTCM_RING_SLOTS)"
proof -
  have "r_next_seq r = of_nat (length L)" using assms(1) by (simp add: ring_holds_def)
  moreover have "(16 :: u32) < of_nat (length L) \<longleftrightarrow> 16 < length L"
    using assms(2) by (simp add: word_less_nat_alt unsigned_of_nat take_bit_nat_eq_self)
  ultimately show ?thesis by (auto simp: ring_oldest_seq_def of_nat_diff)
qed

section \<open>The interface between the parser and its sink\<close>

text \<open>
  A sink accepts frames one at a time and keeps a log of them: what the parser relies on of
  the callback it is given.
\<close>

locale frame_sink =
  fixes holds :: "'c \<Rightarrow> frame_log \<Rightarrow> bool"
    and accept :: "'c \<Rightarrow> u8 list \<Rightarrow> u32 \<Rightarrow> 'c"
  assumes accept_appends: "holds c L \<Longrightarrow> valid_frame f \<Longrightarrow> holds (accept c f now) (L @ [(f, now)])"
begin

lemma deliver_all:
  "holds c L \<Longrightarrow> \<forall>f \<in> set fs. valid_frame f \<Longrightarrow>
   holds (foldl (deliver (Some accept) now) c fs) (L @ map (\<lambda>f. (f, now)) fs)"
proof (induction fs arbitrary: c L)
  case (Cons f fs)
  then have "holds (accept c f now) (L @ [(f, now)])" using accept_appends by simp
  with Cons.IH [OF this] Cons.prems show ?case by (simp add: deliver_def)
qed simp

lemma feed_into_sink:
  assumes "parser_ok p" "holds c L"
  shows "\<exists>p' c'. rtcm_parser_feed (Some accept) now p c ds = Some (p', c') \<and> parser_ok p' \<and>
    holds c' (L @ map (\<lambda>f. (f, now)) (sc_frames (rtcm_scan (pending p @ ds)))) \<and>
    pending p' = sc_rest (rtcm_scan (pending p @ ds))"
proof -
  obtain p' c' where "rtcm_parser_feed (Some accept) now p c ds = Some (p', c')" "parser_ok p'"
    "parser_after (Some accept) now p c (rtcm_scan (pending p @ ds)) p' c'"
    using assms(1) by (rule feed_scanE)
  then show ?thesis using deliver_all [OF assms(2)] rtcm_scan_valid
    by (auto simp: parser_after_def)
qed

end

text \<open>The ring as a sink: \<open>None\<close> would be an access outside its memory.\<close>

definition ring_accept :: "ntrip_ring option \<Rightarrow> u8 list \<Rightarrow> u32 \<Rightarrow> ntrip_ring option" where
  "ring_accept c f now = do { r \<leftarrow> c; ntrip_ring_push r f (length f) now }"

definition ring_view :: "ntrip_ring option \<Rightarrow> frame_log \<Rightarrow> bool" where
  "ring_view c L \<longleftrightarrow> (\<exists>r. c = Some r \<and> ring_holds r L)"

interpretation ring_sink: frame_sink ring_view ring_accept
proof unfold_locales
  fix c L f now
  assume "ring_view c L" "valid_frame f"
  then obtain r where r: "c = Some r" "ring_holds r L" by (auto simp: ring_view_def)
  obtain r' where "ntrip_ring_push r f (length f) now = Some r'" "ring_holds r' (L @ [(f, now)])"
    using r(2) valid_frame_len_ok [OF \<open>valid_frame f\<close>] by (rule ring_push_holds)
  with r show "ring_view (ring_accept c f now) (L @ [(f, now)])"
    by (simp add: ring_view_def ring_accept_def)
qed

section \<open>Properties of the ring\<close>

text \<open>C22: The ring refines an unbounded log. Pushing a frame of 6 to 1029 bytes stays inside the
  slot array and the slot buffer and appends exactly that frame with its receive time: the byte
  total, the next sequence number and the pushed count follow, and each of the last sixteen
  frames can be read back, with its time and its cumulative byte count, from the slot of its
  sequence number. No bound on the number of frames is needed.\<close>

theorem ring_push_refines_log:
  assumes "ring_holds r L" and "frame_len_ok f"
  shows "\<exists>r'. ntrip_ring_push r f (length f) now = Some r' \<and> ring_holds r' (L @ [(f, now)])"
  using ring_push_holds [OF assms] by metis

theorem ring_push_refines_log_witness:
  "\<exists>r'. ntrip_ring_push ntrip_ring_init (encode_frame [1, 2]) (length (encode_frame [1, 2])) 40 = Some r' \<and>
     ring_holds r' ([] @ [(encode_frame [1, 2], 40)])"
  by (rule ring_push_refines_log [OF ring_init_holds]) (simp add: valid_frame_len_ok encode_frame_valid)

text \<open>From UART bytes to ring: feeding a chunk to the parser with the ring as its sink
  returns, and the ring then holds its old log followed by exactly the CRC-valid frames the
  reference scanner finds in the held bytes and the chunk, in order.\<close>

theorem parser_fills_ring:
  assumes "parser_ok p" and "ring_holds r L"
  shows "\<exists>p' r'. rtcm_parser_feed (Some ring_accept) now p (Some r) ds = Some (p', Some r') \<and> parser_ok p' \<and>
    ring_holds r' (L @ map (\<lambda>f. (f, now)) (sc_frames (rtcm_scan (pending p @ ds)))) \<and>
    pending p' = sc_rest (rtcm_scan (pending p @ ds))"
  using ring_sink.feed_into_sink [OF assms(1), of "Some r" L now ds] assms(2)
  by (auto simp: ring_view_def)

theorem parser_fills_ring_witness:
  "\<exists>p' r'. rtcm_parser_feed (Some ring_accept) 3 rtcm_parser_init (Some ntrip_ring_init) [9, 9] = Some (p', Some r') \<and>
    parser_ok p' \<and>
    ring_holds r' ([] @ map (\<lambda>f. (f, 3)) (sc_frames (rtcm_scan (pending rtcm_parser_init @ [9, 9])))) \<and>
    pending p' = sc_rest (rtcm_scan (pending rtcm_parser_init @ [9, 9]))"
  by (rule parser_fills_ring [OF parser_init_ok(1) ring_init_holds])

end
