(* ===== verification/Tx_Core.thy ===== *)
theory Tx_Core
  imports Frame_Ring "HOL-Library.Sublist"
begin

text \<open>
  The sender of \<open>src/main/interface/ntrip_tx_core.c\<close>: \<open>ntrip_tx_reset_conn\<close>,
  \<open>ntrip_tx_abort\<close>, \<open>ntrip_tx_stalled\<close>, \<open>ntrip_tx_frame_overdue\<close>, \<open>tx_copy_next\<close> and
  \<open>ntrip_tx_poll\<close>. The socket is a parameter: \<open>send\<close> takes the state of the outside world and
  the bytes offered, and returns the C result, the error number and the new state. Its
  documented contract is \<open>stream_socket\<close>.

  The invariant ties the sender to the log of the ring; the step relation \<open>tx_step\<close>
  interleaves pushes of the UART task with polls, resets and aborts of the server task.
\<close>

section \<open>The code\<close>

record ntrip_tx =
  t_cursor_seq :: u32
  t_cum_through :: u64
  t_current :: "u8 list"
  t_current_len :: nat
  t_current_off :: nat
  t_current_received_ms :: u32
  t_last_progress_ms :: u32
  t_copied_bytes :: u64
  t_accepted_to_lwip :: u64
  t_sent_frames :: u64
  t_dropped_bytes :: u64
  t_skipped_bytes :: u64
  t_skipped_frames :: u32
  t_dropped_frames_stale :: u32
  t_dropped_stale_bytes :: u64
  t_eagain_count :: u64
  t_reconnects :: u32
  t_max_queue_age_ms :: u32
  t_last_sock_errno :: int

datatype poll_result = POLL_IDLE | POLL_PROGRESS | POLL_WOULDBLOCK | POLL_ERROR

abbreviation EAGAIN :: int where "EAGAIN \<equiv> 11"
abbreviation EWOULDBLOCK :: int where "EWOULDBLOCK \<equiv> 11"
abbreviation ECONNRESET :: int where "ECONNRESET \<equiv> 104"

definition ntrip_tx_init :: ntrip_tx where
  "ntrip_tx_init = \<lparr>t_cursor_seq = 0, t_cum_through = 0, t_current = replicate RTCM_MAX_FRAME_B 0,
     t_current_len = 0, t_current_off = 0, t_current_received_ms = 0, t_last_progress_ms = 0,
     t_copied_bytes = 0, t_accepted_to_lwip = 0, t_sent_frames = 0, t_dropped_bytes = 0,
     t_skipped_bytes = 0, t_skipped_frames = 0, t_dropped_frames_stale = 0,
     t_dropped_stale_bytes = 0, t_eagain_count = 0, t_reconnects = 0, t_max_queue_age_ms = 0,
     t_last_sock_errno = 0\<rparr>"

definition ntrip_tx_pending :: "ntrip_tx \<Rightarrow> u32" where
  "ntrip_tx_pending tx = of_nat (to_size (int (t_current_len tx) - int (t_current_off tx)))"

definition ntrip_tx_abort :: "ntrip_tx \<Rightarrow> ntrip_tx" where
  "ntrip_tx_abort tx =
     (let tx = (if t_current_off tx < t_current_len tx
                then tx\<lparr>t_dropped_bytes := t_dropped_bytes tx + of_nat (t_current_len tx - t_current_off tx)\<rparr>
                else tx)
      in tx\<lparr>t_current_len := 0, t_current_off := 0\<rparr>)"

definition ntrip_tx_reset_conn :: "ntrip_tx \<Rightarrow> ntrip_ring \<Rightarrow> u32 \<Rightarrow> ntrip_tx" where
  "ntrip_tx_reset_conn tx ring now =
     (let tx = ntrip_tx_abort tx;
          tx = (if t_cursor_seq tx < r_next_seq ring
                then tx\<lparr>t_skipped_frames := t_skipped_frames tx + (r_next_seq ring - t_cursor_seq tx),
                        t_skipped_bytes := t_skipped_bytes tx + (r_cum_bytes ring - t_cum_through tx)\<rparr>
                else tx)
      in tx\<lparr>t_cursor_seq := r_next_seq ring, t_cum_through := r_cum_bytes ring,
            t_last_progress_ms := now\<rparr>)"

definition ntrip_tx_stalled :: "ntrip_tx \<Rightarrow> u32 \<Rightarrow> u32 \<Rightarrow> bool" where
  "ntrip_tx_stalled tx now timeout =
     (if t_current_off tx \<ge> t_current_len tx then False
      else now - t_last_progress_ms tx > timeout)"

definition ntrip_tx_frame_overdue :: "ntrip_tx \<Rightarrow> u32 \<Rightarrow> u32 \<Rightarrow> bool" where
  "ntrip_tx_frame_overdue tx now deadline =
     (if t_current_off tx \<ge> t_current_len tx then False
      else now - t_current_received_ms tx > deadline)"

text \<open>The jump of a reader that fell off the back of the ring.\<close>

definition tx_catch_up :: "ntrip_tx \<Rightarrow> ntrip_ring \<Rightarrow> ntrip_tx option" where
  "tx_catch_up tx ring =
     (let oldest = ring_oldest_seq ring in
      if t_cursor_seq tx < oldest
      then do {
        s \<leftarrow> mem_get (r_slot ring) (slot_index oldest);
        let before = sl_cum_bytes s - of_nat (sl_len s);
        Some (tx\<lparr>t_skipped_bytes := t_skipped_bytes tx + (before - t_cum_through tx),
                 t_skipped_frames := t_skipped_frames tx + (oldest - t_cursor_seq tx),
                 t_cum_through := before, t_cursor_seq := oldest\<rparr>)
      }
      else Some tx)"

text \<open>The loop that drops stale frames and copies the first eligible one.\<close>

function tx_copy_loop ::
  "ntrip_tx \<Rightarrow> ntrip_ring \<Rightarrow> u32 \<Rightarrow> u32 \<Rightarrow> (bool \<times> ntrip_tx) option" where
  "tx_copy_loop tx ring now stale =
     (if t_cursor_seq tx < r_next_seq ring
      then do {
        s \<leftarrow> mem_get (r_slot ring) (slot_index (t_cursor_seq tx));
        let age = now - sl_received_ms s;
        if stale > 0 \<and> age > stale
        then tx_copy_loop
               (tx\<lparr>t_dropped_frames_stale := t_dropped_frames_stale tx + 1,
                   t_dropped_stale_bytes := t_dropped_stale_bytes tx + of_nat (sl_len s),
                   t_cum_through := sl_cum_bytes s, t_cursor_seq := t_cursor_seq tx + 1\<rparr>)
               ring now stale
        else do {
          src \<leftarrow> mem_read (sl_data s) 0 (sl_len s);
          cur \<leftarrow> mem_write (t_current tx) 0 src;
          Some (True, tx\<lparr>t_current := cur, t_current_len := sl_len s, t_current_off := 0,
            t_current_received_ms := sl_received_ms s, t_last_progress_ms := now,
            t_copied_bytes := t_copied_bytes tx + of_nat (sl_len s),
            t_cum_through := sl_cum_bytes s, t_cursor_seq := t_cursor_seq tx + 1,
            t_max_queue_age_ms :=
              (if age > t_max_queue_age_ms tx then age else t_max_queue_age_ms tx)\<rparr>)
        }
      }
      else Some (False, tx))"
  by pat_completeness auto
termination
  by (relation "measure (\<lambda>(tx, ring, now, stale). unat (r_next_seq ring) - unat (t_cursor_seq tx))")
    (simp_all, unat_arith)

definition tx_copy_next ::
  "ntrip_tx \<Rightarrow> ntrip_ring \<Rightarrow> u32 \<Rightarrow> u32 \<Rightarrow> (bool \<times> ntrip_tx) option" where
  "tx_copy_next tx ring now stale = do {
     tx \<leftarrow> tx_catch_up tx ring;
     tx_copy_loop tx ring now stale
   }"

type_synonym 'w send_fn = "'w \<Rightarrow> u8 list \<Rightarrow> int \<times> int \<times> 'w"

text \<open>
  What a round of the poll loop does with the answer of \<open>send\<close>: \<open>Inl\<close> the poll result when the
  call returns here, \<open>Inr\<close> the sender when the loop goes on.
\<close>

definition tx_after_send :: "ntrip_tx \<Rightarrow> u32 \<Rightarrow> int \<Rightarrow> int \<Rightarrow> poll_result option \<times> ntrip_tx" where
  "tx_after_send tx now n err =
     (if n > 0
      then let off = to_u16 (t_current_off tx + to_u16 (nat n));
               tx = tx\<lparr>t_current_off := off,
                       t_accepted_to_lwip := t_accepted_to_lwip tx + of_int n,
                       t_last_progress_ms := now\<rparr>
           in (None, if t_current_off tx = t_current_len tx
                     then tx\<lparr>t_sent_frames := t_sent_frames tx + 1, t_current_len := 0, t_current_off := 0\<rparr>
                     else tx)
      else if n < 0 \<and> (err = EAGAIN \<or> err = EWOULDBLOCK)
      then (Some POLL_WOULDBLOCK, tx\<lparr>t_eagain_count := t_eagain_count tx + 1\<rparr>)
      else (Some POLL_ERROR,
            ntrip_tx_abort (tx\<lparr>t_last_sock_errno := (if n < 0 then err else ECONNRESET)\<rparr>)))"

primrec tx_poll_rounds ::
  "nat \<Rightarrow> poll_result \<Rightarrow> ntrip_tx \<Rightarrow> ntrip_ring \<Rightarrow> u32 \<Rightarrow> u32 \<Rightarrow> 'w send_fn \<Rightarrow> 'w
     \<Rightarrow> (poll_result \<times> ntrip_tx \<times> 'w) option" where
  "tx_poll_rounds 0 result tx ring now stale send w = Some (result, tx, w)"
| "tx_poll_rounds (Suc k) result tx ring now stale send w = do {
     (ready, tx) \<leftarrow> (if t_current_off tx \<ge> t_current_len tx
                   then tx_copy_next tx ring now stale else Some (True, tx));
     if \<not> ready then Some (result, tx, w)
     else do {
       buf \<leftarrow> mem_read (t_current tx) (t_current_off tx)
               (to_size (int (t_current_len tx) - int (t_current_off tx)));
       let (n, err, w) = send w buf;
       case tx_after_send tx now n err of
         (Some r, tx) \<Rightarrow> Some (r, tx, w)
       | (None, tx) \<Rightarrow> tx_poll_rounds k POLL_PROGRESS tx ring now stale send w
     }
   }"

definition ntrip_tx_poll ::
  "ntrip_tx \<Rightarrow> ntrip_ring \<Rightarrow> u32 \<Rightarrow> int \<Rightarrow> u32 \<Rightarrow> 'w send_fn \<Rightarrow> 'w
     \<Rightarrow> (poll_result \<times> ntrip_tx \<times> 'w) option" where
  "ntrip_tx_poll tx ring now max_sends stale send w =
     tx_poll_rounds (nat max_sends) POLL_IDLE tx ring now stale send w"

declare tx_copy_loop.simps [simp del]

section \<open>Copying from the ring, over the log\<close>

definition is_stale :: "u32 \<Rightarrow> u32 \<Rightarrow> u8 list \<times> u32 \<Rightarrow> bool" where
  "is_stale now stale e \<longleftrightarrow> stale > 0 \<and> now - snd e > stale"

text \<open>The sender agrees with the log: its cursor is entry \<open>k\<close>, and it has consumed what is before it.\<close>

definition tx_at :: "ntrip_tx \<Rightarrow> frame_log \<Rightarrow> nat \<Rightarrow> bool" where
  "tx_at tx L k \<longleftrightarrow> k \<le> length L \<and> t_cursor_seq tx = of_nat k \<and>
     t_cum_through tx = of_nat (log_bytes (take k L)) \<and> length (t_current tx) = RTCM_MAX_FRAME_B"

text \<open>Entries \<open>k\<close> up to \<open>j\<close> were given up: as lost to the ring, or as stale.\<close>

definition tx_skip :: "ntrip_tx \<Rightarrow> frame_log \<Rightarrow> nat \<Rightarrow> nat \<Rightarrow> ntrip_tx" where
  "tx_skip tx L k j = tx\<lparr>t_skipped_bytes := t_skipped_bytes tx + of_nat (log_bytes (drop k (take j L))),
     t_skipped_frames := t_skipped_frames tx + of_nat (j - k),
     t_cum_through := of_nat (log_bytes (take j L)), t_cursor_seq := of_nat j\<rparr>"

definition tx_drop_stale :: "ntrip_tx \<Rightarrow> frame_log \<Rightarrow> nat \<Rightarrow> nat \<Rightarrow> ntrip_tx" where
  "tx_drop_stale tx L k j = tx\<lparr>t_dropped_frames_stale := t_dropped_frames_stale tx + of_nat (j - k),
     t_dropped_stale_bytes := t_dropped_stale_bytes tx + of_nat (log_bytes (drop k (take j L))),
     t_cum_through := of_nat (log_bytes (take j L)), t_cursor_seq := of_nat j\<rparr>"

text \<open>Entry \<open>j\<close> becomes the current frame.\<close>

definition tx_load :: "ntrip_tx \<Rightarrow> frame_log \<Rightarrow> u32 \<Rightarrow> nat \<Rightarrow> ntrip_tx" where
  "tx_load tx L now j = (let f = fst (L ! j); t = snd (L ! j) in
     tx\<lparr>t_current := f @ drop (length f) (t_current tx), t_current_len := length f, t_current_off := 0,
        t_current_received_ms := t, t_last_progress_ms := now,
        t_copied_bytes := t_copied_bytes tx + of_nat (length f),
        t_cum_through := of_nat (log_bytes (take (Suc j) L)), t_cursor_seq := of_nat (Suc j),
        t_max_queue_age_ms := (if now - t > t_max_queue_age_ms tx then now - t else t_max_queue_age_ms tx)\<rparr>)"

definition first_fresh :: "u32 \<Rightarrow> u32 \<Rightarrow> frame_log \<Rightarrow> nat \<Rightarrow> nat" where
  "first_fresh now stale L k = k + length (takeWhile (is_stale now stale) (drop k L))"

lemma first_fresh_step:
  "k < length L \<Longrightarrow> first_fresh now stale L k =
     (if is_stale now stale (L ! k) then first_fresh now stale L (Suc k) else k)"
  by (simp add: first_fresh_def Cons_nth_drop_Suc [symmetric])

lemma first_fresh_end: "first_fresh now stale L (length L) = length L"
  by (simp add: first_fresh_def)

lemma first_fresh_bounds: "k \<le> length L \<Longrightarrow> k \<le> first_fresh now stale L k"
  "k \<le> length L \<Longrightarrow> first_fresh now stale L k \<le> length L"
  using length_takeWhile_le [of "is_stale now stale" "drop k L"] by (simp_all add: first_fresh_def)

lemma first_fresh_not_stale:
  assumes "k \<le> length L" "first_fresh now stale L k < length L"
  shows "\<not> is_stale now stale (L ! first_fresh now stale L k)"
  using assms nth_length_takeWhile [of "is_stale now stale" "drop k L"]
  by (simp add: first_fresh_def add.commute less_diff_conv2)

lemma log_bytes_drop_take:
  assumes "k \<le> j"
  shows "log_bytes (take j L) = log_bytes (take k L) + log_bytes (drop k (take j L))"
proof -
  have "take j L = take k L @ drop k (take j L)"
    using assms append_take_drop_id [of k "take j L"] by (simp add: min_absorb1)
  then show ?thesis using log_bytes_simps(3) by metis
qed

lemma log_bytes_drop_Suc:
  assumes "k < j" "j \<le> length L"
  shows "log_bytes (drop k (take j L)) = length (fst (L ! k)) + log_bytes (drop (Suc k) (take j L))"
proof -
  have "drop k (take j L) = L ! k # drop (Suc k) (take j L)"
    using assms Cons_nth_drop_Suc [of k "take j L"] by simp
  then show ?thesis by (simp add: log_bytes_def split_beta)
qed

lemma tx_copy_loop_spec:
  assumes "ring_holds r L" "length L < 2 ^ 32" "tx_at tx L k" "length L \<le> k + RTCM_RING_SLOTS"
  shows "tx_copy_loop tx r now stale =
    (let j = first_fresh now stale L k; tx' = tx_drop_stale tx L k j
     in Some (j < length L, if j < length L then tx_load tx' L now j else tx'))"
  using assms(3,4)
proof (induction "length L - k" arbitrary: tx k)
  case 0
  then have k: "k = length L" by (simp add: tx_at_def)
  then have "\<not> t_cursor_seq tx < r_next_seq r" using 0 assms(1) by (simp add: tx_at_def ring_holds_def)
  then show ?case using 0 k
    by (simp add: tx_copy_loop.simps [of tx] first_fresh_end tx_drop_stale_def tx_at_def)
next
  case (Suc n)
  then have k: "k < length L" and cur: "t_cursor_seq tx = of_nat k" by (auto simp: tx_at_def)
  then have lt: "t_cursor_seq tx < r_next_seq r" using assms(1,2) by (simp add: ring_holds_def)
  have res: "resident L k" using k Suc.prems by (simp add: resident_def)
  then obtain s where s: "mem_get (r_slot r) (slot_index (of_nat k)) = Some s" "slot_holds s L k"
    using ring_slot_at assms(1) by blast
  have fl: "frame_len_ok (fst (L ! k))"
    using assms(1) nth_mem [OF k] by (auto simp: ring_holds_def split_beta)
  have sf: "sl_received_ms s = snd (L ! k)" "sl_len s = length (fst (L ! k))"
    "sl_cum_bytes s = of_nat (log_bytes (take (Suc k) L))" "length (sl_data s) = RTCM_MAX_FRAME_B"
    "take (length (fst (L ! k))) (sl_data s) = fst (L ! k)"
    using s(2) by (auto simp: slot_holds_def)
  show ?case
  proof (cases "is_stale now stale (L ! k)")
    case True
    define tx1 where "tx1 = tx\<lparr>t_dropped_frames_stale := t_dropped_frames_stale tx + 1,
        t_dropped_stale_bytes := t_dropped_stale_bytes tx + of_nat (sl_len s),
        t_cum_through := sl_cum_bytes s, t_cursor_seq := t_cursor_seq tx + 1\<rparr>"
    have at1: "tx_at tx1 L (Suc k)" using k Suc.prems by (simp add: tx_at_def tx1_def sf add.commute)
    have "tx_copy_loop tx r now stale = tx_copy_loop tx1 r now stale"
      using True lt s(1) by (simp add: tx_copy_loop.simps [of tx] cur is_stale_def sf Let_def tx1_def)
    also have "\<dots> = (let j = first_fresh now stale L (Suc k); tx' = tx_drop_stale tx1 L (Suc k) j
       in Some (j < length L, if j < length L then tx_load tx' L now j else tx'))"
      using Suc at1 by (intro Suc.hyps) auto
    finally have eq: "tx_copy_loop tx r now stale = \<dots>" .
    have "tx_drop_stale tx1 L (Suc k) (first_fresh now stale L (Suc k)) =
        tx_drop_stale tx L k (first_fresh now stale L (Suc k))"
      using k first_fresh_bounds [of "Suc k" L now stale]
      by (simp add: tx_drop_stale_def tx1_def sf log_bytes_drop_Suc Suc_diff_Suc [symmetric] add_ac)
    then show ?thesis using True k eq by (simp add: first_fresh_step Let_def)
  next
    case False
    then have ff: "first_fresh now stale L k = k" by (simp add: first_fresh_step [OF k])
    have ns: "\<not> (stale > 0 \<and> now - sl_received_ms s > stale)" using False by (simp add: is_stale_def sf)
    have "tx_drop_stale tx L k k = tx" using Suc.prems by (simp add: tx_drop_stale_def tx_at_def)
    moreover have "tx_copy_loop tx r now stale = Some (True, tx_load tx L now k)"
    proof -
      have "mem_get (r_slot r) (k mod RTCM_RING_SLOTS) = Some s" "of_nat k < r_next_seq r"
        using s(1) lt by (simp_all add: cur)
      moreover have "\<not> (stale > 0 \<and> now - snd (L ! k) > stale)" using ns by (simp add: sf)
      moreover have "length (t_current tx) = RTCM_MAX_FRAME_B" using Suc.prems(1) by (simp add: tx_at_def)
      ultimately show ?thesis using fl
        by (subst tx_copy_loop.simps) (auto simp: cur sf Let_def frame_len_ok_def tx_load_def add.commute)
    qed
    ultimately show ?thesis using k by (simp add: ff Let_def)
  qed
qed

lemma tx_catch_up_spec:
  assumes "ring_holds r L" "length L < 2 ^ 32" "tx_at tx L k"
  shows "tx_catch_up tx r = Some (tx_skip tx L k (max k (length L - RTCM_RING_SLOTS)))"
proof -
  define m where "m = length L - RTCM_RING_SLOTS"
  have old: "ring_oldest_seq r = of_nat m" using ring_oldest [OF assms(1,2)] by (simp add: m_def)
  have k: "k \<le> length L" "t_cursor_seq tx = of_nat k" using assms(3) by (simp_all add: tx_at_def)
  have cmp: "t_cursor_seq tx < of_nat m \<longleftrightarrow> k < m" using k assms(2) by (simp add: m_def)
  show ?thesis
  proof (cases "k < m")
    case False
    then show ?thesis using assms(3) cmp
      by (simp add: tx_catch_up_def old tx_skip_def tx_at_def m_def [symmetric] max_def)
  next
    case True
    then have m: "m < length L" "resident L m" by (auto simp: resident_def m_def)
    obtain s where s: "mem_get (r_slot r) (slot_index (of_nat m)) = Some s" "slot_holds s L m"
      using ring_slot_at [OF assms(1) m(2)] by blast
    have "sl_cum_bytes s - of_nat (sl_len s) = of_nat (log_bytes (take m L))"
      using s(2) m(1) by (simp add: slot_holds_def log_bytes_take_Suc)
    moreover have "(of_nat (log_bytes (take m L)) :: u64) - t_cum_through tx =
        of_nat (log_bytes (drop k (take m L)))"
      using assms(3) True by (simp add: tx_at_def log_bytes_drop_take [of k m L])
    moreover have "(of_nat m :: u32) - of_nat k = of_nat (m - k)" using True by (simp add: of_nat_diff)
    ultimately show ?thesis using True s(1) cmp k(2)
      by (simp add: tx_catch_up_def old Let_def tx_skip_def m_def [symmetric] max_def)
  qed
qed

text \<open>The entries given up and the one copied, as positions of the log.\<close>

definition lost_to :: "frame_log \<Rightarrow> nat \<Rightarrow> nat" where
  "lost_to L k = max k (length L - RTCM_RING_SLOTS)"

lemma lost_to_bounds: "k \<le> length L \<Longrightarrow> k \<le> lost_to L k" "k \<le> length L \<Longrightarrow> lost_to L k \<le> length L"
  by (simp_all add: lost_to_def)

lemma tx_copy_next_spec:
  assumes "ring_holds r L" "length L < 2 ^ 32" "tx_at tx L k"
  shows "tx_copy_next tx r now stale =
    (let m = lost_to L k; j = first_fresh now stale L m; tx' = tx_drop_stale (tx_skip tx L k m) L m j
     in Some (j < length L, if j < length L then tx_load tx' L now j else tx'))"
proof -
  have "tx_at (tx_skip tx L k (lost_to L k)) L (lost_to L k)"
    using assms(3) lost_to_bounds by (auto simp: tx_at_def tx_skip_def)
  moreover have "length L \<le> lost_to L k + RTCM_RING_SLOTS" by (auto simp: lost_to_def)
  ultimately show ?thesis
    using tx_catch_up_spec [OF assms] tx_copy_loop_spec [OF assms(1,2)]
    by (simp add: tx_copy_next_def lost_to_def Let_def)
qed

section \<open>The sender's invariant\<close>

text \<open>
  The two balances the counters promise: every byte the ring ever took up to the cursor was
  copied, skipped or dropped as stale; every byte copied was accepted, dropped or is pending.
\<close>

definition tx_balanced :: "ntrip_tx \<Rightarrow> bool" where
  "tx_balanced tx \<longleftrightarrow>
     t_cum_through tx = t_copied_bytes tx + t_skipped_bytes tx + t_dropped_stale_bytes tx \<and>
     t_copied_bytes tx = t_accepted_to_lwip tx + t_dropped_bytes tx + of_nat (t_current_len tx - t_current_off tx)"

definition sender_ok :: "frame_log \<Rightarrow> ntrip_tx \<Rightarrow> nat \<Rightarrow> bool" where
  "sender_ok L tx k \<longleftrightarrow> tx_at tx L k \<and> tx_balanced tx \<and>
     t_current_off tx \<le> t_current_len tx \<and> t_current_len tx \<le> RTCM_MAX_FRAME_B"

text \<open>
  What a connection has put on the wire since it started at log position \<open>start\<close>: a sequence of
  whole frames of the log in log order, then the first bytes of the current frame.
\<close>

definition tx_current :: "ntrip_tx \<Rightarrow> frame_log" where
  "tx_current tx = (if t_current_off tx < t_current_len tx
     then [(take (t_current_len tx) (t_current tx), t_current_received_ms tx)] else [])"

definition tx_partial :: "ntrip_tx \<Rightarrow> u8 list" where
  "tx_partial tx = (if t_current_off tx < t_current_len tx then take (t_current_off tx) (t_current tx) else [])"

definition on_wire :: "frame_log \<Rightarrow> nat \<Rightarrow> nat \<Rightarrow> ntrip_tx \<Rightarrow> u8 list \<Rightarrow> bool" where
  "on_wire L start k tx bytes \<longleftrightarrow> start \<le> k \<and>
     (\<exists>fs. subseq (fs @ tx_current tx) (drop start (take k L)) \<and> bytes = concat (map fst fs) @ tx_partial tx)"

lemma tx_at_k: "tx_at tx L k \<Longrightarrow> length L < 2 ^ 32 \<Longrightarrow> k = unat (t_cursor_seq tx)"
  by (simp add: tx_at_def)

lemma subseq_drop_take_mono:
  assumes "subseq fs (drop s (take k L))" "k \<le> j"
  shows "subseq fs (drop s (take j L))"
proof -
  have "take j L = take k L @ take (j - k) (drop k L)" using assms(2) by (metis le_add_diff_inverse take_add)
  then have "drop s (take j L) = drop s (take k L) @ drop (s - length (take k L)) (take (j - k) (drop k L))"
    by simp
  then show ?thesis using list_emb_append_mono [OF assms(1) list_emb_Nil] by simp
qed

lemma tx_skip_ok:
  assumes "sender_ok L tx k" "k \<le> j" "j \<le> length L"
  shows "sender_ok L (tx_skip tx L k j) j" "sender_ok L (tx_drop_stale tx L k j) j"
  using assms log_bytes_drop_take [OF assms(2), of L]
  by (auto simp: sender_ok_def tx_at_def tx_balanced_def tx_skip_def tx_drop_stale_def algebra_simps)

lemma tx_load_ok:
  assumes ok: "sender_ok L tx j" and idle: "t_current_len tx \<le> t_current_off tx"
    and j: "j < length L" and fl: "frame_len_ok (fst (L ! j))"
  shows "sender_ok L (tx_load tx L now j) (Suc j)"
    and "tx_current (tx_load tx L now j) = [L ! j]" "tx_partial (tx_load tx L now j) = []"
    and "t_current_off (tx_load tx L now j) < t_current_len (tx_load tx L now j)"
  using assms log_bytes_take_Suc [OF j]
  by (auto simp: sender_ok_def tx_at_def tx_balanced_def tx_load_def Let_def frame_len_ok_def
      tx_current_def tx_partial_def algebra_simps)

lemma idle_wire: "t_current_len tx \<le> t_current_off tx \<Longrightarrow> tx_current tx = [] \<and> tx_partial tx = []"
  by (simp add: tx_current_def tx_partial_def)

text \<open>Copying the next frame keeps the invariant and what the wire means.\<close>

lemma tx_copy_next_ok:
  assumes r: "ring_holds r L" "length L < 2 ^ 32" and ok: "sender_ok L tx k"
    and idle: "t_current_len tx \<le> t_current_off tx"
  obtains b tx' k' where "tx_copy_next tx r now stale = Some (b, tx')" "sender_ok L tx' k'" "k \<le> k'"
    "b \<longleftrightarrow> t_current_off tx' < t_current_len tx'"
    "b \<longrightarrow> \<not> is_stale now stale (hd (tx_current tx'))"
    "\<forall>start bytes. on_wire L start k tx bytes \<longrightarrow> on_wire L start k' tx' bytes"
proof -
  define m where "m = lost_to L k"
  define j where "j = first_fresh now stale L m"
  define tx2 where "tx2 = tx_drop_stale (tx_skip tx L k m) L m j"
  have kL: "k \<le> length L" using ok by (simp add: sender_ok_def tx_at_def)
  have b: "k \<le> m" "m \<le> length L" using lost_to_bounds [OF kL] by (simp_all add: m_def)
  have jb: "m \<le> j" "j \<le> length L" using first_fresh_bounds [OF b(2)] by (simp_all add: j_def)
  have ok2: "sender_ok L tx2 j" unfolding tx2_def using tx_skip_ok ok b jb by blast
  have same: "t_current_len tx2 \<le> t_current_off tx2"
    using idle by (simp_all add: tx2_def tx_drop_stale_def tx_skip_def)
  have eq: "tx_copy_next tx r now stale = Some (j < length L, if j < length L then tx_load tx2 L now j else tx2)"
    using tx_copy_next_spec [OF r, of tx k now stale] ok by (simp add: sender_ok_def Let_def m_def j_def tx2_def)
  show ?thesis
  proof (cases "j < length L")
    case True
    have fl: "frame_len_ok (fst (L ! j))"
      using r(1) nth_mem [OF True] by (auto simp: ring_holds_def split_beta)
    note load = tx_load_ok [OF ok2 same True fl, of now]
    have wire: "on_wire L start (Suc j) (tx_load tx2 L now j) bytes" if w: "on_wire L start k tx bytes" for start bytes
    proof -
      from w idle obtain fs where fs: "subseq fs (drop start (take k L))" "bytes = concat (map fst fs)" "start \<le> k"
        by (auto simp: on_wire_def idle_wire)
      then have "subseq fs (drop start (take j L))" using subseq_drop_take_mono b jb by (meson order_trans)
      moreover have "drop start (take (Suc j) L) = drop start (take j L) @ [L ! j]"
        using fs b jb True by (simp add: take_Suc_conv_app_nth)
      ultimately show ?thesis using fs b jb by (auto simp: on_wire_def load(2,3) intro!: exI [of _ fs] list_emb_append_mono)
    qed
    show ?thesis
      by (rule that [of True "tx_load tx2 L now j" "Suc j"])
        (use True eq load wire b jb first_fresh_not_stale [OF b(2), of now stale] in \<open>auto simp: j_def\<close>)
  next
    case False
    have wire: "on_wire L start j tx2 bytes" if w: "on_wire L start k tx bytes" for start bytes
      using w idle same b jb by (auto simp: on_wire_def idle_wire intro: subseq_drop_take_mono)
    show ?thesis
      by (rule that [of False tx2 j]) (use False eq ok2 same wire b jb in auto)
  qed
qed

section \<open>The poll\<close>

text \<open>
  What the sender relies on of \<open>send\<close> on a stream socket: it accepts at most what it is offered,
  and the accepted bytes are the first ones, appended to what the peer will receive.
\<close>

definition stream_socket :: "'w send_fn \<Rightarrow> ('w \<Rightarrow> u8 list) \<Rightarrow> bool" where
  "stream_socket send wire \<longleftrightarrow> (\<forall>w buf. case send w buf of (n, err, w') \<Rightarrow>
     n \<le> int (length buf) \<and> wire w' = wire w @ take (nat n) buf)"

lemma abort_ok:
  assumes "sender_ok L tx k" shows "sender_ok L (ntrip_tx_abort tx) k"
  using assms by (auto simp: sender_ok_def tx_at_def tx_balanced_def ntrip_tx_abort_def Let_def algebra_simps)

lemma errno_ok: "sender_ok L tx k \<Longrightarrow> sender_ok L (tx\<lparr>t_last_sock_errno := e\<rparr>) k"
  "sender_ok L tx k \<Longrightarrow> sender_ok L (tx\<lparr>t_eagain_count := n\<rparr>) k"
  "sender_ok L tx k \<Longrightarrow> sender_ok L (tx\<lparr>t_reconnects := m\<rparr>) k"
  unfolding sender_ok_def tx_at_def tx_balanced_def by auto

text \<open>A send that accepts \<open>n\<close> bytes moves them from the current frame to the wire.\<close>

lemma accept_ok:
  assumes ok: "sender_ok L tx k" and pend: "t_current_off tx < t_current_len tx"
    and n: "0 < n" "n \<le> int (t_current_len tx - t_current_off tx)"
  obtains tx' where "tx_after_send tx now n err = (None, tx')" "sender_ok L tx' k"
    "\<forall>start bytes. on_wire L start k tx bytes \<longrightarrow>
       on_wire L start k tx' (bytes @ take (nat n) (drop (t_current_off tx) (t_current tx)))"
proof -
  define a where "a = nat n"
  have a: "0 < a" "a \<le> t_current_len tx - t_current_off tx" "n = int a" using n by (simp_all add: a_def)
  have len: "t_current_len tx \<le> 1029" "length (t_current tx) = 1029"
    using ok by (simp_all add: sender_ok_def tx_at_def)
  then have off: "to_u16 (t_current_off tx + to_u16 a) = t_current_off tx + a" using a pend by simp
  define tx1 where "tx1 = tx\<lparr>t_current_off := t_current_off tx + a,
      t_accepted_to_lwip := t_accepted_to_lwip tx + of_nat a, t_last_progress_ms := now\<rparr>"
  have ok1: "sender_ok L tx1 k" using ok a pend
    by (auto simp: sender_ok_def tx_at_def tx_balanced_def tx1_def of_nat_diff algebra_simps)
  have part: "take (t_current_off tx) (t_current tx) @ take a (drop (t_current_off tx) (t_current tx)) =
      take (t_current_off tx + a) (t_current tx)" by (simp add: take_add)
  show ?thesis
  proof (cases "t_current_off tx + a = t_current_len tx")
    case False
    then have "tx_after_send tx now n err = (None, tx1)"
      using a off by (simp add: tx_after_send_def Let_def tx1_def)
    moreover have "on_wire L start k tx1 (bytes @ take (nat n) (drop (t_current_off tx) (t_current tx)))"
      if "on_wire L start k tx bytes" for start bytes
      using that False a pend part by (auto simp: on_wire_def tx_current_def tx_partial_def tx1_def)
    ultimately show ?thesis using ok1 by (intro that) auto
  next
    case True
    define tx2 where "tx2 = tx1\<lparr>t_sent_frames := t_sent_frames tx1 + 1, t_current_len := 0, t_current_off := 0\<rparr>"
    have "tx_after_send tx now n err = (None, tx2)"
      using a off True by (simp add: tx_after_send_def Let_def tx1_def tx2_def)
    moreover have "sender_ok L tx2 k"
      using ok1 True by (auto simp: sender_ok_def tx_at_def tx_balanced_def tx2_def tx1_def)
    moreover have "on_wire L start k tx2 (bytes @ take (nat n) (drop (t_current_off tx) (t_current tx)))"
      if w: "on_wire L start k tx bytes" for start bytes
    proof -
      from w pend obtain fs where fs: "start \<le> k" "subseq (fs @ tx_current tx) (drop start (take k L))"
        "bytes = concat (map fst fs) @ take (t_current_off tx) (t_current tx)"
        by (auto simp: on_wire_def tx_partial_def)
      then show ?thesis using True part pend a
        by (auto simp: on_wire_def tx2_def tx1_def tx_partial_def tx_current_def intro!: exI [of _ "fs @ tx_current tx"])
    qed
    ultimately show ?thesis by (intro that) auto
  qed
qed

text \<open>A send that accepts nothing leaves the frame as it was, or ends the connection.\<close>

lemma reject_ok:
  assumes ok: "sender_ok L tx k" and n: "\<not> 0 < n"
  obtains res tx' where "tx_after_send tx now n err = (Some res, tx')" "sender_ok L tx' k"
    "res \<noteq> POLL_ERROR \<longrightarrow> (\<forall>start bytes. on_wire L start k tx bytes \<longrightarrow> on_wire L start k tx' bytes)"
proof (cases "n < 0 \<and> err = EAGAIN")
  case True
  show ?thesis
    by (rule that [of POLL_WOULDBLOCK "tx\<lparr>t_eagain_count := t_eagain_count tx + 1\<rparr>"])
      (use True ok errno_ok in \<open>auto simp: tx_after_send_def on_wire_def tx_current_def tx_partial_def\<close>)
next
  case False
  show ?thesis
    by (rule that [of POLL_ERROR "ntrip_tx_abort (tx\<lparr>t_last_sock_errno := (if n < 0 then err else ECONNRESET)\<rparr>)"])
      (use False n abort_ok [OF errno_ok(1) [OF ok]] in \<open>auto simp: tx_after_send_def\<close>)
qed

lemma tx_poll_rounds_ok:
  assumes r: "ring_holds r L" "length L < 2 ^ 32" and sock: "stream_socket send wire"
    and ok: "sender_ok L tx k"
  shows "\<exists>res tx' w' k'. tx_poll_rounds n result tx r now stale send w = Some (res, tx', w') \<and>
    sender_ok L tx' k' \<and> k \<le> k' \<and>
    (res = POLL_ERROR \<or> result = POLL_ERROR \<or>
     (\<forall>start. on_wire L start k tx (wire w) \<longrightarrow> on_wire L start k' tx' (wire w')))"
  using ok
proof (induction n arbitrary: result tx w k)
  case 0
  then show ?case by auto
next
  case (Suc n)
  obtain b tx1 k1 where c: "(if t_current_off tx \<ge> t_current_len tx then tx_copy_next tx r now stale else Some (True, tx)) = Some (b, tx1)"
    "sender_ok L tx1 k1" "k \<le> k1" "b \<longleftrightarrow> t_current_off tx1 < t_current_len tx1"
    "\<forall>start bytes. on_wire L start k tx bytes \<longrightarrow> on_wire L start k1 tx1 bytes"
  proof (cases "t_current_off tx \<ge> t_current_len tx")
    case True
    obtain b tx1 k1 where "tx_copy_next tx r now stale = Some (b, tx1)" "sender_ok L tx1 k1" "k \<le> k1"
        "b \<longleftrightarrow> t_current_off tx1 < t_current_len tx1"
        "\<forall>start bytes. on_wire L start k tx bytes \<longrightarrow> on_wire L start k1 tx1 bytes"
      by (rule tx_copy_next_ok [OF r Suc.prems True, of now stale])
    with True show ?thesis by (intro that) simp_all
  next
    case False
    then show ?thesis using Suc.prems by (auto intro!: that [of True tx k])
  qed
  show ?case
  proof (cases b)
    case False
    then show ?thesis using c by auto
  next
    case True
    have off: "t_current_off tx1 < t_current_len tx1" using True c(4) by simp
    have len: "t_current_len tx1 \<le> 1029" "length (t_current tx1) = 1029"
      using c(2) by (simp_all add: sender_ok_def tx_at_def)
    define buf where "buf = take (t_current_len tx1 - t_current_off tx1) (drop (t_current_off tx1) (t_current tx1))"
    have rd: "mem_read (t_current tx1) (t_current_off tx1)
        (to_size (int (t_current_len tx1) - int (t_current_off tx1))) = Some buf"
      using off len by (simp add: buf_def)
    obtain m err w1 where snd: "send w buf = (m, err, w1)" by (metis prod_cases3)
    have so: "m \<le> int (t_current_len tx1 - t_current_off tx1)" "wire w1 = wire w @ take (nat m) buf"
      using sock snd off len by (auto simp: stream_socket_def buf_def dest!: spec [of _ w] spec [of _ buf])
    show ?thesis
    proof (cases "0 < m")
      case True
      obtain tx2 where t2: "tx_after_send tx1 now m err = (None, tx2)" "sender_ok L tx2 k1"
        "\<forall>start bytes. on_wire L start k1 tx1 bytes \<longrightarrow>
          on_wire L start k1 tx2 (bytes @ take (nat m) (drop (t_current_off tx1) (t_current tx1)))"
        by (rule accept_ok [OF c(2) off True so(1), of now err])
      have "take (nat m) buf = take (nat m) (drop (t_current_off tx1) (t_current tx1))"
        using so(1) True by (simp add: buf_def min_absorb1)
      then have w2: "on_wire L start k tx (wire w) \<Longrightarrow> on_wire L start k1 tx2 (wire w1)" for start
        using c(5) t2(3) so(2) by simp
      obtain res tx' w' k' where p: "tx_poll_rounds n POLL_PROGRESS tx2 r now stale send w1 = Some (res, tx', w')"
          "sender_ok L tx' k'" "k1 \<le> k'"
          "res = POLL_ERROR \<or> (\<forall>start. on_wire L start k1 tx2 (wire w1) \<longrightarrow> on_wire L start k' tx' (wire w'))"
        using Suc.IH [OF t2(2), of POLL_PROGRESS w1] by auto
      have "tx_poll_rounds (Suc n) result tx r now stale send w = Some (res, tx', w')"
        using c(1) \<open>b\<close> rd snd t2(1) p(1) by simp
      moreover have "k \<le> k'" using p(3) c(3) by simp
      ultimately show ?thesis using p(2,4) w2 by blast
    next
      case False
      then have "wire w1 = wire w" using so(2) by simp
      moreover obtain res tx2 where t2: "tx_after_send tx1 now m err = (Some res, tx2)" "sender_ok L tx2 k1"
          "res \<noteq> POLL_ERROR \<longrightarrow> (\<forall>start bytes. on_wire L start k1 tx1 bytes \<longrightarrow> on_wire L start k1 tx2 bytes)"
        by (rule reject_ok [OF c(2) False])
      moreover have "tx_poll_rounds (Suc n) result tx r now stale send w = Some (res, tx2, w1)"
        using c(1) \<open>b\<close> rd snd t2(1) by simp
      ultimately show ?thesis using c(3,5) by metis
    qed
  qed
qed

lemma ntrip_tx_poll_ok:
  assumes "ring_holds r L" "length L < 2 ^ 32" "stream_socket send wire" "sender_ok L tx k"
  obtains res tx' w' k' where "ntrip_tx_poll tx r now n stale send w = Some (res, tx', w')"
    "sender_ok L tx' k'" "k \<le> k'"
    "res \<noteq> POLL_ERROR \<longrightarrow> (\<forall>start. on_wire L start k tx (wire w) \<longrightarrow> on_wire L start k' tx' (wire w'))"
  using tx_poll_rounds_ok [OF assms, of "nat n" POLL_IDLE now stale w] unfolding ntrip_tx_poll_def by blast

lemma reset_conn_ok:
  assumes r: "ring_holds r L" "length L < 2 ^ 32" and ok: "sender_ok L tx k"
  shows "sender_ok L (ntrip_tx_reset_conn tx r now) (length L)"
    and "on_wire L (length L) (length L) (ntrip_tx_reset_conn tx r now) []"
proof -
  have k: "k \<le> length L" "t_cursor_seq tx = of_nat k" using ok by (simp_all add: sender_ok_def tx_at_def)
  have rr: "r_next_seq r = of_nat (length L)" "r_cum_bytes r = of_nat (log_bytes L)"
    using r(1) by (simp_all add: ring_holds_def)
  have cur: "t_cursor_seq (ntrip_tx_abort tx) = of_nat k" "t_current_len (ntrip_tx_abort tx) = 0"
    "t_current_off (ntrip_tx_abort tx) = 0" using k by (simp_all add: ntrip_tx_abort_def Let_def)
  have lt: "(of_nat k :: u32) < of_nat (length L) \<longleftrightarrow> k < length L" using k r(2) by simp
  have ab: "tx_balanced (ntrip_tx_abort tx)" "length (t_current (ntrip_tx_abort tx)) = RTCM_MAX_FRAME_B"
    "k = length L \<longrightarrow> t_cum_through (ntrip_tx_abort tx) = of_nat (log_bytes L)"
    using abort_ok [OF ok] by (auto simp: sender_ok_def tx_at_def)
  then have "tx_balanced (ntrip_tx_reset_conn tx r now)"
    using k(1) by (auto simp: tx_balanced_def ntrip_tx_reset_conn_def Let_def cur rr lt algebra_simps)
  then show "sender_ok L (ntrip_tx_reset_conn tx r now) (length L)"
    using ab(2) by (simp add: sender_ok_def tx_at_def ntrip_tx_reset_conn_def Let_def cur rr)
  show "on_wire L (length L) (length L) (ntrip_tx_reset_conn tx r now) []"
    by (auto simp: on_wire_def tx_current_def tx_partial_def ntrip_tx_reset_conn_def Let_def cur intro: exI [of _ "[]"])
qed

lemma log_grows:
  assumes "sender_ok L tx k" shows "sender_ok (L @ es) tx k"
  using assms by (auto simp: sender_ok_def tx_at_def)

lemma wire_log_grows:
  assumes "on_wire L start k tx bytes" "k \<le> length L" shows "on_wire (L @ es) start k tx bytes"
  using assms by (auto simp: on_wire_def)

section \<open>The sender and the UART task, interleaved\<close>

text \<open>
  The log, the log position of the connection and whether it is open are ghosts. A connection
  opens with a reset on a fresh socket and ends with an abort or with a poll that reports an
  error; the server polls only while it is open.
\<close>

record 'w tx_state =
  x_log :: frame_log
  x_ring :: ntrip_ring
  x_tx :: ntrip_tx
  x_world :: 'w
  x_start :: nat
  x_open :: bool

inductive tx_step :: "'w send_fn \<Rightarrow> ('w \<Rightarrow> u8 list) \<Rightarrow> 'w tx_state \<Rightarrow> 'w tx_state \<Rightarrow> bool"
  for send :: "'w send_fn" and wire :: "'w \<Rightarrow> u8 list" where
  push: "frame_len_ok f \<Longrightarrow> ntrip_ring_push (x_ring s) f (length f) now = Some r \<Longrightarrow>
    tx_step send wire s (s\<lparr>x_log := x_log s @ [(f, now)], x_ring := r\<rparr>)"
| connect: "wire w = [] \<Longrightarrow>
    tx_step send wire s (s\<lparr>x_tx := ntrip_tx_reset_conn (x_tx s) (x_ring s) now, x_world := w,
      x_start := length (x_log s), x_open := True\<rparr>)"
| poll: "x_open s \<Longrightarrow> ntrip_tx_poll (x_tx s) (x_ring s) now n stale send (x_world s) = Some (res, tx, w) \<Longrightarrow>
    tx_step send wire s (s\<lparr>x_tx := tx, x_world := w, x_open := (res \<noteq> POLL_ERROR)\<rparr>)"
| disconnect: "tx_step send wire s
    (s\<lparr>x_tx := (ntrip_tx_abort (x_tx s))\<lparr>t_reconnects := m\<rparr>, x_open := False\<rparr>)"

definition tx_start :: "'w tx_state \<Rightarrow> bool" where
  "tx_start s \<longleftrightarrow> x_log s = [] \<and> x_ring s = ntrip_ring_init \<and> x_tx s = ntrip_tx_init \<and> \<not> x_open s"

text \<open>The invariant holds as long as the 32-bit sequence number has not wrapped.\<close>

definition tx_inv :: "('w \<Rightarrow> u8 list) \<Rightarrow> 'w tx_state \<Rightarrow> bool" where
  "tx_inv wire s \<longleftrightarrow> (length (x_log s) < 2 ^ 32 \<longrightarrow>
     ring_holds (x_ring s) (x_log s) \<and>
     (\<exists>k. sender_ok (x_log s) (x_tx s) k \<and>
        (x_open s \<longrightarrow> on_wire (x_log s) (x_start s) k (x_tx s) (wire (x_world s)))))"

lemma tx_init_ok: "sender_ok [] ntrip_tx_init 0"
  by (simp add: sender_ok_def tx_at_def tx_balanced_def ntrip_tx_init_def)

lemma tx_step_inv:
  assumes sock: "stream_socket send wire" and step: "tx_step send wire s t" and inv: "tx_inv wire s"
  shows "tx_inv wire t"
  using step
proof cases
  case (push f now r)
  show ?thesis
  proof (unfold tx_inv_def, intro impI)
    assume "length (x_log t) < 2 ^ 32"
    with inv push obtain k where r: "ring_holds (x_ring s) (x_log s)" and k: "sender_ok (x_log s) (x_tx s) k"
      "x_open s \<longrightarrow> on_wire (x_log s) (x_start s) k (x_tx s) (wire (x_world s))"
      by (auto simp: tx_inv_def)
    have "ring_holds r (x_log s @ [(f, now)])"
      using ring_push_holds [OF r push(2), of now] push(3) by auto
    then show "ring_holds (x_ring t) (x_log t) \<and> (\<exists>k. sender_ok (x_log t) (x_tx t) k \<and>
        (x_open t \<longrightarrow> on_wire (x_log t) (x_start t) k (x_tx t) (wire (x_world t))))"
      using push k(2) log_grows [OF k(1), of "[(f, now)]"] wire_log_grows [of "x_log s" _ k] k(1)
      by (auto intro!: exI [of _ k] simp: sender_ok_def tx_at_def)
  qed
next
  case (connect w now)
  then show ?thesis using inv reset_conn_ok
    by (auto simp: tx_inv_def intro!: exI [of _ "length (x_log s)"])
next
  case (poll now n stale res tx w)
  show ?thesis
  proof (unfold tx_inv_def, intro impI)
    assume L: "length (x_log t) < 2 ^ 32"
    with inv poll obtain k where r: "ring_holds (x_ring s) (x_log s)" "length (x_log s) < 2 ^ 32"
      and k: "sender_ok (x_log s) (x_tx s) k" "on_wire (x_log s) (x_start s) k (x_tx s) (wire (x_world s))"
      by (auto simp: tx_inv_def)
    obtain res' tx' w' k' where p: "ntrip_tx_poll (x_tx s) (x_ring s) now n stale send (x_world s) = Some (res', tx', w')"
        "sender_ok (x_log s) tx' k'"
        "res' \<noteq> POLL_ERROR \<longrightarrow> (\<forall>start. on_wire (x_log s) start k (x_tx s) (wire (x_world s)) \<longrightarrow>
           on_wire (x_log s) start k' tx' (wire w'))"
      by (rule ntrip_tx_poll_ok [OF r sock k(1), of now n stale "x_world s"])
    then have "sender_ok (x_log s) tx k'" "res \<noteq> POLL_ERROR \<longrightarrow> on_wire (x_log s) (x_start s) k' tx (wire w)"
      using poll(3) k(2) by simp_all
    with r poll show "ring_holds (x_ring t) (x_log t) \<and> (\<exists>k. sender_ok (x_log t) (x_tx t) k \<and>
        (x_open t \<longrightarrow> on_wire (x_log t) (x_start t) k (x_tx t) (wire (x_world t))))"
      by auto
  qed
next
  case (disconnect m)
  then show ?thesis using inv abort_ok errno_ok(3) by (fastforce simp: tx_inv_def)
qed

text \<open>
  The machine is an instance of the invariant interface for every socket that keeps its contract:
  the invariant carries the contract as its hypothesis.
\<close>

definition tx_inv_socket :: "'w send_fn \<Rightarrow> ('w \<Rightarrow> u8 list) \<Rightarrow> 'w tx_state \<Rightarrow> bool" where
  "tx_inv_socket send wire s \<longleftrightarrow> (stream_socket send wire \<longrightarrow> tx_inv wire s)"

interpretation tx_machine: machine_invariant tx_start "tx_step send wire" "tx_inv_socket send wire" for send wire
proof unfold_locales
  show "tx_inv_socket send wire s" if "tx_start s" for s
    using that ring_init_holds tx_init_ok by (auto simp: tx_inv_socket_def tx_inv_def tx_start_def)
  show "tx_inv_socket send wire t" if "tx_inv_socket send wire s" "tx_step send wire s t" for s t
    using that tx_step_inv by (auto simp: tx_inv_socket_def)
qed

lemma tx_reach_inv:
  assumes "stream_socket send wire" "reach tx_start (tx_step send wire) s" "length (x_log s) < 2 ^ 32"
  obtains k where "ring_holds (x_ring s) (x_log s)" "sender_ok (x_log s) (x_tx s) k"
    "k = unat (t_cursor_seq (x_tx s))" "k \<le> length (x_log s)"
    "x_open s \<longrightarrow> on_wire (x_log s) (x_start s) k (x_tx s) (wire (x_world s))"
proof -
  have "tx_inv wire s" using tx_machine.reach_inv [OF assms(2)] assms(1) by (simp add: tx_inv_socket_def)
  then obtain k where k: "ring_holds (x_ring s) (x_log s)" "sender_ok (x_log s) (x_tx s) k"
    "x_open s \<longrightarrow> on_wire (x_log s) (x_start s) k (x_tx s) (wire (x_world s))"
    using assms(3) unfolding tx_inv_def by blast
  then have "tx_at (x_tx s) (x_log s) k" by (simp add: sender_ok_def)
  then have "k = unat (t_cursor_seq (x_tx s))" "k \<le> length (x_log s)"
    using tx_at_k assms(3) by (blast, simp add: tx_at_def)
  with k show ?thesis by (intro that)
qed

section \<open>Properties of the sender\<close>

text \<open>C5: No byte is unaccounted for. In every state reachable by any interleaving of pushes,
  polls (with any outcome of the socket), connects and disconnects, before the 32-bit sequence
  number wraps: the ring's byte total is the bytes copied, skipped, dropped as stale and still
  waiting in the log, and the bytes copied are those the stack accepted, those dropped and those
  of the current frame not yet accepted. The identities are of 64-bit counters.\<close>

theorem tx_counters_balance:
  assumes "stream_socket send wire" and "reach tx_start (tx_step send wire) s"
    and "length (x_log s) < 2 ^ 32"
  shows "r_cum_bytes (x_ring s) = t_copied_bytes (x_tx s) + t_skipped_bytes (x_tx s)
      + t_dropped_stale_bytes (x_tx s)
      + of_nat (log_bytes (drop (unat (t_cursor_seq (x_tx s))) (x_log s))) \<and>
    t_copied_bytes (x_tx s) = t_accepted_to_lwip (x_tx s) + t_dropped_bytes (x_tx s)
      + of_nat (t_current_len (x_tx s) - t_current_off (x_tx s))"
proof -
  obtain k where k: "ring_holds (x_ring s) (x_log s)" "sender_ok (x_log s) (x_tx s) k"
    "k = unat (t_cursor_seq (x_tx s))" "k \<le> length (x_log s)"
    using assms by (rule tx_reach_inv)
  have "log_bytes (x_log s) = log_bytes (take k (x_log s)) + log_bytes (drop k (x_log s))"
    using log_bytes_drop_take [OF k(4), of "x_log s"] by simp
  moreover have "r_cum_bytes (x_ring s) = of_nat (log_bytes (x_log s))"
    using k(1) unfolding ring_holds_def by blast
  moreover have "t_cum_through (x_tx s) = of_nat (log_bytes (take k (x_log s)))" "tx_balanced (x_tx s)"
    using k(2) unfolding sender_ok_def tx_at_def by blast+
  ultimately show ?thesis unfolding k(3) [symmetric] tx_balanced_def by (metis of_nat_add)
qed

text \<open>A concrete socket: it accepts at most four bytes a call.\<close>

definition slow_send :: "u8 list send_fn" where
  "slow_send w buf = (int (min 4 (length buf)), 0, w @ take 4 buf)"

lemma slow_socket: "stream_socket slow_send (\<lambda>w. w)"
  by (simp add: stream_socket_def slow_send_def min_def)

definition demo_start :: "u8 list tx_state" where
  "demo_start = \<lparr>x_log = [], x_ring = ntrip_ring_init, x_tx = ntrip_tx_init, x_world = [], x_start = 0, x_open = False\<rparr>"

text \<open>A connection is open, one frame arrived, and one send put its first four bytes on the wire.\<close>

lemma demo_reach:
  "\<exists>s. reach tx_start (tx_step slow_send (\<lambda>w. w)) s \<and> length (x_log s) < 2 ^ 32 \<and> x_open s \<and>
     x_log s = [(encode_frame [1, 2], 5)]"
proof -
  let ?st = "tx_step slow_send (\<lambda>w. w)" and ?f = "encode_frame [1, 2]"
  define s1 where "s1 = demo_start\<lparr>x_tx := ntrip_tx_reset_conn (x_tx demo_start) (x_ring demo_start) 0,
      x_world := [], x_start := length (x_log demo_start), x_open := True\<rparr>"
  have fl: "frame_len_ok ?f" by (simp add: valid_frame_len_ok encode_frame_valid)
  have s1: "reach tx_start ?st s1" unfolding s1_def
    by (rule reach.move [of _ _ demo_start], rule reach.start, simp add: tx_start_def demo_start_def)
      (simp add: tx_step.connect)
  have "x_ring s1 = ntrip_ring_init" "x_log s1 = []" by (simp_all add: s1_def demo_start_def)
  then obtain r where r: "ntrip_ring_push (x_ring s1) ?f (length ?f) 5 = Some r"
    using ring_push_holds [OF ring_init_holds fl, of 5] by auto
  have "reach tx_start ?st (s1\<lparr>x_log := x_log s1 @ [(?f, 5)], x_ring := r\<rparr>)"
    by (rule reach.move [OF s1 tx_step.push [OF fl r]])
  then show ?thesis by (intro exI conjI) (auto simp: s1_def demo_start_def)
qed

theorem tx_counters_balance_witness:
  "\<exists>s. reach tx_start (tx_step slow_send (\<lambda>w. w)) s \<and> x_log s = [(encode_frame [1, 2], 5)] \<and>
     r_cum_bytes (x_ring s) = t_copied_bytes (x_tx s) + t_skipped_bytes (x_tx s)
      + t_dropped_stale_bytes (x_tx s) + of_nat (log_bytes (drop (unat (t_cursor_seq (x_tx s))) (x_log s)))"
  using demo_reach tx_counters_balance [OF slow_socket] by blast

text \<open>C4: The caster never sees a torn frame. While a connection is open, what it has put on the
  wire is a sequence of whole frames, each one pushed to the ring after the connection started and
  in push order, followed by the first bytes of the current frame, which is itself such a frame.
  Short sends, EAGAIN, ring overruns and stale drops at any point do not change this.\<close>

theorem tx_stream_whole_frames:
  assumes "stream_socket send wire" and "reach tx_start (tx_step send wire) s"
    and "length (x_log s) < 2 ^ 32" and "x_open s"
  shows "\<exists>fs. subseq (fs @ tx_current (x_tx s)) (drop (x_start s) (x_log s)) \<and>
    wire (x_world s) = concat (map fst fs) @ tx_partial (x_tx s)"
proof -
  obtain k where "on_wire (x_log s) (x_start s) k (x_tx s) (wire (x_world s))" "k \<le> length (x_log s)"
    using tx_reach_inv [OF assms(1-3)] assms(4) by metis
  then show ?thesis unfolding on_wire_def using subseq_drop_take_mono [of _ _ k "x_log s" "length (x_log s)"]
    by fastforce
qed

theorem tx_stream_whole_frames_witness:
  "\<exists>s fs. reach tx_start (tx_step slow_send (\<lambda>w. w)) s \<and> x_log s = [(encode_frame [1, 2], 5)] \<and> x_open s \<and>
     subseq (fs @ tx_current (x_tx s)) (drop (x_start s) (x_log s)) \<and>
     x_world s = concat (map fst fs) @ tx_partial (x_tx s)"
  using demo_reach tx_stream_whole_frames [OF slow_socket] by blast

text \<open>What the copy step takes from the ring, exactly. With the cursor at entry \<open>k\<close> of the log,
  the entries before the sixteen newest are skipped with their bytes and frames counted, the stale
  entries that follow are dropped and counted, and the first entry that is not stale becomes the
  current frame; when there is none, the cursor is at the end of the log.\<close>

theorem tx_copy_next_exact:
  assumes "ring_holds r L" and "length L < 2 ^ 32" and "tx_at tx L k"
  shows "tx_copy_next tx r now stale =
    (let m = max k (length L - RTCM_RING_SLOTS); j = m + length (takeWhile (is_stale now stale) (drop m L));
         tx' = tx_drop_stale (tx_skip tx L k m) L m j
     in Some (j < length L, if j < length L then tx_load tx' L now j else tx'))"
  using tx_copy_next_spec [OF assms] by (simp only: lost_to_def first_fresh_def)

theorem tx_copy_next_exact_witness:
  "tx_copy_next ntrip_tx_init ntrip_ring_init 0 10000 = Some (False, ntrip_tx_init)"
proof -
  have "tx_at ntrip_tx_init [] 0" using tx_init_ok by (simp add: sender_ok_def)
  from tx_copy_next_exact [OF ring_init_holds _ this, of 0 10000] show ?thesis
    by (simp add: Let_def tx_drop_stale_def tx_skip_def) (simp add: ntrip_tx_init_def)
qed

lemma poll_progress_not_idle:
  "tx_poll_rounds n POLL_PROGRESS tx r now stale send w = Some (res, tx', w') \<Longrightarrow> res \<noteq> POLL_IDLE"
proof (induction n arbitrary: tx w)
  case (Suc n)
  then show ?case
    by (auto simp: tx_after_send_def Let_def split: if_splits prod.splits option.splits bind_splits)
qed simp

lemma copy_next_idle:
  assumes "ring_holds r L" "length L < 2 ^ 32" "sender_ok L tx k" "t_current_len tx \<le> t_current_off tx"
    and "tx_copy_next tx r now stale = Some (False, tx')"
  shows "t_current_len tx' \<le> t_current_off tx'"
proof -
  obtain b tx1 k' where "tx_copy_next tx r now stale = Some (b, tx1)" "sender_ok L tx1 k'"
    "b \<longleftrightarrow> t_current_off tx1 < t_current_len tx1"
    by (rule tx_copy_next_ok [OF assms(1-4), of now stale])
  with assms(5) show ?thesis by auto
qed

lemma copy_nothing_caught_up:
  assumes "ring_holds r L" "length L < 2 ^ 32" "tx_at tx L k"
    and "tx_copy_next tx r now stale = Some (False, tx')"
  shows "t_cursor_seq tx' = r_next_seq r"
proof -
  have "k \<le> length L" using assms(3) by (simp add: tx_at_def)
  then have "first_fresh now stale L (lost_to L k) \<le> length L"
    using first_fresh_bounds(2) lost_to_bounds(2) by blast
  then show ?thesis using assms(4) tx_copy_next_spec [OF assms(1-3), of now stale] assms(1)
    by (auto simp: Let_def tx_drop_stale_def ring_holds_def split: if_splits)
qed

text \<open>A poll always returns, without leaving the frame buffer or the ring, whatever the socket
  answers; and when it was allowed to send and reports idle, the sender is caught up: no frame is
  pending and none is waiting in the ring.\<close>

theorem tx_poll_returns:
  assumes "stream_socket send wire" and "reach tx_start (tx_step send wire) s"
    and "length (x_log s) < 2 ^ 32"
  shows "\<exists>res tx' w'. ntrip_tx_poll (x_tx s) (x_ring s) now n stale send (x_world s) = Some (res, tx', w') \<and>
    (0 < n \<and> res = POLL_IDLE \<longrightarrow>
       t_current_len tx' \<le> t_current_off tx' \<and> t_cursor_seq tx' = r_next_seq (x_ring s))"
proof -
  let ?tx = "x_tx s" and ?r = "x_ring s" and ?L = "x_log s"
  obtain k where k: "ring_holds ?r ?L" "sender_ok ?L ?tx k" using assms by (rule tx_reach_inv)
  obtain res tx' w' where p: "ntrip_tx_poll ?tx ?r now n stale send (x_world s) = Some (res, tx', w')"
    by (rule ntrip_tx_poll_ok [OF k(1) assms(3,1) k(2), of now n stale "x_world s"])
  have "t_current_len tx' \<le> t_current_off tx' \<and> t_cursor_seq tx' = r_next_seq ?r"
    if n: "0 < n" and idle: "res = POLL_IDLE"
  proof -
    obtain m where m: "nat n = Suc m" using n by (metis gr0_implies_Suc zero_less_nat_eq)
    have "t_current_len ?tx \<le> t_current_off ?tx \<and> tx_copy_next ?tx ?r now stale = Some (False, tx')"
      using p idle unfolding ntrip_tx_poll_def m
      by (auto simp: tx_after_send_def Let_def dest!: poll_progress_not_idle split: if_splits prod.splits option.splits bind_splits)
    then show ?thesis
      using copy_next_idle [OF k(1) assms(3) k(2)] copy_nothing_caught_up [OF k(1) assms(3)] k(2)
      unfolding sender_ok_def by blast
  qed
  with p show ?thesis by blast
qed

theorem tx_poll_returns_witness:
  "\<exists>s res tx' w'. reach tx_start (tx_step slow_send (\<lambda>w. w)) s \<and> x_log s = [(encode_frame [1, 2], 5)] \<and>
     ntrip_tx_poll (x_tx s) (x_ring s) 6 8 10000 slow_send (x_world s) = Some (res, tx', w')"
  using demo_reach tx_poll_returns [OF slow_socket] by metis

end
