(* ===== verification/Data_Queue.thy ===== *)
theory Data_Queue
  imports Prelude "HOL-Library.Monad_Syntax"
begin

text \<open>
  The circular byte queue of \<open>src/main/uart.c\<close> (\<open>DATA_QUEUE_TYPE\<close> and the \<open>data_que_\<close> functions).
  The buffer is \<open>None\<close> for a null pointer; head and tail are offsets from its start. An access
  through a null pointer or outside the buffer is \<open>None\<close>.

  The locale \<open>bounded_fifo\<close> is the contract: packets go in whole up to the room left and come out
  in order. The queue is its instance, with a capacity of one less than the buffer.
\<close>

section \<open>The code\<close>

record data_queue =
  dq_size :: nat
  dq_buf :: "u8 list option"
  dq_head :: nat
  dq_tail :: nat

text \<open>The static queue before its creation.\<close>

definition dq_zero :: data_queue where
  "dq_zero = \<lparr>dq_size = 0, dq_buf = None, dq_head = 0, dq_tail = 0\<rparr>"

definition data_que_create :: "bool \<Rightarrow> nat \<Rightarrow> data_queue \<Rightarrow> data_queue" where
  "data_que_create malloc_ok size' q =
     (if dq_size q > 0 then q
      else \<lparr>dq_size = size', dq_buf = (if malloc_ok then Some (replicate size' 0) else None),
            dq_head = 0, dq_tail = 0\<rparr>)"

definition data_que_cleanup :: "data_queue \<Rightarrow> int \<times> data_queue" where
  "data_que_cleanup q =
     (case dq_buf q of
        Some _ \<Rightarrow> (0, q\<lparr>dq_head := 0, dq_tail := 0, dq_buf := Some (replicate (dq_size q) 0)\<rparr>)
      | None \<Rightarrow> (-1, q))"

definition data_que_destroy :: "data_queue \<Rightarrow> data_queue" where
  "data_que_destroy q = q\<lparr>dq_size := 0, dq_buf := None, dq_head := 0, dq_tail := 0\<rparr>"

definition data_que_size :: "data_queue \<Rightarrow> nat" where
  "data_que_size q =
     to_u16 (if dq_tail q \<ge> dq_head q then dq_tail q - dq_head q else dq_tail q + dq_size q - dq_head q)"

text \<open>A position after its increment, back to the start at the end of the buffer.\<close>

definition dq_next :: "data_queue \<Rightarrow> nat \<Rightarrow> nat" where
  "dq_next q p = (if p + 1 \<ge> dq_size q then 0 else p + 1)"

definition data_que_push :: "u8 \<Rightarrow> data_queue \<Rightarrow> (bool \<times> data_queue) option" where
  "data_que_push byte q =
     (let t = dq_next q (dq_tail q)
      in if t = dq_head q then Some (False, q)
         else do {
           buf \<leftarrow> dq_buf q;
           buf \<leftarrow> mem_write buf (dq_tail q) [byte];
           Some (True, q\<lparr>dq_buf := Some buf, dq_tail := t\<rparr>)
         })"

definition data_que_pop :: "data_queue \<Rightarrow> (u8 \<times> data_queue) option" where
  "data_que_pop q =
     (if dq_head q \<noteq> dq_tail q
      then do {
        buf \<leftarrow> dq_buf q;
        byte \<leftarrow> mem_get buf (dq_head q);
        Some (byte, q\<lparr>dq_head := dq_next q (dq_head q)\<rparr>)
      }
      else Some (0, q))"

text \<open>\<open>data_que_packet_in\<close> writes until the queue is full and returns the number of bytes taken.\<close>

fun data_que_packet_in :: "u8 list \<Rightarrow> nat \<Rightarrow> data_queue \<Rightarrow> (nat \<times> data_queue) option" where
  "data_que_packet_in [] idx q = Some (idx, q)"
| "data_que_packet_in (b # bs) idx q =
     (let t = dq_next q (dq_tail q)
      in if t = dq_head q then Some (idx, q)
         else case dq_buf q of
                None \<Rightarrow> None
              | Some buf \<Rightarrow>
                  (case mem_write buf (dq_tail q) [b] of
                     None \<Rightarrow> None
                   | Some buf \<Rightarrow> data_que_packet_in bs (idx + 1) (q\<lparr>dq_buf := Some buf, dq_tail := t\<rparr>)))"

text \<open>\<open>data_que_packet_out\<close> reads at most \<open>len\<close> bytes; its result is what it wrote to the caller's buffer.\<close>

function data_que_packet_out :: "nat \<Rightarrow> u8 list \<Rightarrow> data_queue \<Rightarrow> (u8 list \<times> data_queue) option" where
  "data_que_packet_out len out q =
     (if dq_head q \<noteq> dq_tail q \<and> length out < len \<and> length out < dq_size q
      then case dq_buf q of
             None \<Rightarrow> None
           | Some buf \<Rightarrow>
               (case mem_get buf (dq_head q) of
                  None \<Rightarrow> None
                | Some b \<Rightarrow> data_que_packet_out len (out @ [b]) (q\<lparr>dq_head := dq_next q (dq_head q)\<rparr>))
      else Some (out, q))"
  by auto
termination by (relation "measure (\<lambda>(len, out, q). len - length out)") auto

declare data_que_packet_out.simps [simp del]

section \<open>The contract\<close>

text \<open>
  A bounded queue with packet operations. \<open>rep q xs\<close>: the queue is well formed and holds \<open>xs\<close>.
\<close>

datatype 'a fifo_op = Put "'a list" | Get nat

text \<open>What each operation does on the list, with its result: bytes taken, or bytes read.\<close>

fun fifo_spec :: "nat \<Rightarrow> 'a fifo_op \<Rightarrow> 'a list \<Rightarrow> (nat + 'a list) \<times> 'a list" where
  "fifo_spec n (Put bs) xs = (Inl (min (length bs) (n - length xs)), xs @ take (n - length xs) bs)"
| "fifo_spec n (Get k) xs = (Inr (take k xs), drop k xs)"

fun fifo_run :: "nat \<Rightarrow> 'a fifo_op list \<Rightarrow> 'a list \<Rightarrow> (nat + 'a list) list \<times> 'a list" where
  "fifo_run n [] xs = ([], xs)"
| "fifo_run n (a # as) xs =
     (let (r, ys) = fifo_spec n a xs; (rs, zs) = fifo_run n as ys in (r # rs, zs))"

text \<open>The same operations on an implementation.\<close>

primrec fifo_step :: "('a list \<Rightarrow> 'q \<Rightarrow> (nat \<times> 'q) option) \<Rightarrow> (nat \<Rightarrow> 'q \<Rightarrow> ('a list \<times> 'q) option) \<Rightarrow>
    'a fifo_op \<Rightarrow> 'q \<Rightarrow> ((nat + 'a list) \<times> 'q) option" where
  "fifo_step put get (Put bs) q = map_option (map_prod Inl id) (put bs q)"
| "fifo_step put get (Get k) q = map_option (map_prod Inr id) (get k q)"

primrec fifo_exec :: "('a list \<Rightarrow> 'q \<Rightarrow> (nat \<times> 'q) option) \<Rightarrow> (nat \<Rightarrow> 'q \<Rightarrow> ('a list \<times> 'q) option) \<Rightarrow>
    'a fifo_op list \<Rightarrow> 'q \<Rightarrow> ((nat + 'a list) list \<times> 'q) option" where
  "fifo_exec put get [] q = Some ([], q)"
| "fifo_exec put get (a # as) q = do {
     (r, q) \<leftarrow> fifo_step put get a q; (rs, q) \<leftarrow> fifo_exec put get as q; Some (r # rs, q) }"

locale bounded_fifo =
  fixes put :: "'a list \<Rightarrow> 'q \<Rightarrow> (nat \<times> 'q) option"
    and get :: "nat \<Rightarrow> 'q \<Rightarrow> ('a list \<times> 'q) option"
    and rep :: "'q \<Rightarrow> 'a list \<Rightarrow> bool"
    and cap :: "'q \<Rightarrow> nat"
  assumes put_law: "rep q xs \<Longrightarrow> \<exists>q'. put bs q = Some (min (length bs) (cap q - length xs), q') \<and>
      rep q' (xs @ take (cap q - length xs) bs) \<and> cap q' = cap q"
    and get_law: "rep q xs \<Longrightarrow> \<exists>q'. get k q = Some (take k xs, q') \<and> rep q' (drop k xs) \<and> cap q' = cap q"
    and rep_cap: "rep q xs \<Longrightarrow> length xs \<le> cap q"
begin

lemma step_spec:
  assumes "rep q xs"
  shows "\<exists>q'. fifo_step put get a q = Some (fst (fifo_spec (cap q) a xs), q') \<and> rep q' (snd (fifo_spec (cap q) a xs)) \<and> cap q' = cap q"
  using put_law [OF assms] get_law [OF assms] by (cases a) fastforce+

lemma run_spec:
  assumes "rep q xs"
  shows "\<exists>q'. fifo_exec put get as q = Some (fst (fifo_run (cap q) as xs), q') \<and> rep q' (snd (fifo_run (cap q) as xs)) \<and> cap q' = cap q"
  using assms
proof (induction as arbitrary: q xs)
  case (Cons a as)
  obtain q1 where s: "fifo_step put get a q = Some (fst (fifo_spec (cap q) a xs), q1)"
    "rep q1 (snd (fifo_spec (cap q) a xs))" "cap q1 = cap q"
    using step_spec [OF Cons.prems] by blast
  from Cons.IH [OF s(2)] s(1,3) show ?case by (auto simp: Let_def split_beta)
qed simp

end

section \<open>The queue is a bounded queue\<close>

definition dq_rep :: "data_queue \<Rightarrow> u8 list \<Rightarrow> bool" where
  "dq_rep q xs \<longleftrightarrow> (\<exists>buf. dq_buf q = Some buf \<and> length buf = dq_size q \<and> dq_size q < 65536 \<and>
     dq_head q < dq_size q \<and> length xs < dq_size q \<and> dq_tail q = (dq_head q + length xs) mod dq_size q \<and>
     (\<forall>k < length xs. buf ! ((dq_head q + k) mod dq_size q) = xs ! k))"

lemma dq_next_mod: "p < dq_size q \<Longrightarrow> dq_next q p = (p + 1) mod dq_size q"
  by (simp add: dq_next_def mod_Suc)

lemma dq_next_add: "0 < dq_size q \<Longrightarrow> dq_next q ((h + k) mod dq_size q) = (h + Suc k) mod dq_size q"
  by (simp add: dq_next_mod mod_simps)

lemma mod_add_less_neq:
  fixes n :: nat assumes "j < k" "k < n" shows "(h + k) mod n \<noteq> (h + j) mod n"
proof
  assume "(h + k) mod n = (h + j) mod n"
  then have "n dvd (h + k) - (h + j)" using assms(1) by (simp add: mod_eq_dvd_iff_nat)
  then show False using assms by (auto dest: dvd_imp_le)
qed

lemma mod_add_inj:
  fixes n :: nat shows "j < n \<Longrightarrow> k < n \<Longrightarrow> (h + j) mod n = (h + k) mod n \<longleftrightarrow> j = k"
  using mod_add_less_neq [of j k n h] mod_add_less_neq [of k j n h] by (metis nat_neq_iff)

lemma dq_tail_head:
  assumes "dq_rep q xs"
  shows "dq_next q (dq_tail q) = dq_head q \<longleftrightarrow> Suc (length xs) = dq_size q"
    and "dq_head q = dq_tail q \<longleftrightarrow> xs = []"
proof -
  let ?n = "dq_size q" and ?h = "dq_head q"
  from assms have r: "?h < ?n" "length xs < ?n" "dq_tail q = (?h + length xs) mod ?n" by (auto simp: dq_rep_def)
  have nx: "dq_next q (dq_tail q) = (?h + Suc (length xs)) mod ?n" using r by (simp add: dq_next_add)
  show "dq_next q (dq_tail q) = ?h \<longleftrightarrow> Suc (length xs) = ?n"
  proof (cases "Suc (length xs) = ?n")
    case False
    then have "(?h + Suc (length xs)) mod ?n \<noteq> (?h + 0) mod ?n" using r by (subst mod_add_inj) auto
    then show ?thesis using False r nx by simp
  qed (use r nx in simp)
  show "?h = dq_tail q \<longleftrightarrow> xs = []" using r mod_add_inj [of 0 ?n "length xs" ?h] by auto
qed

lemma dq_rep_snoc:
  assumes "dq_rep q xs" "Suc (length xs) < dq_size q" "dq_buf q = Some buf"
  shows "dq_rep (q\<lparr>dq_buf := Some (buf[dq_tail q := b]), dq_tail := dq_next q (dq_tail q)\<rparr>) (xs @ [b])"
proof -
  let ?n = "dq_size q" and ?h = "dq_head q"
  from assms have r: "length buf = ?n" "?h < ?n" "dq_tail q = (?h + length xs) mod ?n" "?n < 65536"
    "\<And>k. k < length xs \<Longrightarrow> buf ! ((?h + k) mod ?n) = xs ! k" by (auto simp: dq_rep_def)
  have "buf[dq_tail q := b] ! ((?h + k) mod ?n) = (xs @ [b]) ! k" if "k < Suc (length xs)" for k
  proof -
    have "(?h + k) mod ?n = dq_tail q \<longleftrightarrow> k = length xs" unfolding r(3) using that assms(2) by (intro mod_add_inj) auto
    then show ?thesis using that r(1,3,5) assms(2) by (cases "k = length xs") (auto simp: nth_append)
  qed
  then show ?thesis using r assms(2) by (simp add: dq_rep_def dq_next_add)
qed

lemma dq_rep_tl:
  assumes "dq_rep q (x # xs)"
  shows "dq_rep (q\<lparr>dq_head := dq_next q (dq_head q)\<rparr>) xs"
    and "\<exists>buf. dq_buf q = Some buf \<and> mem_get buf (dq_head q) = Some x"
proof -
  let ?n = "dq_size q" and ?h = "dq_head q"
  from assms obtain buf where r: "dq_buf q = Some buf" "length buf = ?n" "?h < ?n" "length xs + 1 < ?n"
    "dq_tail q = (?h + Suc (length xs)) mod ?n" "?n < 65536"
    "\<And>k. k < Suc (length xs) \<Longrightarrow> buf ! ((?h + k) mod ?n) = (x # xs) ! k" by (auto simp: dq_rep_def)
  show "\<exists>buf. dq_buf q = Some buf \<and> mem_get buf ?h = Some x" using r(1,2,3) r(7) [of 0] by simp
  have "buf ! ((?h + 1 + k) mod ?n) = xs ! k" if "k < length xs" for k using r(7) [of "Suc k"] that by simp
  then show "dq_rep (q\<lparr>dq_head := dq_next q ?h\<rparr>) xs"
    using r by (simp add: dq_rep_def dq_next_mod mod_simps)
qed

lemma dq_size_pos: "dq_rep q xs \<Longrightarrow> length xs < dq_size q"
  by (auto simp: dq_rep_def)

lemma packet_in_rep:
  "dq_rep q xs \<Longrightarrow> \<exists>q'. data_que_packet_in bs i q = Some (i + min (length bs) (dq_size q - 1 - length xs), q') \<and>
     dq_rep q' (xs @ take (dq_size q - 1 - length xs) bs) \<and> dq_size q' = dq_size q"
proof (induction bs arbitrary: i q xs)
  case (Cons b bs)
  note t = dq_tail_head(1) [OF Cons.prems] dq_size_pos [OF Cons.prems]
  show ?case
  proof (cases "Suc (length xs) = dq_size q")
    case False
    from Cons.prems obtain buf where b: "dq_buf q = Some buf" "length buf = dq_size q" "dq_tail q < dq_size q"
      by (auto simp: dq_rep_def)
    let ?q = "q\<lparr>dq_buf := Some (buf[dq_tail q := b]), dq_tail := dq_next q (dq_tail q)\<rparr>"
    have "dq_rep ?q (xs @ [b])" using False t(2) by (intro dq_rep_snoc [OF Cons.prems _ b(1)]) simp
    from Cons.IH [OF this, of "i + 1"] False t b show ?thesis
      by (auto simp: Let_def upd_conv_take_nth_drop take_Cons' Suc_diff_Suc)
  qed (use Cons.prems t in auto)
qed auto

lemma packet_out_rep:
  "dq_rep q xs \<Longrightarrow> length out + length xs < dq_size q \<Longrightarrow>
   \<exists>q'. data_que_packet_out len out q = Some (out @ take (len - length out) xs, q') \<and>
     dq_rep q' (drop (len - length out) xs) \<and> dq_size q' = dq_size q"
proof (induction xs arbitrary: out q)
  case Nil
  then show ?case using dq_tail_head(2) [OF Nil.prems(1)] by (subst data_que_packet_out.simps) auto
next
  case (Cons x xs)
  show ?case
  proof (cases "length out < len")
    case True
    obtain buf where b: "dq_buf q = Some buf" "mem_get buf (dq_head q) = Some x"
      using dq_rep_tl(2) [OF Cons.prems(1)] by blast
    from Cons.IH [OF dq_rep_tl(1) [OF Cons.prems(1)], of "out @ [x]"] Cons.prems(2) obtain q' where
      "data_que_packet_out len (out @ [x]) (q\<lparr>dq_head := dq_next q (dq_head q)\<rparr>) =
         Some ((out @ [x]) @ take (len - Suc (length out)) xs, q')"
      "dq_rep q' (drop (len - Suc (length out)) xs)" "dq_size q' = dq_size q" by auto
    moreover have "len - length out = Suc (len - Suc (length out))" using True by simp
    ultimately show ?thesis using True b Cons.prems dq_tail_head(2) [OF Cons.prems(1)]
      by (subst data_que_packet_out.simps) auto
  qed (use Cons.prems in \<open>subst data_que_packet_out.simps, auto\<close>)
qed

text \<open>The creation gives an empty queue, when the allocation succeeds.\<close>

lemma create_rep: "0 < n \<Longrightarrow> n < 65536 \<Longrightarrow> dq_rep (data_que_create True n dq_zero) []"
  by (simp add: dq_rep_def data_que_create_def dq_zero_def)

interpretation dq: bounded_fifo "\<lambda>bs. data_que_packet_in bs 0" "\<lambda>k. data_que_packet_out k []" dq_rep "\<lambda>q. dq_size q - 1"
proof unfold_locales
  fix q xs and bs :: "u8 list"
  assume "dq_rep q xs"
  from packet_in_rep [OF this, of bs 0]
  show "\<exists>q'. data_que_packet_in bs 0 q = Some (min (length bs) (dq_size q - 1 - length xs), q') \<and>
      dq_rep q' (xs @ take (dq_size q - 1 - length xs) bs) \<and> dq_size q' - 1 = dq_size q - 1" by auto
next
  fix q xs k
  assume "dq_rep q xs"
  with packet_out_rep [OF this, of "[]" k] dq_size_pos [OF this]
  show "\<exists>q'. data_que_packet_out k [] q = Some (take k xs, q') \<and> dq_rep q' (drop k xs) \<and>
      dq_size q' - 1 = dq_size q - 1" by auto
qed (use dq_size_pos in force)

definition data_que_exec :: "u8 fifo_op list \<Rightarrow> data_queue \<Rightarrow> ((nat + u8 list) list \<times> data_queue) option" where
  "data_que_exec = fifo_exec (\<lambda>bs. data_que_packet_in bs 0) (\<lambda>k. data_que_packet_out k [])"

section \<open>The other operations\<close>

lemma data_que_size_rep: "dq_rep q xs \<Longrightarrow> data_que_size q = length xs"
proof -
  assume "dq_rep q xs"
  then have r: "dq_head q < dq_size q" "length xs < dq_size q" "dq_size q < 65536"
    "dq_tail q = (dq_head q + length xs) mod dq_size q" by (auto simp: dq_rep_def)
  show ?thesis
  proof (cases "dq_head q + length xs < dq_size q")
    case False
    then have t: "dq_tail q = dq_head q + length xs - dq_size q" using r by (simp add: le_mod_geq)
    then have "\<not> dq_head q \<le> dq_tail q" using r(1,2) False by linarith
    then show ?thesis using r(2,3) t False by (simp add: data_que_size_def)
  qed (use r in \<open>simp add: data_que_size_def\<close>)
qed

lemma cleanup_rep: "dq_rep q xs \<Longrightarrow> fst (data_que_cleanup q) = 0 \<and> dq_rep (snd (data_que_cleanup q)) []"
  by (auto simp: dq_rep_def data_que_cleanup_def)

text \<open>A single byte in or out is a packet of one.\<close>

lemma push_is_packet: "data_que_push b q = map_option (map_prod (\<lambda>n. n = 1) id) (data_que_packet_in [b] 0 q)"
  by (auto simp: data_que_push_def Let_def split: option.splits Option.bind_splits)

lemma pop_is_packet:
  assumes "dq_rep q xs"
  shows "data_que_pop q = map_option (map_prod (\<lambda>l. if l = [] then 0 else hd l) id) (data_que_packet_out 1 [] q)"
proof (cases xs)
  case Nil
  then show ?thesis using dq_tail_head(2) [OF assms] by (simp add: data_que_pop_def data_que_packet_out.simps)
next
  case (Cons x ys)
  with assms dq_rep_tl(2) [of q x ys] dq_tail_head(2) [OF assms] dq_size_pos [OF assms] show ?thesis
    by (auto simp: data_que_pop_def data_que_packet_out.simps [of "Suc 0"])
qed

text \<open>C39: The byte queue of the UART is a bounded queue. From its creation with a buffer of \<open>n\<close> bytes, any
  sequence of packet writes and reads returns without touching memory outside the buffer; a write takes
  as many leading bytes as there is room for under the capacity \<open>n - 1\<close> and reports that number, a
  read returns the oldest bytes in order, and the reported fill level is the number of bytes held.\<close>

theorem data_queue_is_bounded_fifo:
  assumes "0 < n" and "n < 65536"
  shows "\<exists>q. data_que_exec ops (data_que_create True n dq_zero) = Some (fst (fifo_run (n - 1) ops []), q) \<and>
    data_que_size q = length (snd (fifo_run (n - 1) ops [])) \<and> data_que_size q < n"
proof -
  have s: "dq_size (data_que_create True n dq_zero) = n" by (simp add: data_que_create_def dq_zero_def)
  from dq.run_spec [OF create_rep [OF assms], of ops] obtain q where
    q: "data_que_exec ops (data_que_create True n dq_zero) = Some (fst (fifo_run (n - 1) ops []), q)"
    "dq_rep q (snd (fifo_run (n - 1) ops []))" "dq_size q - 1 = n - 1" unfolding s data_que_exec_def by blast
  then have "length (snd (fifo_run (n - 1) ops [])) \<le> n - 1" using dq_size_pos [OF q(2)] by linarith
  then show ?thesis using q(1) data_que_size_rep [OF q(2)] assms(1) by auto
qed

theorem data_queue_is_bounded_fifo_witness:
  "\<exists>q. data_que_exec [Put [1, 2, 3], Get 2, Put [4, 5]] (data_que_create True 4 dq_zero) =
      Some (fst (fifo_run (4 - 1) [Put [1, 2, 3], Get 2, Put [4, 5]] []), q) \<and>
    data_que_size q = length (snd (fifo_run (4 - 1) [Put [1, 2, 3 :: u8], Get 2, Put [4, 5]] [])) \<and> data_que_size q < 4"
  by (rule data_queue_is_bounded_fifo) simp_all

end
