(* ===== verification/Stream_Stats.thy ===== *)
theory Stream_Stats
  imports Prelude Complex_Main
begin

text \<open>
  Byte statistics of a stream (\<open>src/main/stream_stats.c\<close>): totals that wrap at 32 bits, and running
  averages updated once a second. The averages are reals; the list of all statistics is newest first.
  A statistics object is found by the identity of its name, so names are addresses here.
\<close>

record stream_stats =
  st_name :: nat
  st_total_in :: u32
  st_total_out :: u32
  st_rate_in :: real
  st_rate_out :: real
  st_period_in :: u32
  st_period_out :: u32

abbreviation RUNNING_AVERAGE_ALPHA :: real where "RUNNING_AVERAGE_ALPHA \<equiv> 8 / 10"
abbreviation RUNNING_AVERAGE_PERIOD :: real where "RUNNING_AVERAGE_PERIOD \<equiv> 1000"
abbreviation RUNNING_AVERAGE_PERIOD_CORRECTION :: real where
  "RUNNING_AVERAGE_PERIOD_CORRECTION \<equiv> 1000 / RUNNING_AVERAGE_PERIOD"

definition average :: "real \<Rightarrow> u32 \<Rightarrow> real" where
  "average rate n = rate * RUNNING_AVERAGE_ALPHA +
     real (unat n) * (1 - RUNNING_AVERAGE_ALPHA) * RUNNING_AVERAGE_PERIOD_CORRECTION"

definition stream_stats_tick :: "stream_stats \<Rightarrow> stream_stats" where
  "stream_stats_tick s = s\<lparr>st_rate_in := average (st_rate_in s) (st_period_in s),
     st_rate_out := average (st_rate_out s) (st_period_out s), st_period_in := 0, st_period_out := 0\<rparr>"

definition stream_stats_task :: "stream_stats list \<Rightarrow> stream_stats list" where
  "stream_stats_task l = map stream_stats_tick l"

definition stream_stats_new :: "nat \<Rightarrow> stream_stats list \<Rightarrow> stream_stats list" where
  "stream_stats_new name l = \<lparr>st_name = name, st_total_in = 0, st_total_out = 0, st_rate_in = 0, st_rate_out = 0,
     st_period_in = 0, st_period_out = 0\<rparr> # l"

definition stream_stats_increment :: "u32 \<Rightarrow> u32 \<Rightarrow> stream_stats \<Rightarrow> stream_stats" where
  "stream_stats_increment i o' s = s\<lparr>st_total_in := st_total_in s + i, st_total_out := st_total_out s + o',
     st_period_in := st_period_in s + i, st_period_out := st_period_out s + o'\<rparr>"

text \<open>The values reported: the rates are cut to whole numbers.\<close>

definition stream_stats_values :: "stream_stats \<Rightarrow> nat \<times> u32 \<times> u32 \<times> u32 \<times> u32" where
  "stream_stats_values s = (st_name s, st_total_in s, st_total_out s, of_int \<lfloor>st_rate_in s\<rfloor>, of_int \<lfloor>st_rate_out s\<rfloor>)"

definition stream_stats_get :: "nat \<Rightarrow> stream_stats list \<Rightarrow> stream_stats option" where
  "stream_stats_get name l = find (\<lambda>s. st_name s = name) l"

section \<open>Bounds and totals\<close>

lemma average_bounds:
  assumes "0 \<le> rate" "rate \<le> m" "real (unat n) \<le> m" shows "0 \<le> average rate n" "average rate n \<le> m"
proof -
  have "0 \<le> real (unat n)" by (rule of_nat_0_le_iff)
  with assms(1) show "0 \<le> average rate n" by (simp add: average_def del: of_nat_unat)
  from assms(2,3) show "average rate n \<le> m" by (simp add: average_def)
qed

text \<open>A stream that carries at most \<open>m\<close> bytes in each second never reports a higher rate.\<close>

fun seconds :: "(u32 \<times> u32) list list \<Rightarrow> stream_stats \<Rightarrow> stream_stats" where
  "seconds [] s = s"
| "seconds (ns # rest) s = seconds rest (stream_stats_tick (fold (\<lambda>(i, o'). stream_stats_increment i o') ns s))"

lemma fold_increment:
  "st_total_in (fold (\<lambda>(i, o'). stream_stats_increment i o') ns s) = st_total_in s + sum_list (map fst ns)"
  "st_period_in (fold (\<lambda>(i, o'). stream_stats_increment i o') ns s) = st_period_in s + sum_list (map fst ns)"
  "st_rate_in (fold (\<lambda>(i, o'). stream_stats_increment i o') ns s) = st_rate_in s"
  by (induction ns arbitrary: s) (auto simp: stream_stats_increment_def algebra_simps)

theorem rate_never_exaggerates:
  assumes "st_period_in s = 0" "0 \<le> st_rate_in s" "st_rate_in s \<le> m"
    and "\<forall>ns \<in> set nss. real (unat (sum_list (map fst ns))) \<le> m"
  shows "0 \<le> st_rate_in (seconds nss s) \<and> st_rate_in (seconds nss s) \<le> m \<and>
    st_total_in (seconds nss s) = st_total_in s + sum_list (map (\<lambda>ns. sum_list (map fst ns)) nss)"
  using assms
proof (induction nss arbitrary: s)
  case (Cons ns nss)
  let ?s = "stream_stats_tick (fold (\<lambda>(i, o'). stream_stats_increment i o') ns s)"
  have "st_rate_in ?s = average (st_rate_in s) (sum_list (map fst ns))" "st_period_in ?s = 0"
    "st_total_in ?s = st_total_in s + sum_list (map fst ns)"
    using Cons.prems(1) by (simp_all add: stream_stats_tick_def fold_increment)
  with Cons.IH [of ?s] average_bounds [OF Cons.prems(2,3)] Cons.prems(4) show ?case by (simp add: algebra_simps)
qed simp

end
