(* ===== verification/Gnss_Ack.thy ===== *)
theory Gnss_Ack
  imports Prelude "HOL-Library.Char_ord"
begin

text \<open>
  The response matcher for the GNSS receiver, \<open>src/main/gnss_ack.c\<close>: \<open>find_at\<close>,
  \<open>span_equals\<close>, \<open>record_valid_at\<close> and \<open>gnss_ack_scan\<close>. The buffer may hold binary data,
  so it is a list of characters with an explicit length; a C character is one of the 256
  values of the type \<open>char\<close>.

  The lemmas show that a verdict is sound (a complete record with a correct checksum and
  addressed to the command is in the buffer) and that a well-formed success record is found.
\<close>

section \<open>The code\<close>

datatype gnss_ack_verdict = GNSS_ACK_NONE | GNSS_ACK_OK | GNSS_ACK_REJECTED

definition PREFIX :: string where
  "PREFIX = ''$command,''"

function find_from :: "string \<Rightarrow> nat \<Rightarrow> nat \<Rightarrow> string \<Rightarrow> nat option" where
  "find_from hay n i needle =
     (if i + length needle \<le> n
      then if take (length needle) (drop i hay) = needle then Some i else find_from hay n (i + 1) needle
      else None)"
  by pat_completeness auto
termination
  by (relation "measure (\<lambda>(hay, n, i, needle). Suc n - i)") auto

declare find_from.simps [simp del]

definition find_at :: "string \<Rightarrow> nat \<Rightarrow> nat \<Rightarrow> string \<Rightarrow> nat option" where
  "find_at hay n from needle =
     (if needle = [] \<or> n < length needle then None else find_from hay n from needle)"

definition span :: "string \<Rightarrow> nat \<Rightarrow> nat \<Rightarrow> string" where
  "span buf i j = take (j - i) (drop i buf)"

definition span_equals :: "string \<Rightarrow> nat \<Rightarrow> nat \<Rightarrow> string \<Rightarrow> bool" where
  "span_equals buf s len cmd \<longleftrightarrow> len = length cmd \<and> take len (drop s buf) = cmd"

definition is_hex :: "char \<Rightarrow> bool" where
  "is_hex c \<longleftrightarrow> (CHR ''0'' \<le> c \<and> c \<le> CHR ''9'') \<or> (CHR ''a'' \<le> c \<and> c \<le> CHR ''f'') \<or>
     (CHR ''A'' \<le> c \<and> c \<le> CHR ''F'')"

definition hex_val :: "char \<Rightarrow> u32" where
  "hex_val c =
     (if CHR ''0'' \<le> c \<and> c \<le> CHR ''9'' then of_char c - of_char CHR ''0''
      else if CHR ''a'' \<le> c \<and> c \<le> CHR ''f'' then of_char c - of_char CHR ''a'' + 10
      else of_char c - of_char CHR ''A'' + 10)"

definition xor_bytes :: "string \<Rightarrow> u32" where
  "xor_bytes s = foldl (\<lambda>got c. got XOR of_char c) 0 s"

definition record_valid_at :: "string \<Rightarrow> nat \<Rightarrow> nat \<Rightarrow> nat \<Rightarrow> bool" where
  "record_valid_at buf n rec star =
     (if star + 2 \<ge> n then False
      else if \<not> is_hex (buf ! (star + 1)) \<or> \<not> is_hex (buf ! (star + 2)) then False
      else xor_bytes (span buf rec star) =
             push_bit 4 (hex_val (buf ! (star + 1))) OR hex_val (buf ! (star + 2)))"

lemma find_from_bounds:
  "find_from hay n i needle = Some s \<Longrightarrow>
   i \<le> s \<and> s + length needle \<le> n \<and> take (length needle) (drop s hay) = needle"
proof (induction hay n i needle rule: find_from.induct)
  case (1 hay n i needle)
  show ?case
  proof (cases "i + length needle \<le> n \<and> take (length needle) (drop i hay) \<noteq> needle")
    case True
    then show ?thesis using 1 by (auto simp: find_from.simps [of hay n i needle])
  next
    case False
    then show ?thesis using "1.prems" by (auto simp: find_from.simps [of hay n i needle] split: if_splits)
  qed
qed

lemma find_at_bounds:
  assumes "find_at hay n i needle = Some s"
  shows "i \<le> s" "s + length needle \<le> n" "take (length needle) (drop s hay) = needle" "needle \<noteq> []"
  using assms find_from_bounds by (auto simp: find_at_def split: if_splits)

lemma find_at_range: "find_at hay n i needle = Some s \<Longrightarrow> i \<le> s \<and> s + length needle \<le> n"
  using find_at_bounds by blast

text \<open>
  The loop over the checksum delimiters of one record, bounded by the start of the next one;
  \<open>from\<close> is where the next search starts.
\<close>

function find_star :: "string \<Rightarrow> nat \<Rightarrow> nat \<Rightarrow> nat option \<Rightarrow> nat \<Rightarrow> nat option" where
  "find_star buf n rec nxt from =
     (case find_at buf n from ''*'' of
        None \<Rightarrow> None
      | Some s \<Rightarrow>
          if (\<exists>x \<in> set_option nxt. s > x) then None
          else if record_valid_at buf n rec s then Some s
          else find_star buf n rec nxt (s + 1))"
  by pat_completeness auto
termination
  by (relation "measure (\<lambda>(buf, n, rec, nxt, from). n - from)") (auto dest: find_at_range)

declare find_star.simps [simp del]

definition skip_spaces :: "string \<Rightarrow> nat \<Rightarrow> nat \<Rightarrow> nat" where
  "skip_spaces buf v lim = v + length (takeWhile (\<lambda>c. c = CHR '' '') (span buf v lim))"

definition trim_end :: "string \<Rightarrow> nat \<Rightarrow> nat \<Rightarrow> nat" where
  "trim_end buf v lim =
     lim - length (takeWhile (\<lambda>c. c = CHR '' '' \<or> c = CHR 0x0D) (rev (span buf v lim)))"

text \<open>The judgement of one complete record; \<open>old\<close> is the verdict so far.\<close>

definition judge_no_echo :: "string \<Rightarrow> nat \<Rightarrow> nat \<Rightarrow> string \<Rightarrow> gnss_ack_verdict \<Rightarrow> gnss_ack_verdict" where
  "judge_no_echo buf body lim cmd old =
     (case find_at buf lim body ''NO MATCHING FUNC'' of
        None \<Rightarrow> old
      | Some func \<Rightarrow>
          let cstart = skip_spaces buf (func + length ''NO MATCHING FUNC'') lim
          in if span_equals buf cstart (lim - cstart) cmd then GNSS_ACK_REJECTED else old)"

definition judge_echo :: "string \<Rightarrow> nat \<Rightarrow> nat \<Rightarrow> nat \<Rightarrow> string \<Rightarrow> gnss_ack_verdict \<Rightarrow> gnss_ack_verdict" where
  "judge_echo buf body resp lim cmd old =
     (if span_equals buf body (resp - body) cmd
      then let v = skip_spaces buf (resp + length '',response:'') lim;
               vend = trim_end buf v lim
           in if v + 12 \<le> vend \<and> take 12 (drop v buf) = ''PARSING FAIL'' then GNSS_ACK_REJECTED
              else if span_equals buf v (vend - v) ''OK'' then GNSS_ACK_OK
              else old
      else old)"

definition judge :: "string \<Rightarrow> nat \<Rightarrow> nat \<Rightarrow> string \<Rightarrow> gnss_ack_verdict \<Rightarrow> gnss_ack_verdict" where
  "judge buf body lim cmd old =
     (if lim - body \<ge> 9 \<and> take 9 (drop body buf) = ''response:''
      then judge_no_echo buf body lim cmd old
      else case find_at buf lim body '',response:'' of
             None \<Rightarrow> old
           | Some resp \<Rightarrow> judge_echo buf body resp lim cmd old)"

lemma find_star_bounds:
  "find_star buf n rec nxt from = Some s \<Longrightarrow> from \<le> s \<and> s < n \<and> buf ! s = CHR ''*'' \<and>
     record_valid_at buf n rec s \<and> (\<forall>x \<in> set_option nxt. s \<le> x)"
proof (induction buf n rec nxt "from" rule: find_star.induct)
  case (1 buf n rec nxt fr)
  then obtain t where t: "find_at buf n fr ''*'' = Some t"
    by (auto simp: find_star.simps [of buf n rec nxt fr] split: option.splits)
  have b: "fr \<le> t" "t < n" using find_at_bounds [OF t] by auto
  have "take 1 (drop t buf) = ''*''" using find_at_bounds(3) [OF t] by simp
  then have star: "buf ! t = CHR ''*''" by (cases "drop t buf") (auto simp: nth_via_drop)
  show ?case using "1.IH" [OF t] "1.prems" b star t
    by (auto simp: find_star.simps [of buf n rec nxt fr] not_less split: if_splits)
qed

function scan_loop :: "string \<Rightarrow> nat \<Rightarrow> string \<Rightarrow> nat \<Rightarrow> gnss_ack_verdict \<Rightarrow> gnss_ack_verdict" where
  "scan_loop buf n cmd pos verdict =
     (case find_at buf n pos PREFIX of
        None \<Rightarrow> verdict
      | Some rec \<Rightarrow>
          let body = rec + length PREFIX; nxt = find_at buf n body PREFIX
          in case find_star buf n rec nxt body of
               None \<Rightarrow> scan_loop buf n cmd body verdict
             | Some star \<Rightarrow>
                 if (\<exists>x \<in> set_option nxt. x < star) then scan_loop buf n cmd body verdict
                 else scan_loop buf n cmd star (judge buf body star cmd verdict))"
  by pat_completeness auto
termination
  by (relation "measure (\<lambda>(buf, n, cmd, pos, verdict). n - pos)")
    (auto simp: PREFIX_def dest!: find_at_range find_star_bounds)

definition gnss_ack_scan :: "string \<Rightarrow> nat \<Rightarrow> string \<Rightarrow> gnss_ack_verdict" where
  "gnss_ack_scan buf n cmd = (if n = 0 then GNSS_ACK_NONE else scan_loop buf n cmd 0 GNSS_ACK_NONE)"

declare scan_loop.simps [simp del]

section \<open>Soundness\<close>

abbreviation blanks :: "string \<Rightarrow> bool" where
  "blanks sp \<equiv> set sp \<subseteq> {CHR '' ''}"

definition accepts :: "string \<Rightarrow> string \<Rightarrow> bool" where
  "accepts cmd t \<longleftrightarrow> (\<exists>sp1 sp2. t = cmd @ '',response:'' @ sp1 @ ''OK'' @ sp2 \<and> blanks sp1 \<and>
     set sp2 \<subseteq> {CHR '' '', CHR 0x0D})"

definition rejects :: "string \<Rightarrow> string \<Rightarrow> bool" where
  "rejects cmd t \<longleftrightarrow> (\<exists>sp rest. t = cmd @ '',response:'' @ sp @ ''PARSING FAIL'' @ rest \<and> blanks sp) \<or>
     (\<exists>pre sp. t = pre @ ''NO MATCHING FUNC'' @ sp @ cmd \<and> blanks sp \<and> take 9 t = ''response:'')"

lemma span_split: "i \<le> j \<Longrightarrow> j \<le> k \<Longrightarrow> span buf i k = span buf i j @ span buf j k"
  unfolding span_def using take_add [of "j - i" "k - j" "drop i buf"] by (simp add: add.commute)

lemma span_length: "j \<le> length buf \<Longrightarrow> length (span buf i j) = j - i"
  by (simp add: span_def)

lemma skip_spaces_spec:
  assumes "v \<le> lim"
  shows "v \<le> skip_spaces buf v lim" "skip_spaces buf v lim \<le> lim" "blanks (span buf v (skip_spaces buf v lim))"
proof -
  let ?xs = "span buf v lim" and ?P = "\<lambda>c. c = CHR '' ''"
  define t where "t = length (takeWhile ?P ?xs)"
  have t: "t \<le> lim - v" using length_takeWhile_le [of ?P ?xs] by (simp add: t_def span_def)
  then show "v \<le> skip_spaces buf v lim" "skip_spaces buf v lim \<le> lim"
    using assms by (simp_all add: skip_spaces_def t_def [symmetric])
  have "span buf v (v + t) = take t ?xs" using t by (simp add: span_def min_absorb1)
  also have "\<dots> = takeWhile ?P ?xs" by (simp add: t_def flip: takeWhile_eq_take)
  finally show "blanks (span buf v (skip_spaces buf v lim))"
    by (auto simp: skip_spaces_def t_def [symmetric] dest: set_takeWhileD)
qed

lemma trim_end_spec:
  assumes "v \<le> lim" "lim \<le> length buf"
  shows "v \<le> trim_end buf v lim" "trim_end buf v lim \<le> lim"
    "set (span buf (trim_end buf v lim) lim) \<subseteq> {CHR '' '', CHR 0x0D}"
proof -
  let ?xs = "span buf v lim" and ?P = "\<lambda>c. c = CHR '' '' \<or> c = CHR 0x0D"
  define t where "t = length (takeWhile ?P (rev ?xs))"
  have len: "length ?xs = lim - v" using assms by (simp add: span_length)
  have t: "t \<le> lim - v" using length_takeWhile_le [of ?P "rev ?xs"] len by (simp add: t_def)
  then show b: "v \<le> trim_end buf v lim" "trim_end buf v lim \<le> lim"
    using assms by (simp_all add: trim_end_def t_def [symmetric])
  have "?xs = span buf v (lim - t) @ span buf (lim - t) lim" using t assms by (intro span_split) auto
  moreover have "length (span buf v (lim - t)) = lim - v - t" using assms t by (simp add: span_length)
  ultimately have "span buf (lim - t) lim = drop (lim - v - t) ?xs" by (metis append_eq_conv_conj)
  also have "\<dots> = rev (take t (rev ?xs))" using len t by (simp add: rev_take)
  also have "\<dots> = rev (takeWhile ?P (rev ?xs))" by (simp add: t_def flip: takeWhile_eq_take)
  finally show "set (span buf (trim_end buf v lim) lim) \<subseteq> {CHR '' '', CHR 0x0D}"
    by (auto simp: trim_end_def t_def [symmetric] dest: set_takeWhileD)
qed

lemma needle_lengths:
  "length '',response:'' = 10" "length ''NO MATCHING FUNC'' = 16" "length PREFIX = 9"
  by (simp_all add: PREFIX_def)

lemma judge_echo_sound:
  assumes find: "find_at buf lim body '',response:'' = Some resp" and lim: "lim \<le> length buf" "body \<le> lim"
    and new: "judge_echo buf body resp lim cmd old = v" "v \<noteq> old"
  shows "v = GNSS_ACK_OK \<and> accepts cmd (span buf body lim) \<or> v = GNSS_ACK_REJECTED \<and> rejects cmd (span buf body lim)"
proof -
  let ?r = "resp + 10"
  have r: "body \<le> resp" "?r \<le> lim" "span buf resp ?r = '',response:''"
    using find_at_bounds(1-3) [OF find, unfolded needle_lengths] by (simp_all only: span_def add_diff_cancel_left')
  define w where "w = skip_spaces buf ?r lim"
  define e where "e = trim_end buf w lim"
  note sk = skip_spaces_spec [OF r(2), of buf, folded w_def]
  note tr = trim_end_spec [OF sk(2) lim(1), folded e_def]
  have cmd: "span buf body resp = cmd" using new by (auto simp: judge_echo_def span_equals_def span_def split: if_splits)
  have t: "span buf body lim = cmd @ '',response:'' @ span buf ?r w @ span buf w lim"
    using span_split [of body resp lim] span_split [of resp ?r lim buf] span_split [of ?r w lim buf] r sk cmd by simp
  have "(w + 12 \<le> e \<and> span buf w (w + 12) = ''PARSING FAIL'' \<and> v = GNSS_ACK_REJECTED) \<or>
      (span buf w e = ''OK'' \<and> v = GNSS_ACK_OK)"
    using new unfolding judge_echo_def Let_def needle_lengths w_def [symmetric] e_def [symmetric]
    by (auto simp: span_def span_equals_def split: if_splits)
  then show ?thesis
  proof (elim disjE conjE)
    assume "w + 12 \<le> e" "span buf w (w + 12) = ''PARSING FAIL''" "v = GNSS_ACK_REJECTED"
    moreover from this have "span buf w lim = ''PARSING FAIL'' @ span buf (w + 12) lim"
      using span_split [of w "w + 12" lim buf] tr by simp
    ultimately show ?thesis using t sk(3) by (auto simp: rejects_def)
  next
    assume "span buf w e = ''OK''" "v = GNSS_ACK_OK"
    then show ?thesis using t sk(3) tr span_split [of w e lim buf] by (auto simp: accepts_def)
  qed
qed

lemma judge_no_echo_sound:
  assumes resp: "take 9 (drop body buf) = ''response:''" "9 \<le> lim - body" and lim: "lim \<le> length buf"
    and new: "judge_no_echo buf body lim cmd old = v" "v \<noteq> old"
  shows "v = GNSS_ACK_REJECTED \<and> rejects cmd (span buf body lim)"
proof -
  obtain f where f: "find_at buf lim body ''NO MATCHING FUNC'' = Some f"
    using new by (auto simp: judge_no_echo_def split: option.splits)
  have b: "body \<le> f" "f + 16 \<le> lim" "span buf f (f + 16) = ''NO MATCHING FUNC''"
    using find_at_bounds(1-3) [OF f, unfolded needle_lengths] by (simp_all only: span_def add_diff_cancel_left')
  define c where "c = skip_spaces buf (f + 16) lim"
  note sk = skip_spaces_spec [OF b(2), of buf, folded c_def]
  have v: "v = GNSS_ACK_REJECTED" "span buf c lim = cmd"
    using new f unfolding judge_no_echo_def Let_def needle_lengths
    by (auto simp: c_def [symmetric] span_equals_def span_def split: if_splits)
  have "span buf body lim = span buf body f @ ''NO MATCHING FUNC'' @ span buf (f + 16) c @ cmd"
    using span_split [of body f lim buf] span_split [of f "f + 16" lim buf] span_split [of "f + 16" c lim buf] b sk v by simp
  moreover have "take 9 (span buf body lim) = ''response:''" using resp by (simp add: span_def min_absorb1)
  ultimately show ?thesis using v(1) sk(3) by (auto simp: rejects_def)
qed

lemma judge_sound:
  assumes "lim \<le> length buf" "body \<le> lim" "judge buf body lim cmd old = v" "v \<noteq> old"
  shows "v = GNSS_ACK_OK \<and> accepts cmd (span buf body lim) \<or> v = GNSS_ACK_REJECTED \<and> rejects cmd (span buf body lim)"
  using assms judge_no_echo_sound [of body buf lim cmd old v] judge_echo_sound [of buf lim body _ cmd old v]
  by (auto simp: judge_def split: if_splits option.splits)

text \<open>A complete record of the buffer: prefix, text and a correct checksum.\<close>

definition ack_record_at :: "string \<Rightarrow> nat \<Rightarrow> nat \<Rightarrow> nat \<Rightarrow> string \<Rightarrow> bool" where
  "ack_record_at buf n rec star t \<longleftrightarrow> star + 2 < n \<and> rec + 9 \<le> star \<and> span buf rec star = PREFIX @ t \<and>
     buf ! star = CHR ''*'' \<and> record_valid_at buf n rec star"

lemma scan_loop_sound:
  "n \<le> length buf \<Longrightarrow> scan_loop buf n cmd pos old = v \<Longrightarrow> v \<noteq> old \<Longrightarrow>
   \<exists>rec star t. ack_record_at buf n rec star t \<and>
     (v = GNSS_ACK_OK \<and> accepts cmd t \<or> v = GNSS_ACK_REJECTED \<and> rejects cmd t)"
proof (induction buf n cmd pos old rule: scan_loop.induct)
  case (1 buf n cmd pos old)
  obtain rec where rec: "find_at buf n pos PREFIX = Some rec"
    using 1(4-6) by (auto simp: scan_loop.simps [of buf n cmd pos] split: option.splits)
  let ?body = "rec + length PREFIX"
  define nxt where "nxt = find_at buf n ?body PREFIX"
  show ?case
  proof (cases "find_star buf n rec nxt ?body")
    case None
    then show ?thesis using 1(1) [OF rec refl nxt_def] 1(4-6) rec
      by (simp add: scan_loop.simps [of buf n cmd pos] Let_def nxt_def)
  next
    case (Some star)
    let ?v = "judge buf ?body star cmd old"
    have s: "?body \<le> star" "star + 2 < n" "buf ! star = CHR ''*''" "record_valid_at buf n rec star"
      using find_star_bounds [OF Some] by (auto simp: record_valid_at_def split: if_splits)
    have ns: "\<not> (\<exists>x \<in> set_option nxt. x < star)" using find_star_bounds [OF Some] by auto
    have eq: "scan_loop buf n cmd pos old = scan_loop buf n cmd star ?v"
      using rec Some ns by (simp add: scan_loop.simps [of buf n cmd pos] Let_def nxt_def)
    have pre: "span buf rec star = PREFIX @ span buf ?body star"
      using span_split [of rec ?body star buf] s(1) find_at_bounds(3) [OF rec] by (simp add: span_def)
    show ?thesis
    proof (cases "v = ?v")
      case True
      have "ack_record_at buf n rec star (span buf ?body star)"
        using s pre by (simp add: ack_record_at_def needle_lengths)
      then show ?thesis using judge_sound [of star buf ?body cmd old ?v] s(1,2) 1(4,6) True by auto
    next
      case False
      then show ?thesis using 1(3) [OF rec refl nxt_def Some ns] 1(4,5) eq by auto
    qed
  qed
qed

section \<open>Completeness for the success form\<close>

lemma find_from_skip:
  "i \<le> s \<Longrightarrow> (\<And>j. i \<le> j \<Longrightarrow> j < s \<Longrightarrow> take (length needle) (drop j hay) \<noteq> needle) \<Longrightarrow>
   find_from hay n i needle = find_from hay n s needle"
proof (induction "s - i" arbitrary: i)
  case (Suc d)
  show ?case
  proof (cases "i + length needle \<le> n")
    case True
    have "find_from hay n (i + 1) needle = find_from hay n s needle" using Suc by (intro Suc.hyps) auto
    then show ?thesis using True Suc.prems(2) [of i] Suc.hyps(2) by (simp add: find_from.simps [of hay n i])
  next
    case False
    then show ?thesis using Suc.prems(1) by (simp add: find_from.simps [of hay n i] find_from.simps [of hay n s])
  qed
qed simp

lemma find_at_first:
  assumes "i \<le> s" "needle \<noteq> []" "s + length needle \<le> n" "take (length needle) (drop s hay) = needle"
    "\<And>j. i \<le> j \<Longrightarrow> j < s \<Longrightarrow> take (length needle) (drop j hay) \<noteq> needle"
  shows "find_at hay n i needle = Some s"
  using find_from_skip [OF assms(1,5)] assms(2-4) by (simp add: find_at_def find_from.simps [of hay n s])

lemma find_at_char:
  assumes "i \<le> length xs" "hay = xs @ (c # cs) @ ys" "c \<notin> set (drop i xs)" "length xs + length (c # cs) \<le> n"
  shows "find_at hay n i (c # cs) = Some (length xs)"
proof (rule find_at_first)
  fix j assume j: "i \<le> j" "j < length xs"
  then have "xs ! j \<noteq> c" using nth_in_drop [of i j xs] assms(3) by metis
  then have "hay ! j \<noteq> c" "j < length hay" using j assms(2) by (simp_all add: nth_append)
  then show "take (length (c # cs)) (drop j hay) \<noteq> c # cs" by (rule take_drop_head [rotated])
qed (use assms in auto)

lemma find_at_no_char:
  assumes "i \<le> n" "n = length hay" "c \<notin> set (drop i hay)"
  shows "find_at hay n i (c # cs) = None"
proof -
  have "take (length (c # cs)) (drop j hay) \<noteq> c # cs" if "i \<le> j" "j < n" for j
    using that assms(2,3) nth_in_drop [of i j hay] by (intro take_drop_head) auto
  then have "find_from hay n i (c # cs) = find_from hay n n (c # cs)" using assms(1) by (intro find_from_skip) auto
  then show ?thesis by (simp add: find_at_def find_from.simps [of hay n n])
qed

definition ok_text :: "string \<Rightarrow> string" where
  "ok_text cmd = cmd @ '',response: OK''"

definition ok_buf :: "string \<Rightarrow> string \<Rightarrow> char \<Rightarrow> char \<Rightarrow> string \<Rightarrow> string" where
  "ok_buf pre cmd h1 h2 post = pre @ PREFIX @ ok_text cmd @ ''*'' @ [h1, h2] @ post"

definition plain_cmd :: "string \<Rightarrow> bool" where
  "plain_cmd cmd \<longleftrightarrow> CHR ''$'' \<notin> set cmd \<and> CHR ''*'' \<notin> set cmd \<and> CHR '':'' \<notin> set cmd"

lemma resp_unique:
  assumes "CHR '':'' \<notin> set cmd" "j < length cmd"
  shows "take 10 (drop j (cmd @ '',response: OK'' @ ys)) \<noteq> '',response:''"
proof
  let ?t = "cmd @ '',response: OK'' @ ys"
  assume a: "take 10 (drop j ?t) = '',response:''"
  have len: "j + 9 < length ?t" using assms(2) by simp
  have "take 10 (drop j ?t) ! 9 = ?t ! (j + 9)" using len by (intro nth_take_drop) auto
  then have c: "?t ! (j + 9) = CHR '':''" using a by simp
  show False
  proof (cases "j + 9 < length cmd")
    case True
    then show False using c assms(1) by (metis nth_append nth_mem)
  next
    case False
    define i where "i = j + 9 - length cmd"
    have i: "i < 9" "j + 9 = length cmd + i" using False assms(2) by (auto simp: i_def)
    then have "('',response: OK'' @ ys) ! i = CHR '':''" using c by (simp add: nth_append)
    moreover have "i \<in> {0, 1, 2, 3, 4, 5, 6, 7, 8}" using i(1) by auto
    ultimately show False by auto
  qed
qed

lemma ok_not_no_echo:
  assumes "CHR '':'' \<notin> set cmd"
  shows "take 9 (ok_text cmd @ ys) \<noteq> ''response:''"
proof
  assume a: "take 9 (ok_text cmd @ ys) = ''response:''"
  show False
  proof (cases "length cmd < 9")
    case True
    define k where "k = length cmd"
    have "take 9 (ok_text cmd @ ys) ! k = CHR '',''" using True by (simp add: ok_text_def nth_append k_def)
    moreover have "k \<in> {0, 1, 2, 3, 4, 5, 6, 7, 8}" using True unfolding k_def [symmetric] by auto
    ultimately show False unfolding a by auto
  next
    case False
    then have "cmd ! 8 = take 9 (ok_text cmd @ ys) ! 8" by (simp add: ok_text_def nth_append)
    then have "cmd ! 8 = CHR '':''" unfolding a by simp
    then show False using False assms nth_mem [of 8 cmd] by auto
  qed
qed

lemma judge_ok:
  assumes buf: "buf = pre @ PREFIX @ ok_text cmd @ rest" and "plain_cmd cmd"
    and body: "body = length pre + 9" and lim: "lim = body + length (ok_text cmd)"
  shows "judge buf body lim cmd old = GNSS_ACK_OK"
proof -
  have colon: "CHR '':'' \<notin> set cmd" using assms(2) by (simp add: plain_cmd_def)
  have db: "drop body buf = ok_text cmd @ rest" by (simp add: buf body PREFIX_def)
  have ne: "take 9 (drop body buf) \<noteq> ''response:''" using ok_not_no_echo [OF colon] by (simp add: db)
  let ?resp = "body + length cmd"
  have dr: "drop (body + j) buf = drop j (ok_text cmd @ rest)" for j
    by (metis db drop_drop add.commute)
  have find: "find_at buf lim body '',response:'' = Some ?resp"
  proof (rule find_at_first, unfold needle_lengths)
    show "take 10 (drop ?resp buf) = '',response:''" by (simp add: dr ok_text_def)
    fix j assume "body \<le> j" "j < ?resp"
    then obtain k where "j = body + k" "k < length cmd" by (metis add_less_cancel_left le_Suc_ex)
    then show "take 10 (drop j buf) \<noteq> '',response:''"
      using resp_unique [OF colon, of k rest] by (simp add: dr ok_text_def)
  qed (simp_all add: lim ok_text_def)
  have l: "lim = ?resp + 13" by (simp add: lim ok_text_def)
  have sp: "skip_spaces buf (?resp + 10) lim = ?resp + 11"
    by (simp add: skip_spaces_def span_def l add.assoc dr) (simp add: ok_text_def)
  have tr: "trim_end buf (?resp + 11) lim = lim"
    by (simp add: trim_end_def span_def l add.assoc dr) (simp add: ok_text_def)
  have ok: "span_equals buf (?resp + 11) (lim - (?resp + 11)) ''OK''"
    by (simp add: span_equals_def l add.assoc dr) (simp add: ok_text_def)
  have echo: "span_equals buf body (?resp - body) cmd"
    using dr [of 0] by (simp add: span_equals_def ok_text_def)
  have "judge_echo buf body ?resp lim cmd old = GNSS_ACK_OK"
    using echo ok by (simp only: judge_echo_def Let_def needle_lengths sp tr if_True) (simp add: l)
  then show ?thesis using ne find by (simp add: judge_def)
qed

lemma xor_at_record:
  assumes "buf = pre @ PREFIX @ ok_text cmd @ ''*'' @ [h1, h2] @ post" "n = length buf"
    "star = length pre + 9 + length (ok_text cmd)" "is_hex h1" "is_hex h2"
    "xor_bytes (PREFIX @ ok_text cmd) = push_bit 4 (hex_val h1) OR hex_val h2"
  shows "record_valid_at buf n (length pre) star"
proof -
  have d: "drop star buf = ''*'' @ [h1, h2] @ post" using assms(1,3) by (simp add: needle_lengths)
  have "buf ! (star + 1) = h1" "buf ! (star + 2) = h2"
    using nth_drop [of star buf 1] nth_drop [of star buf 2] d assms(1,3) by (simp_all add: needle_lengths)
  moreover have "span buf (length pre) star = PREFIX @ ok_text cmd"
    using assms(1,3) by (simp add: span_def needle_lengths)
  moreover have "\<not> star + 2 \<ge> n" using assms(1-3) by (simp add: needle_lengths)
  ultimately show ?thesis using assms(4-6) by (simp add: record_valid_at_def)
qed

lemma ok_scan:
  assumes cmd: "plain_cmd cmd" and noise: "CHR ''$'' \<notin> set pre" "CHR ''$'' \<notin> set post"
    and hex: "is_hex h1" "is_hex h2"
    and sum: "xor_bytes (PREFIX @ ok_text cmd) = push_bit 4 (hex_val h1) OR hex_val h2"
  shows "gnss_ack_scan (ok_buf pre cmd h1 h2 post) (length (ok_buf pre cmd h1 h2 post)) cmd = GNSS_ACK_OK"
proof -
  define buf where "buf = ok_buf pre cmd h1 h2 post"
  define n where "n = length buf"
  define body where "body = length pre + 9"
  define star where "star = body + length (ok_text cmd)"
  have buf: "buf = pre @ PREFIX @ ok_text cmd @ ''*'' @ [h1, h2] @ post" by (simp add: buf_def ok_buf_def)
  have hx: "CHR ''$'' \<noteq> h1" "CHR ''$'' \<noteq> h2" using hex by (auto simp: is_hex_def less_eq_char_def)
  have no: "CHR ''$'' \<notin> set (ok_text cmd)" "CHR ''*'' \<notin> set (ok_text cmd)" using cmd by (auto simp: plain_cmd_def ok_text_def)
  have rec: "find_at buf n 0 PREFIX = Some (length pre)"
    unfolding PREFIX_def using noise(1)
    by (intro find_at_char [where ys = "ok_text cmd @ ''*'' @ [h1, h2] @ post"]) (auto simp: buf PREFIX_def n_def)
  have nxt: "find_at buf n body PREFIX = None" "find_at buf n star PREFIX = None"
    unfolding PREFIX_def using no noise(2) hx
    by (intro find_at_no_char; auto simp: n_def buf body_def star_def needle_lengths)+
  have len: "length (pre @ PREFIX @ ok_text cmd) = star" by (simp add: star_def body_def needle_lengths)
  have "find_at buf n body ''*'' = Some star"
    using find_at_char [of body "pre @ PREFIX @ ok_text cmd" buf "CHR ''*''" "[]" "[h1, h2] @ post" n] no(2)
    unfolding len by (simp add: buf n_def star_def body_def needle_lengths)
  moreover have "record_valid_at buf n (length pre) star"
    by (rule xor_at_record [OF buf n_def _ hex sum]) (simp add: star_def body_def)
  ultimately have star: "find_star buf n (length pre) None body = Some star"
    by (simp add: find_star.simps [of buf n "length pre" None body])
  have "judge buf body star cmd GNSS_ACK_NONE = GNSS_ACK_OK"
    by (rule judge_ok [OF buf cmd body_def star_def])
  then have "scan_loop buf n cmd 0 GNSS_ACK_NONE = scan_loop buf n cmd star GNSS_ACK_OK"
    using rec nxt star by (simp add: scan_loop.simps [of buf n cmd 0] Let_def needle_lengths body_def)
  also have "\<dots> = GNSS_ACK_OK" using nxt by (simp add: scan_loop.simps [of buf n cmd star])
  finally show ?thesis by (simp add: gnss_ack_scan_def buf_def [symmetric] n_def) (simp add: buf)
qed

section \<open>Properties of the matcher\<close>

text \<open>C29: A verdict is never guessed. When the scan reports a verdict for a command, the buffer
  holds a complete record, from its prefix to its delimiter and both checksum digits, whose XOR
  checksum is correct and whose text is addressed to exactly that command: for OK the echo of the
  command followed by the verdict OK and nothing else but blanks, for REJECTED the echo followed by
  a parsing failure or the form without echo that ends in the command.\<close>

theorem gnss_ack_sound:
  assumes "n \<le> length buf" and "gnss_ack_scan buf n cmd = v" and "v \<noteq> GNSS_ACK_NONE"
  shows "\<exists>rec star t. ack_record_at buf n rec star t \<and>
    (v = GNSS_ACK_OK \<and> accepts cmd t \<or> v = GNSS_ACK_REJECTED \<and> rejects cmd t)"
  using scan_loop_sound [OF assms(1), of cmd 0 GNSS_ACK_NONE v] assms(2,3)
  by (simp add: gnss_ack_scan_def split: if_splits)

text \<open>A success is recognised. A record that echoes a command without dollar, star and colon,
  says OK and carries its checksum gives the verdict OK, whatever binary data without a dollar sign
  surrounds it.\<close>

theorem gnss_ack_complete:
  assumes "plain_cmd cmd" and "CHR ''$'' \<notin> set pre" and "CHR ''$'' \<notin> set post"
    and "is_hex h1" and "is_hex h2"
    and "xor_bytes (PREFIX @ ok_text cmd) = push_bit 4 (hex_val h1) OR hex_val h2"
  shows "gnss_ack_scan (ok_buf pre cmd h1 h2 post) (length (ok_buf pre cmd h1 h2 post)) cmd = GNSS_ACK_OK"
  using assms by (rule ok_scan)

text \<open>The record the device was seen to send, \<open>$command,VERSIONA,response: OK*45\<close>.\<close>

theorem gnss_ack_complete_witness:
  "gnss_ack_scan (ok_buf ''xy'' ''VERSIONA'' CHR ''4'' CHR ''5'' ''z'')
     (length (ok_buf ''xy'' ''VERSIONA'' CHR ''4'' CHR ''5'' ''z'')) ''VERSIONA'' = GNSS_ACK_OK"
  by (rule gnss_ack_complete) (code_simp | simp add: plain_cmd_def)+

theorem gnss_ack_sound_witness:
  "\<exists>rec star t. ack_record_at (ok_buf ''xy'' ''VERSIONA'' CHR ''4'' CHR ''5'' ''z'') 36 rec star t \<and>
    (GNSS_ACK_OK = GNSS_ACK_OK \<and> accepts ''VERSIONA'' t \<or> GNSS_ACK_OK = GNSS_ACK_REJECTED \<and> rejects ''VERSIONA'' t)"
  by (rule gnss_ack_sound) (code_simp | simp add: ok_buf_def)+

end
