(* ===== verification/Gnss_Control.thy ===== *)
theory Gnss_Control
  imports Gnss_Ack Complex_Main
begin

text \<open>
  Control of the receiver (\<open>src/main/gnss.c\<close>): the capture buffer the UART task fills, commands
  gated on their acknowledgement, the configuration of the base, the fixed coordinate with its
  idempotence gate and retry cooldown, and recovery. The bytes that arrive before each poll are an
  argument \<open>arr\<close> indexed by the number of the poll; the text of a \<open>mode base\<close> command (formatting of
  floating-point numbers) is an argument \<open>fmt\<close>. Coordinates are finite, so they are reals. The
  transaction lock makes each operation atomic against the others. Every command and its outcome,
  every hardware reset, and the calls that flush the UART and open a new epoch of the message
  evidence (\<open>ntrip_server_msg_epoch_reset\<close>) are logged.
\<close>

section \<open>State\<close>

type_synonym coord = "real \<times> real \<times> real"

datatype gnss_event = CMD string bool | QUERY string | RESET | FLUSH_UART | MSG_EPOCH_RESET

record gnss =
  gs_cap :: string
  gs_capturing :: bool
  gs_poll :: nat
  gs_log :: "gnss_event list"
  gs_notes :: nat
  s_base_acked_valid :: bool
  s_base_acked_coord :: coord
  s_base_fail_us :: int
  s_base_fail_coord :: coord
  gs_base_nvs :: "coord option"

abbreviation CAP_SZ :: nat where "CAP_SZ \<equiv> 1024"
abbreviation ACK_RETRIES :: nat where "ACK_RETRIES \<equiv> 3"
abbreviation ACK_POLLS :: nat where "ACK_POLLS \<equiv> 45"

section \<open>The capture buffer\<close>

definition gnss_ingest_uart :: "string \<Rightarrow> gnss \<Rightarrow> gnss" where
  "gnss_ingest_uart data g =
     (if \<not> gs_capturing g \<or> data = [] then g
      else let cap = (if length (gs_cap g) + length data \<ge> CAP_SZ then [] else gs_cap g)
           in g\<lparr>gs_cap := cap @ take (CAP_SZ - 1 - length cap) data\<rparr>)"

definition cap_reset :: "gnss \<Rightarrow> gnss" where
  "cap_reset g = g\<lparr>gs_cap := []\<rparr>"

definition cap_find_from :: "string \<Rightarrow> nat \<Rightarrow> nat \<Rightarrow> string \<Rightarrow> nat option" where
  "cap_find_from hay n i needle = map_option (\<lambda>s. s + length needle) (find_at hay n i needle)"

definition cap_contains :: "string \<Rightarrow> gnss \<Rightarrow> bool" where
  "cap_contains needle g \<longleftrightarrow> cap_find_from (gs_cap g) (length (gs_cap g)) 0 needle \<noteq> None"

definition cap_verdict_for :: "string \<Rightarrow> gnss \<Rightarrow> gnss_ack_verdict" where
  "cap_verdict_for cmd g = gnss_ack_scan (gs_cap g) (length (gs_cap g)) cmd"

section \<open>Commands\<close>

text \<open>A poll: the bytes that arrived before it are ingested.\<close>

definition next_poll :: "(nat \<Rightarrow> string list) \<Rightarrow> gnss \<Rightarrow> gnss" where
  "next_poll arr g = (fold gnss_ingest_uart (arr (gs_poll g)) g)\<lparr>gs_poll := gs_poll g + 1\<rparr>"

fun await_ack :: "(nat \<Rightarrow> string list) \<Rightarrow> string \<Rightarrow> nat \<Rightarrow> gnss \<Rightarrow> gnss_ack_verdict \<times> gnss" where
  "await_ack arr echo 0 g = (GNSS_ACK_NONE, g)"
| "await_ack arr echo (Suc n) g =
     (let g = next_poll arr g; verdict = cap_verdict_for echo g
      in if verdict = GNSS_ACK_NONE then await_ack arr echo n g
         else (verdict, g\<lparr>gs_notes := gs_notes g + 1\<rparr>))"

fun send_attempts :: "(nat \<Rightarrow> string list) \<Rightarrow> string \<Rightarrow> nat \<Rightarrow> gnss \<Rightarrow> bool \<times> gnss" where
  "send_attempts arr echo n g =
     (let (verdict, g) = await_ack arr echo ACK_POLLS (cap_reset g)
      in if verdict \<noteq> GNSS_ACK_NONE then (verdict = GNSS_ACK_OK, g)
         else case n of 0 \<Rightarrow> (False, g) | Suc m \<Rightarrow> send_attempts arr echo m g)"

declare send_attempts.simps [simp del]

definition cmd_echo :: "string \<Rightarrow> string" where
  "cmd_echo cmd = take 95 (rev (dropWhile (\<lambda>c. c = CHR 0x0D \<or> c = CHR 0x0A) (rev cmd)))"

definition send_cmd_acked :: "(nat \<Rightarrow> string list) \<Rightarrow> string \<Rightarrow> nat \<Rightarrow> gnss \<Rightarrow> bool \<times> gnss" where
  "send_cmd_acked arr cmd retries g =
     (let (ok, g) = send_attempts arr (cmd_echo cmd) retries g in (ok, g\<lparr>gs_log := gs_log g @ [CMD cmd ok]\<rparr>))"

section \<open>The fixed coordinate\<close>

definition gnss_coord_valid :: "real \<Rightarrow> real \<Rightarrow> bool" where
  "gnss_coord_valid lat lon =
     (if lat = 0 \<and> lon = 0 then False else lat \<ge> -90 \<and> lat \<le> 90 \<and> lon \<ge> -180 \<and> lon \<le> 180)"

definition gnss_height_valid :: "real \<Rightarrow> bool" where
  "gnss_height_valid h \<longleftrightarrow> h \<ge> -500 \<and> h \<le> 9000"

definition fix_valid :: "coord \<Rightarrow> bool" where
  "fix_valid f = (case f of (lat, lon, h) \<Rightarrow> gnss_coord_valid lat lon \<and> gnss_height_valid h)"

definition near_fix :: "coord \<Rightarrow> coord \<Rightarrow> bool" where
  "near_fix a b = (case (a, b) of ((la, lo, h), (la', lo', h')) \<Rightarrow>
     \<bar>la - la'\<bar> < 1 / 10 ^ 9 \<and> \<bar>lo - lo'\<bar> < 1 / 10 ^ 9 \<and> \<bar>h - h'\<bar> < 5 / 10 ^ 4)"

text \<open>The storage namespace: whether it opens for reading and writing, and the results of writing.\<close>

record base_store =
  bs_open_r :: bool
  bs_open_w :: bool
  bs_set :: bool
  bs_commit :: bool

definition gnss_load_fixed_base :: "base_store \<Rightarrow> gnss \<Rightarrow> coord option" where
  "gnss_load_fixed_base bs g =
     (if \<not> bs_open_r bs then None
      else case gs_base_nvs g of None \<Rightarrow> None | Some f \<Rightarrow> if fix_valid f then Some f else None)"

definition gnss_save_fixed_base :: "base_store \<Rightarrow> coord \<Rightarrow> gnss \<Rightarrow> bool \<times> gnss" where
  "gnss_save_fixed_base bs f g =
     (if \<not> bs_open_w bs then (False, g)
      else if \<not> bs_set bs then (False, g)
      else (bs_commit bs, g\<lparr>gs_base_nvs := Some f\<rparr>))"

definition gnss_base_ack_invalidate :: "gnss \<Rightarrow> gnss" where
  "gnss_base_ack_invalidate g = g\<lparr>s_base_acked_valid := False\<rparr>"

definition gnss_receiver_epoch_invalidate :: "gnss \<Rightarrow> gnss" where
  "gnss_receiver_epoch_invalidate g = (gnss_base_ack_invalidate g)\<lparr>s_base_fail_us := 0, gs_log := gs_log g @ [MSG_EPOCH_RESET]\<rparr>"

definition gnss_reset_pulse :: "gnss \<Rightarrow> gnss" where
  "gnss_reset_pulse g = gnss_receiver_epoch_invalidate (g\<lparr>gs_log := gs_log g @ [RESET, FLUSH_UART]\<rparr>)"

section \<open>Configuration of the base\<close>

definition crlf :: "string \<Rightarrow> string" where
  "crlf s = s @ [CHR 0x0D, CHR 0x0A]"

definition base_seq :: "string list" where
  "base_seq = map crlf [''unlog com1'', ''CONFIG SIGNALGROUP 2'', ''CONFIG UNDULATION 0.0'', ''MASK 10.0'',
     ''rtcm1077,com1,1'', ''rtcm1087,com1,1'', ''rtcm1097,com1,1'', ''rtcm1117,com1,1'', ''rtcm1127,com1,1'',
     ''rtcm1137,com1,1'', ''rtcm1005,com1,10'', ''rtcm1033,com1,10'', ''rtcm1230,com1,10'']"

definition SURVEY_CMD :: string where
  "SURVEY_CMD = crlf ''mode base time 300 1.5''"

fun send_all :: "(nat \<Rightarrow> string list) \<Rightarrow> string list \<Rightarrow> nat \<times> gnss \<Rightarrow> nat \<times> gnss" where
  "send_all arr [] st = st"
| "send_all arr (c # cs) st =
     (let (ok, g) = send_cmd_acked arr c ACK_RETRIES (snd st)
      in send_all arr cs (if ok then fst st + 1 else fst st, g))"

definition config_base_mode ::
  "(coord \<Rightarrow> string) \<Rightarrow> (nat \<Rightarrow> string list) \<Rightarrow> base_store \<Rightarrow> gnss \<Rightarrow> bool \<times> gnss" where
  "config_base_mode fmt arr bs g =
     (case gnss_load_fixed_base bs g of
        Some f \<Rightarrow>
          let (ok, g) = send_cmd_acked arr (fmt f) ACK_RETRIES g
          in (ok, if ok then g\<lparr>s_base_acked_valid := True, s_base_acked_coord := f\<rparr>
                  else g\<lparr>s_base_acked_valid := False\<rparr>)
      | None \<Rightarrow> send_cmd_acked arr SURVEY_CMD ACK_RETRIES (gnss_base_ack_invalidate g))"

text \<open>The result is the number of acknowledged commands and of all commands.\<close>

definition config_gnss_base ::
  "(coord \<Rightarrow> string) \<Rightarrow> (nat \<Rightarrow> string list) \<Rightarrow> base_store \<Rightarrow> gnss \<Rightarrow> (nat \<times> nat) \<times> gnss" where
  "config_gnss_base fmt arr bs g =
     (let total = length base_seq + 2;
          (ok, g) = send_all arr base_seq (0, g\<lparr>gs_capturing := True\<rparr>);
          (mode_ok, g) = config_base_mode fmt arr bs g;
          ok = (if mode_ok then ok + 1 else ok);
          (save_ok, g) = send_cmd_acked arr (crlf ''saveconfig'') ACK_RETRIES g;
          ok = (if save_ok then ok + 1 else ok)
      in ((ok, total), g\<lparr>gs_capturing := False\<rparr>))"

abbreviation GNSS_BASE_RETRY_COOLDOWN_US :: int where "GNSS_BASE_RETRY_COOLDOWN_US \<equiv> 60000000"

text \<open>Applying a coordinate; \<open>t2\<close> is the time at which a failure is stamped.\<close>

definition apply_fixed_base ::
  "(coord \<Rightarrow> string) \<Rightarrow> (nat \<Rightarrow> string list) \<Rightarrow> base_store \<Rightarrow> int \<Rightarrow> coord \<Rightarrow> gnss \<Rightarrow> bool \<times> gnss" where
  "apply_fixed_base fmt arr bs t2 f g =
     (let g = g\<lparr>gs_capturing := True\<rparr>;
          g = snd (send_cmd_acked arr (crlf ''CONFIG UNDULATION 0.0'') ACK_RETRIES g);
          (acked, g) = send_cmd_acked arr (fmt f) ACK_RETRIES g;
          (ok, g) = (if acked then send_cmd_acked arr (crlf ''saveconfig'') ACK_RETRIES g else (False, g));
          g = g\<lparr>gs_capturing := False\<rparr>;
          g = (if acked then g\<lparr>s_base_acked_valid := True, s_base_acked_coord := f\<rparr>
               else g\<lparr>s_base_acked_valid := False\<rparr>);
          g = (if \<not> ok then g\<lparr>s_base_fail_us := t2, s_base_fail_coord := f\<rparr> else g\<lparr>s_base_fail_us := 0\<rparr>)
      in (ok, if ok then snd (gnss_save_fixed_base bs f g) else g))"

definition gnss_set_fixed_base ::
  "(coord \<Rightarrow> string) \<Rightarrow> (nat \<Rightarrow> string list) \<Rightarrow> base_store \<Rightarrow> int \<Rightarrow> int \<Rightarrow> coord \<Rightarrow> gnss \<Rightarrow> bool \<times> gnss" where
  "gnss_set_fixed_base fmt arr bs t1 t2 f g =
     (if \<not> fix_valid f then (False, g)
      else if s_base_acked_valid g \<and> near_fix (s_base_acked_coord g) f
      then (True,
            case gnss_load_fixed_base bs g of
              None \<Rightarrow> snd (gnss_save_fixed_base bs f g)
            | Some nv \<Rightarrow> if near_fix nv f then g else snd (gnss_save_fixed_base bs f g))
      else if s_base_fail_us g \<noteq> 0 \<and> near_fix (s_base_fail_coord g) f \<and>
              t1 - s_base_fail_us g < GNSS_BASE_RETRY_COOLDOWN_US
      then (False, g)
      else apply_fixed_base fmt arr bs t2 f g)"

definition gnss_recover :: "(coord \<Rightarrow> string) \<Rightarrow> (nat \<Rightarrow> string list) \<Rightarrow> base_store \<Rightarrow> gnss \<Rightarrow> gnss" where
  "gnss_recover fmt arr bs g = snd (config_gnss_base fmt arr bs (gnss_reset_pulse g))"

text \<open>The version query waits for at most a hundred polls; the result is what is reported.\<close>

fun await_version :: "(nat \<Rightarrow> string list) \<Rightarrow> nat \<Rightarrow> gnss \<Rightarrow> gnss" where
  "await_version arr 0 g = g"
| "await_version arr (Suc n) g =
     (let g = next_poll arr g in if cap_contains ''VERSION'' g then g else await_version arr n g)"

definition gnss_log_version :: "(nat \<Rightarrow> string list) \<Rightarrow> gnss \<Rightarrow> string \<times> gnss" where
  "gnss_log_version arr g =
     (let g = await_version arr 100 ((cap_reset (g\<lparr>gs_capturing := True\<rparr>))\<lparr>gs_log := gs_log g @ [QUERY (crlf ''VERSIONA'')]\<rparr>);
          text = map (\<lambda>c. if c = CHR 0x0D \<or> c = CHR 0x0A then CHR '' '' else c) (gs_cap g)
      in (if text = [] then ''none'' else text, g\<lparr>gs_capturing := False\<rparr>))"

definition gnss_init :: "(coord \<Rightarrow> string) \<Rightarrow> (nat \<Rightarrow> string list) \<Rightarrow> base_store \<Rightarrow> gnss \<Rightarrow> gnss" where
  "gnss_init fmt arr bs g =
     (let g = gnss_reset_pulse g; g = snd (config_gnss_base fmt arr bs g) in snd (gnss_log_version arr g))"

section \<open>What the operations keep\<close>

text \<open>Two states that agree on everything but the capture buffer and its bookkeeping.\<close>

definition same_base :: "gnss \<Rightarrow> gnss \<Rightarrow> bool" where
  "same_base g h \<longleftrightarrow> s_base_acked_valid h = s_base_acked_valid g \<and> s_base_acked_coord h = s_base_acked_coord g \<and>
     s_base_fail_us h = s_base_fail_us g \<and> s_base_fail_coord h = s_base_fail_coord g \<and>
     gs_base_nvs h = gs_base_nvs g \<and> gs_capturing h = gs_capturing g"

lemma same_base_refl [simp]: "same_base g g" by (simp add: same_base_def)

lemma same_base_trans: "same_base g h \<Longrightarrow> same_base h k \<Longrightarrow> same_base g k"
  by (simp add: same_base_def)

lemma ingest_same [simp]: "same_base g (gnss_ingest_uart d g)" "gs_log (gnss_ingest_uart d g) = gs_log g"
  "gs_poll (gnss_ingest_uart d g) = gs_poll g"
  by (simp_all add: gnss_ingest_uart_def same_base_def Let_def)

lemma ingest_all_same: "same_base g (fold gnss_ingest_uart ds g) \<and> gs_log (fold gnss_ingest_uart ds g) = gs_log g \<and>
    gs_poll (fold gnss_ingest_uart ds g) = gs_poll g"
  by (induction ds arbitrary: g) (auto intro: same_base_trans ingest_same)

lemma poll_same: "same_base g (next_poll arr g) \<and> gs_log (next_poll arr g) = gs_log g \<and> gs_poll (next_poll arr g) = gs_poll g + 1"
  using ingest_all_same [of g "arr (gs_poll g)"] by (simp add: next_poll_def same_base_def)

lemma await_same: "await_ack arr echo n g = (v, h) \<Longrightarrow> same_base g h \<and> gs_log h = gs_log g"
proof (induction n arbitrary: g)
  case (Suc n)
  have p: "same_base g (next_poll arr g)" "gs_log (next_poll arr g) = gs_log g" using poll_same by auto
  show ?case
  proof (cases "cap_verdict_for echo (next_poll arr g) = GNSS_ACK_NONE")
    case True
    then have "await_ack arr echo n (next_poll arr g) = (v, h)" using Suc.prems by simp
    from Suc.IH [OF this] show ?thesis using p same_base_trans by auto
  next
    case False
    then have "h = next_poll arr g\<lparr>gs_notes := gs_notes (next_poll arr g) + 1\<rparr>" using Suc.prems by (simp add: Let_def)
    then show ?thesis using p by (simp add: same_base_def)
  qed
qed simp

lemma reset_same: "same_base g (cap_reset g)" "gs_log (cap_reset g) = gs_log g" "gs_poll (cap_reset g) = gs_poll g"
  by (simp_all add: cap_reset_def same_base_def)

lemma attempts_same: "send_attempts arr echo n g = (ok, h) \<Longrightarrow> same_base g h \<and> gs_log h = gs_log g"
proof (induction n arbitrary: g)
  case 0
  then show ?case using await_same [of arr echo ACK_POLLS "cap_reset g"] reset_same [of g] same_base_trans
    by (auto simp: send_attempts.simps [of arr echo 0] split: prod.splits if_splits)
next
  case (Suc n)
  obtain v k where k: "await_ack arr echo ACK_POLLS (cap_reset g) = (v, k)"
    by (cases "await_ack arr echo ACK_POLLS (cap_reset g)")
  have gk: "same_base g k" "gs_log k = gs_log g"
    using await_same [OF k] reset_same [of g] same_base_trans by auto
  show ?case
  proof (cases "v = GNSS_ACK_NONE")
    case True
    then have "send_attempts arr echo n k = (ok, h)"
      using Suc.prems k by (simp add: send_attempts.simps [of arr echo "Suc n"])
    from Suc.IH [OF this] show ?thesis using gk same_base_trans by auto
  next
    case False
    then show ?thesis using Suc.prems k gk by (simp add: send_attempts.simps [of arr echo "Suc n"])
  qed
qed

lemma send_same:
  assumes "send_cmd_acked arr cmd n g = (ok, h)" shows "same_base g h" "gs_log h = gs_log g @ [CMD cmd ok]"
  using assms attempts_same [of arr "cmd_echo cmd" n g]
  by (auto simp: send_cmd_acked_def same_base_def split: prod.splits)

lemma send_all_same:
  "send_all arr cs (k, g) = (m, h) \<Longrightarrow> same_base g h \<and> (\<exists>es. gs_log h = gs_log g @ es \<and> set es \<subseteq> {CMD c ok | c ok. c \<in> set cs})"
proof (induction cs arbitrary: k g)
  case Nil
  then show ?case by (auto intro: exI [of _ "[]"])
next
  case (Cons c cs)
  obtain ok t where t: "send_cmd_acked arr c ACK_RETRIES g = (ok, t)" by (cases "send_cmd_acked arr c ACK_RETRIES g")
  have "send_all arr cs (if ok then k + 1 else k, t) = (m, h)" using Cons.prems t by (cases ok) simp_all
  from Cons.IH [OF this] obtain es where "same_base t h" "gs_log h = gs_log t @ es" "set es \<subseteq> {CMD c ok | c ok. c \<in> set cs}" by auto
  then show ?case using send_same [OF t] same_base_trans
    by (intro conjI exI [of _ "CMD c ok # es"]) auto
qed

section \<open>The latch tells the truth\<close>

text \<open>
  The mode command the receiver acknowledged last, read from the log: a reset, or a later mode
  command without an acknowledgement, leaves it unknown.
\<close>

definition is_mode :: "string \<Rightarrow> bool" where
  "is_mode c \<longleftrightarrow> take 10 c = ''mode base ''"

definition mode_after :: "gnss_event \<Rightarrow> string option \<Rightarrow> string option" where
  "mode_after e m = (case e of RESET \<Rightarrow> None | CMD c ok \<Rightarrow> if is_mode c then if ok then Some c else None else m | _ \<Rightarrow> m)"

definition receiver_mode :: "gnss_event list \<Rightarrow> string option" where
  "receiver_mode es = fold mode_after es None"

lemma mode_snoc [simp]: "receiver_mode (es @ [e]) = mode_after e (receiver_mode es)"
  by (simp add: receiver_mode_def)

lemma mode_append_other: "set es \<subseteq> {CMD c ok | c ok. \<not> is_mode c} \<Longrightarrow> receiver_mode (es0 @ es) = receiver_mode es0"
  by (induction es rule: rev_induct) (auto simp: mode_after_def simp flip: append_assoc)

lemma other_cmds [simp]:
  "\<not> is_mode (crlf ''saveconfig'')" "\<not> is_mode (crlf ''CONFIG UNDULATION 0.0'')" "is_mode SURVEY_CMD"
  by (simp_all add: is_mode_def crlf_def SURVEY_CMD_def)

lemma seq_cmds: "c \<in> set base_seq \<Longrightarrow> \<not> is_mode c"
  by (auto simp: base_seq_def is_mode_def crlf_def)

text \<open>The commands that may put the receiver into a base mode.\<close>

definition sane_mode :: "(coord \<Rightarrow> string) \<Rightarrow> string \<Rightarrow> bool" where
  "sane_mode fmt c \<longleftrightarrow> c = SURVEY_CMD \<or> (\<exists>f. fix_valid f \<and> c = fmt f)"

lemma sane_modeI [simp]: "sane_mode fmt SURVEY_CMD" "fix_valid f \<Longrightarrow> sane_mode fmt (fmt f)"
  by (auto simp: sane_mode_def simp del: split_paired_Ex)

definition mode_ok :: "(coord \<Rightarrow> string) \<Rightarrow> gnss_event list \<Rightarrow> bool" where
  "mode_ok fmt es \<longleftrightarrow> (\<forall>c ok. CMD c ok \<in> set es \<and> is_mode c \<longrightarrow> sane_mode fmt c)"

definition gnss_inv :: "(coord \<Rightarrow> string) \<Rightarrow> gnss \<Rightarrow> bool" where
  "gnss_inv fmt g \<longleftrightarrow>
     (s_base_acked_valid g \<longrightarrow> fix_valid (s_base_acked_coord g) \<and>
        receiver_mode (gs_log g) = Some (fmt (s_base_acked_coord g))) \<and>
     mode_ok fmt (gs_log g)"

definition fmt_law :: "(coord \<Rightarrow> string) \<Rightarrow> bool" where
  "fmt_law fmt \<longleftrightarrow> (\<forall>f. is_mode (fmt f))"

lemma fmt_is_mode: "fmt_law fmt \<Longrightarrow> is_mode (fmt f)"
  by (simp add: fmt_law_def del: split_paired_All)

lemma inv_same: "gnss_inv fmt g \<Longrightarrow> same_base g h \<Longrightarrow> gs_log h = gs_log g \<Longrightarrow> gnss_inv fmt h"
  by (simp add: gnss_inv_def same_base_def)

lemma inv_other_cmd:
  assumes "gnss_inv fmt g" "send_cmd_acked arr c n g = (ok, h)" "\<not> is_mode c" shows "gnss_inv fmt h"
  using assms(1,3) send_same [OF assms(2)]
  by (auto simp: gnss_inv_def same_base_def mode_after_def mode_ok_def)

lemma inv_send_all:
  assumes "gnss_inv fmt g" "send_all arr cs (k, g) = (m, h)" "\<forall>c \<in> set cs. \<not> is_mode c" shows "gnss_inv fmt h"
proof -
  obtain es where es: "same_base g h" "gs_log h = gs_log g @ es" "set es \<subseteq> {CMD c ok | c ok. c \<in> set cs}"
    using send_all_same [OF assms(2)] by blast
  have o: "set es \<subseteq> {CMD c ok | c ok. \<not> is_mode c}" using es(3) assms(3) by auto
  then have "\<And>c ok. CMD c ok \<in> set es \<Longrightarrow> \<not> is_mode c" by auto
  then show ?thesis using assms(1) es(1,2) mode_append_other [OF o, of "gs_log g"]
    by (auto simp: gnss_inv_def same_base_def mode_ok_def)
qed

text \<open>A mode command for a valid coordinate, with the latch set exactly on its acknowledgement.\<close>

lemma inv_mode_cmd:
  assumes "gnss_inv fmt g" "fmt_law fmt" "send_cmd_acked arr (fmt f) n g = (ok, h)" "fix_valid f"
  shows "gnss_inv fmt (if ok then h\<lparr>s_base_acked_valid := True, s_base_acked_coord := f\<rparr> else h\<lparr>s_base_acked_valid := False\<rparr>)"
  using assms(1,2,4) send_same [OF assms(3)]
  by (auto simp: gnss_inv_def mode_after_def mode_ok_def fmt_is_mode)

lemma load_valid: "gnss_load_fixed_base bs g = Some f \<Longrightarrow> fix_valid f"
  by (auto simp: gnss_load_fixed_base_def split: if_splits option.splits)

lemma inv_base_mode:
  assumes "gnss_inv fmt g" "fmt_law fmt" shows "gnss_inv fmt (snd (config_base_mode fmt arr bs g))"
proof (cases "gnss_load_fixed_base bs g")
  case (Some f)
  obtain ok h where h: "send_cmd_acked arr (fmt f) ACK_RETRIES g = (ok, h)" by (cases "send_cmd_acked arr (fmt f) ACK_RETRIES g")
  show ?thesis using inv_mode_cmd [OF assms h load_valid [OF Some]] Some h by (simp add: config_base_mode_def)
next
  case None
  let ?g = "gnss_base_ack_invalidate g"
  obtain ok h where h: "send_cmd_acked arr SURVEY_CMD ACK_RETRIES ?g = (ok, h)"
    by (cases "send_cmd_acked arr SURVEY_CMD ACK_RETRIES ?g")
  have "gnss_inv fmt h" using assms(1) send_same [OF h]
    by (auto simp: gnss_inv_def same_base_def gnss_base_ack_invalidate_def mode_ok_def)
  then show ?thesis using None h by (simp add: config_base_mode_def)
qed

lemma inv_capturing [simp]: "gnss_inv fmt (g\<lparr>gs_capturing := b\<rparr>) = gnss_inv fmt g"
  by (simp add: gnss_inv_def)

lemma inv_config:
  assumes "gnss_inv fmt g" "fmt_law fmt" shows "gnss_inv fmt (snd (config_gnss_base fmt arr bs g))"
proof -
  obtain k a where a: "send_all arr base_seq (0, g\<lparr>gs_capturing := True\<rparr>) = (k, a)"
    by (cases "send_all arr base_seq (0, g\<lparr>gs_capturing := True\<rparr>)")
  have ia: "gnss_inv fmt a" using inv_send_all [OF _ a] seq_cmds assms(1) by simp
  obtain ok b where b: "config_base_mode fmt arr bs a = (ok, b)" by (cases "config_base_mode fmt arr bs a")
  have ib: "gnss_inv fmt b" using inv_base_mode [OF ia assms(2), of arr bs] b by simp
  obtain sv c where c: "send_cmd_acked arr (crlf ''saveconfig'') ACK_RETRIES b = (sv, c)"
    by (cases "send_cmd_acked arr (crlf ''saveconfig'') ACK_RETRIES b")
  have "gnss_inv fmt c" using inv_other_cmd [OF ib c] by simp
  then show ?thesis using a b c by (simp add: config_gnss_base_def Let_def)
qed

lemma inv_reset: "gnss_inv fmt g \<Longrightarrow> gnss_inv fmt (gnss_reset_pulse g)"
  by (auto simp: gnss_inv_def gnss_reset_pulse_def gnss_receiver_epoch_invalidate_def gnss_base_ack_invalidate_def mode_ok_def)

lemma version_same: "same_base h (await_version arr n h) \<and> gs_log (await_version arr n h) = gs_log h"
proof (induction n arbitrary: h)
  case (Suc n)
  show ?case using Suc.IH [of "next_poll arr h"] poll_same [of h arr] same_base_trans [of h "next_poll arr h"]
    by (simp add: Let_def)
qed simp

lemma inv_version: "gnss_inv fmt g \<Longrightarrow> gnss_inv fmt (snd (gnss_log_version arr g))"
proof -
  assume i: "gnss_inv fmt g"
  let ?g = "(cap_reset (g\<lparr>gs_capturing := True\<rparr>))\<lparr>gs_log := gs_log g @ [QUERY (crlf ''VERSIONA'')]\<rparr>"
  have "gnss_inv fmt ?g" using i by (auto simp: gnss_inv_def cap_reset_def mode_after_def mode_ok_def)
  then have "gnss_inv fmt (await_version arr 100 ?g)"
    by (rule inv_same) (use version_same [of ?g arr 100] in auto)
  then show ?thesis by (simp add: gnss_log_version_def Let_def)
qed

lemma inv_fail [simp]:
  "gnss_inv fmt (g\<lparr>s_base_fail_us := t, s_base_fail_coord := f\<rparr>) = gnss_inv fmt g"
  "gnss_inv fmt (g\<lparr>s_base_fail_us := t\<rparr>) = gnss_inv fmt g" "gnss_inv fmt (g\<lparr>gs_base_nvs := x\<rparr>) = gnss_inv fmt g"
  by (simp_all add: gnss_inv_def)

lemma inv_save: "gnss_inv fmt g \<Longrightarrow> gnss_inv fmt (snd (gnss_save_fixed_base bs f g))"
  by (simp add: gnss_save_fixed_base_def)

text \<open>The steps of applying a coordinate, named.\<close>

lemma apply_cases:
  assumes "apply_fixed_base fmt arr bs t2 f g = (ok, h)"
  obtains (steps) u a acked b c where
    "send_cmd_acked arr (crlf ''CONFIG UNDULATION 0.0'') ACK_RETRIES (g\<lparr>gs_capturing := True\<rparr>) = (u, a)"
    "send_cmd_acked arr (fmt f) ACK_RETRIES a = (acked, b)"
    "if acked then send_cmd_acked arr (crlf ''saveconfig'') ACK_RETRIES b = (ok, c) else \<not> ok \<and> c = b"
    "h = (let k = (if acked then c\<lparr>gs_capturing := False, s_base_acked_valid := True, s_base_acked_coord := f\<rparr>
                   else c\<lparr>gs_capturing := False, s_base_acked_valid := False\<rparr>)
          in if ok then snd (gnss_save_fixed_base bs f (k\<lparr>s_base_fail_us := 0\<rparr>))
             else k\<lparr>s_base_fail_us := t2, s_base_fail_coord := f\<rparr>)"
proof -
  obtain u a where a: "send_cmd_acked arr (crlf ''CONFIG UNDULATION 0.0'') ACK_RETRIES (g\<lparr>gs_capturing := True\<rparr>) = (u, a)"
    by (cases "send_cmd_acked arr (crlf ''CONFIG UNDULATION 0.0'') ACK_RETRIES (g\<lparr>gs_capturing := True\<rparr>)")
  obtain acked b where b: "send_cmd_acked arr (fmt f) ACK_RETRIES a = (acked, b)"
    by (cases "send_cmd_acked arr (fmt f) ACK_RETRIES a")
  obtain k c where c: "(if acked then send_cmd_acked arr (crlf ''saveconfig'') ACK_RETRIES b else (False, b)) = (k, c)"
    by (cases "if acked then send_cmd_acked arr (crlf ''saveconfig'') ACK_RETRIES b else (False, b)")
  have k: "k = ok" using assms a b c by (simp add: apply_fixed_base_def Let_def)
  show ?thesis
    by (rule steps [OF a b]) (use assms a b c k in \<open>auto simp: apply_fixed_base_def Let_def split: if_splits\<close>)
qed

lemma inv_apply:
  assumes "gnss_inv fmt g" "fmt_law fmt" "fix_valid f" "apply_fixed_base fmt arr bs t2 f g = (ok, h)"
  shows "gnss_inv fmt h"
  using assms(4)
proof (cases rule: apply_cases)
  case (steps u a acked b c)
  have ia: "gnss_inv fmt a" using inv_other_cmd [OF _ steps(1)] assms(1) by simp
  have ib: "gnss_inv fmt (if acked then b\<lparr>s_base_acked_valid := True, s_base_acked_coord := f\<rparr> else b\<lparr>s_base_acked_valid := False\<rparr>)"
    by (rule inv_mode_cmd [OF ia assms(2) steps(2) assms(3)])
  have ic: "gnss_inv fmt (if acked then c\<lparr>s_base_acked_valid := True, s_base_acked_coord := f\<rparr> else c\<lparr>s_base_acked_valid := False\<rparr>)"
  proof (cases acked)
    case True
    then show ?thesis using ib send_same [of arr _ _ b ok c] steps(3)
      by (auto simp: gnss_inv_def mode_after_def mode_ok_def)
  next
    case False
    then show ?thesis using ib steps(3) by simp
  qed
  have e: "(c\<lparr>gs_capturing := False, s_base_acked_valid := True, s_base_acked_coord := f\<rparr>) =
      (c\<lparr>s_base_acked_valid := True, s_base_acked_coord := f\<rparr>)\<lparr>gs_capturing := False\<rparr>"
    "(c\<lparr>gs_capturing := False, s_base_acked_valid := False\<rparr>) = (c\<lparr>s_base_acked_valid := False\<rparr>)\<lparr>gs_capturing := False\<rparr>" by simp_all
  show ?thesis unfolding steps(4) e Let_def using ic inv_save by (auto simp del: gnss.simps split: if_splits)
qed

lemma inv_set:
  assumes "gnss_inv fmt g" "fmt_law fmt" shows "gnss_inv fmt (snd (gnss_set_fixed_base fmt arr bs t1 t2 f g))"
proof (cases "apply_fixed_base fmt arr bs t2 f g")
  case (Pair ok h)
  then show ?thesis using assms inv_apply [OF assms _ Pair] inv_save [OF assms(1)]
    by (auto simp: gnss_set_fixed_base_def split: option.splits)
qed

lemma inv_recover: "gnss_inv fmt g \<Longrightarrow> fmt_law fmt \<Longrightarrow> gnss_inv fmt (gnss_recover fmt arr bs g)"
  by (simp add: gnss_recover_def inv_config inv_reset)

lemma inv_init: "gnss_inv fmt g \<Longrightarrow> fmt_law fmt \<Longrightarrow> gnss_inv fmt (gnss_init fmt arr bs g)"
  by (simp add: gnss_init_def Let_def inv_config inv_reset inv_version)

section \<open>The capture buffer stays within its array\<close>

definition cap_ok :: "gnss \<Rightarrow> bool" where
  "cap_ok g \<longleftrightarrow> length (gs_cap g) < CAP_SZ"

named_theorems cap_simps

lemma cap_ok_reset [cap_simps]: "cap_ok (cap_reset g)"
  by (simp add: cap_ok_def cap_reset_def)

lemma cap_ok_other [cap_simps]:
  "cap_ok (g\<lparr>gs_capturing := b\<rparr>) = cap_ok g" "cap_ok (g\<lparr>gs_log := l\<rparr>) = cap_ok g" "cap_ok (g\<lparr>gs_notes := k\<rparr>) = cap_ok g"
  "cap_ok (g\<lparr>s_base_acked_valid := b\<rparr>) = cap_ok g" "cap_ok (g\<lparr>s_base_acked_coord := c\<rparr>) = cap_ok g"
  "cap_ok (g\<lparr>s_base_fail_us := t\<rparr>) = cap_ok g" "cap_ok (g\<lparr>s_base_fail_coord := c\<rparr>) = cap_ok g"
  "cap_ok (g\<lparr>gs_base_nvs := x\<rparr>) = cap_ok g" "cap_ok (g\<lparr>gs_poll := p\<rparr>) = cap_ok g"
  by (simp_all add: cap_ok_def)

lemma cap_ok_ingest: "cap_ok g \<Longrightarrow> cap_ok (gnss_ingest_uart d g)"
  by (auto simp: gnss_ingest_uart_def cap_ok_def Let_def)

lemma cap_ok_ingest_all: "cap_ok g \<Longrightarrow> cap_ok (fold gnss_ingest_uart ds g)"
  by (induction ds arbitrary: g) (simp_all add: cap_ok_ingest)

lemma cap_ok_poll: "cap_ok g \<Longrightarrow> cap_ok (next_poll arr g)"
  by (simp add: next_poll_def cap_simps cap_ok_ingest_all)

lemma cap_ok_await: "cap_ok g \<Longrightarrow> cap_ok (snd (await_ack arr echo n g))"
  by (induction n arbitrary: g) (simp_all add: Let_def cap_ok_poll cap_simps)

lemma cap_ok_attempts: "cap_ok (snd (send_attempts arr echo n g))"
proof (induction n arbitrary: g)
  case 0
  then show ?case using cap_ok_await [OF cap_ok_reset, of arr echo ACK_POLLS g]
    by (simp add: send_attempts.simps [of arr echo 0] split_beta)
next
  case (Suc n)
  then show ?case using cap_ok_await [OF cap_ok_reset, of arr echo ACK_POLLS g]
    by (simp add: send_attempts.simps [of arr echo "Suc n"] split_beta)
qed

lemma cap_ok_send [cap_simps]: "cap_ok (snd (send_cmd_acked arr c n g))"
  using cap_ok_attempts [of arr "cmd_echo c" n g] by (simp add: send_cmd_acked_def split_beta cap_simps)

lemma cap_ok_config: "cap_ok (snd (config_gnss_base fmt arr bs g))"
  by (simp add: config_gnss_base_def Let_def split_beta cap_simps)

lemma cap_ok_save [cap_simps]: "cap_ok (snd (gnss_save_fixed_base bs f g)) = cap_ok g"
  by (simp add: gnss_save_fixed_base_def cap_simps)

lemma cap_ok_apply: "cap_ok (snd (apply_fixed_base fmt arr bs t f g))"
  by (simp add: apply_fixed_base_def Let_def split_beta cap_simps)

lemma cap_ok_set: "cap_ok g \<Longrightarrow> cap_ok (snd (gnss_set_fixed_base fmt arr bs t1 t2 f g))"
  by (simp add: gnss_set_fixed_base_def cap_ok_apply cap_simps split: option.splits)

lemma cap_ok_await_version: "cap_ok g \<Longrightarrow> cap_ok (await_version arr n g)"
  by (induction n arbitrary: g) (simp_all add: Let_def cap_ok_poll)

lemma cap_ok_version: "cap_ok (snd (gnss_log_version arr g))"
  by (simp add: gnss_log_version_def Let_def cap_simps cap_ok_await_version)

section \<open>The machine\<close>

text \<open>
  The operations other tasks call, in any order: chunks of the receiver's output outside a
  transaction, configuration, a coordinate from the caster, recovery, boot and the version query.
\<close>

inductive gnss_step :: "(coord \<Rightarrow> string) \<Rightarrow> gnss \<Rightarrow> gnss \<Rightarrow> bool" for fmt where
  chunk: "gnss_step fmt g (gnss_ingest_uart d g)"
| config: "gnss_step fmt g (snd (config_gnss_base fmt arr bs g))"
| push: "gnss_step fmt g (snd (gnss_set_fixed_base fmt arr bs t1 t2 f g))"
| recover: "gnss_step fmt g (gnss_recover fmt arr bs g)"
| boot: "gnss_step fmt g (gnss_init fmt arr bs g)"
| version: "gnss_step fmt g (snd (gnss_log_version arr g))"

definition gnss_boot :: "gnss \<Rightarrow> bool" where
  "gnss_boot g \<longleftrightarrow> \<not> s_base_acked_valid g \<and> s_base_fail_us g = 0 \<and> gs_cap g = [] \<and> \<not> gs_capturing g \<and>
     gs_log g = [] \<and> gs_notes g = 0"

interpretation gnss_machine: machine_invariant gnss_boot "gnss_step fmt" "\<lambda>g. cap_ok g \<and> (fmt_law fmt \<longrightarrow> gnss_inv fmt g)"
proof
  show "cap_ok g \<and> (fmt_law fmt \<longrightarrow> gnss_inv fmt g)" if "gnss_boot g" for g
    using that by (simp add: gnss_boot_def cap_ok_def gnss_inv_def mode_ok_def)
next
  show "cap_ok h \<and> (fmt_law fmt \<longrightarrow> gnss_inv fmt h)"
    if "cap_ok g \<and> (fmt_law fmt \<longrightarrow> gnss_inv fmt g)" "gnss_step fmt g h" for g h
    using that(2,1)
  proof cases
    case (chunk d)
    then show ?thesis using that(1) inv_same [of fmt g] by (simp add: cap_ok_ingest)
  qed (auto simp: cap_ok_config cap_ok_set cap_ok_version gnss_recover_def gnss_init_def Let_def
      intro!: inv_config inv_set inv_reset inv_version)
qed

section \<open>Freshness of an acknowledgement\<close>

text \<open>What the capture buffer holds after the polls from \<open>p\<close> up to \<open>q\<close>, when it was empty before.\<close>

definition reply :: "(nat \<Rightarrow> string list) \<Rightarrow> nat \<Rightarrow> nat \<Rightarrow> gnss \<Rightarrow> string" where
  "reply arr p q g = gs_cap (fold gnss_ingest_uart (concat (map arr [p..<q])) (cap_reset g))"

lemma ingest_cap_cong:
  "gs_cap g = gs_cap h \<Longrightarrow> gs_capturing g = gs_capturing h \<Longrightarrow>
   gs_cap (fold gnss_ingest_uart ds g) = gs_cap (fold gnss_ingest_uart ds h)"
proof (induction ds arbitrary: g h)
  case (Cons d ds)
  show ?case using Cons.prems ingest_same(1) [of _ d]
    by (simp, intro Cons.IH) (simp_all add: gnss_ingest_uart_def Let_def)
qed simp

lemma reply_cong: "gs_capturing g = gs_capturing h \<Longrightarrow> reply arr p q g = reply arr p q h"
  unfolding reply_def by (rule ingest_cap_cong) (simp_all add: cap_reset_def)

lemma reply_poll:
  assumes "gs_cap g = reply arr p (gs_poll g) k" "gs_capturing g = gs_capturing k" "p \<le> gs_poll g"
  shows "gs_cap (next_poll arr g) = reply arr p (gs_poll g + 1) k"
proof -
  let ?h = "fold gnss_ingest_uart (concat (map arr [p..<gs_poll g])) (cap_reset k)"
  have "gs_capturing ?h = gs_capturing g"
    using ingest_all_same [of "cap_reset k" "concat (map arr [p..<gs_poll g])"] assms(2)
    by (simp add: same_base_def cap_reset_def)
  then have "gs_cap (fold gnss_ingest_uart (arr (gs_poll g)) g) = gs_cap (fold gnss_ingest_uart (arr (gs_poll g)) ?h)"
    using assms(1) by (intro ingest_cap_cong) (simp_all add: reply_def)
  then show ?thesis using assms(3) by (simp add: next_poll_def reply_def)
qed

lemma scan_ok:
  assumes "gnss_ack_scan buf (length buf) cmd = GNSS_ACK_OK"
  shows "\<exists>rec star t. ack_record_at buf (length buf) rec star t \<and> accepts cmd t"
  using scan_loop_sound [OF order_refl, of buf cmd 0 GNSS_ACK_NONE GNSS_ACK_OK] assms
  by (auto simp: gnss_ack_scan_def split: if_splits)

lemma await_fresh:
  assumes "await_ack arr echo n g = (v, h)" "gs_cap g = reply arr p (gs_poll g) k" "gs_capturing g = gs_capturing k"
    "p \<le> gs_poll g"
  shows "gs_poll g \<le> gs_poll h \<and> gs_poll h \<le> gs_poll g + n \<and>
    (v \<noteq> GNSS_ACK_NONE \<longrightarrow> gnss_ack_scan (reply arr p (gs_poll h) k) (length (reply arr p (gs_poll h) k)) echo = v)"
  using assms
proof (induction n arbitrary: g)
  case (Suc n)
  let ?g = "next_poll arr g"
  have r: "gs_cap ?g = reply arr p (gs_poll ?g) k" using reply_poll [OF Suc.prems(2-4)] poll_same [of g arr] by simp
  show ?case
  proof (cases "cap_verdict_for echo ?g = GNSS_ACK_NONE")
    case True
    then have a: "await_ack arr echo n ?g = (v, h)" using Suc.prems by simp
    from Suc.IH [OF a r] show ?thesis using poll_same [of g arr] Suc.prems(3,4) by (simp add: same_base_def)
  next
    case False
    then have "h = ?g\<lparr>gs_notes := gs_notes ?g + 1\<rparr>" "v = cap_verdict_for echo ?g" using Suc.prems by (simp_all add: Let_def)
    then show ?thesis using r poll_same [of g arr] by (simp add: cap_verdict_for_def)
  qed
qed simp

lemma attempts_fresh:
  "send_attempts arr echo n g = (ok, h) \<Longrightarrow>
   gs_poll g \<le> gs_poll h \<and> gs_poll h \<le> gs_poll g + (n + 1) * ACK_POLLS \<and>
   (ok \<longrightarrow> (\<exists>p. gs_poll g \<le> p \<and> p \<le> gs_poll h \<and> gs_poll h \<le> p + ACK_POLLS \<and>
      gnss_ack_scan (reply arr p (gs_poll h) g) (length (reply arr p (gs_poll h) g)) echo = GNSS_ACK_OK))"
proof (induction n arbitrary: g)
  case 0
  obtain v k where k: "await_ack arr echo ACK_POLLS (cap_reset g) = (v, k)"
    by (cases "await_ack arr echo ACK_POLLS (cap_reset g)")
  have c: "gs_cap (cap_reset g) = reply arr (gs_poll g) (gs_poll (cap_reset g)) g" "gs_capturing (cap_reset g) = gs_capturing g"
    by (simp_all add: reply_def cap_reset_def)
  have "h = k" "ok \<longleftrightarrow> v = GNSS_ACK_OK" using 0 k by (auto simp: send_attempts.simps [of arr echo 0] split: if_splits)
  then show ?case using await_fresh [OF k c] reset_same(3) [of g] by (auto intro!: exI [of _ "gs_poll g"])
next
  case (Suc n)
  obtain v k where k: "await_ack arr echo ACK_POLLS (cap_reset g) = (v, k)"
    by (cases "await_ack arr echo ACK_POLLS (cap_reset g)")
  have c: "gs_cap (cap_reset g) = reply arr (gs_poll g) (gs_poll (cap_reset g)) g" "gs_capturing (cap_reset g) = gs_capturing g"
    by (simp_all add: reply_def cap_reset_def)
  note f = await_fresh [OF k c] reset_same(3) [of g]
  show ?case
  proof (cases "v = GNSS_ACK_NONE")
    case True
    then have a: "send_attempts arr echo n k = (ok, h)"
      using Suc.prems k by (simp add: send_attempts.simps [of arr echo "Suc n"])
    have "gs_capturing k = gs_capturing g" using await_same [OF k] by (simp add: same_base_def cap_reset_def)
    then have r: "reply arr p q k = reply arr p q g" for p q by (rule reply_cong)
    from Suc.IH [OF a] f show ?thesis by (auto simp: r intro: le_trans)
  next
    case False
    then have "h = k" "ok \<longleftrightarrow> v = GNSS_ACK_OK" using Suc.prems k by (auto simp: send_attempts.simps [of arr echo "Suc n"])
    then show ?thesis using f by (auto intro!: exI [of _ "gs_poll g"])
  qed
qed

section \<open>A coordinate settles\<close>

lemma near_refl [simp]: "near_fix f f"
  by (cases f) (simp add: near_fix_def)

lemma save_base [simp]:
  "gs_log (snd (gnss_save_fixed_base bs f g)) = gs_log g"
  "s_base_acked_valid (snd (gnss_save_fixed_base bs f g)) = s_base_acked_valid g"
  "s_base_acked_coord (snd (gnss_save_fixed_base bs f g)) = s_base_acked_coord g"
  "s_base_fail_us (snd (gnss_save_fixed_base bs f g)) = s_base_fail_us g"
  "s_base_fail_coord (snd (gnss_save_fixed_base bs f g)) = s_base_fail_coord g"
  by (simp_all add: gnss_save_fixed_base_def)

text \<open>A state in which a further push of the coordinate is skipped, as done or as failed lately.\<close>

definition settled :: "coord \<Rightarrow> bool \<Rightarrow> gnss \<Rightarrow> bool" where
  "settled f ok h \<longleftrightarrow> s_base_acked_valid h \<and> near_fix (s_base_acked_coord h) f \<or>
     \<not> ok \<and> s_base_fail_us h \<noteq> 0 \<and> near_fix (s_base_fail_coord h) f"

lemma apply_settles: "apply_fixed_base fmt arr bs t2 f g = (ok, h) \<Longrightarrow> t2 \<noteq> 0 \<Longrightarrow> settled f ok h"
  by (erule apply_cases) (auto simp: settled_def Let_def split: if_splits)

lemma set_settles:
  "gnss_set_fixed_base fmt arr bs t1 t2 f g = (ok, h) \<Longrightarrow> fix_valid f \<Longrightarrow> t2 \<noteq> 0 \<Longrightarrow> settled f ok h"
  unfolding gnss_set_fixed_base_def
  by (split if_split_asm, simp, split if_split_asm, force simp: settled_def split: option.splits if_splits,
      split if_split_asm, simp add: settled_def, erule apply_settles)

text \<open>The storage holds a coordinate that matches.\<close>

definition stored_near :: "coord \<Rightarrow> gnss \<Rightarrow> bool" where
  "stored_near f g \<longleftrightarrow> (case gs_base_nvs g of None \<Rightarrow> False | Some nv \<Rightarrow> near_fix nv f)"

text \<open>A push that succeeds leaves a matching coordinate in a storage that opens for writing and takes the write.\<close>

lemma set_stores:
  assumes "gnss_set_fixed_base fmt arr bs t1 t2 f g = (True, h)" "bs_open_w bs" "bs_set bs"
  shows "stored_near f h"
proof -
  have save: "stored_near f (snd (gnss_save_fixed_base bs f x))" for x
    using assms(2,3) by (simp add: gnss_save_fixed_base_def stored_near_def)
  have load: "stored_near f x" if "gnss_load_fixed_base bs x = Some nv" "near_fix nv f" for x nv
    using that by (auto simp: gnss_load_fixed_base_def stored_near_def split: if_splits option.splits)
  show ?thesis
  proof (cases "s_base_acked_valid g \<and> near_fix (s_base_acked_coord g) f")
    case True
    then have h: "h = (case gnss_load_fixed_base bs g of None \<Rightarrow> snd (gnss_save_fixed_base bs f g)
         | Some nv \<Rightarrow> if near_fix nv f then g else snd (gnss_save_fixed_base bs f g))"
      using assms(1) by (simp add: gnss_set_fixed_base_def split: if_split_asm)
    show ?thesis
    proof (cases "gnss_load_fixed_base bs g")
      case None
      then show ?thesis using h save by simp
    next
      case (Some nv)
      then show ?thesis using h save load [OF Some] by (cases "near_fix nv f") simp_all
    qed
  next
    case False
    then have "apply_fixed_base fmt arr bs t2 f g = (True, h)"
      using assms(1) by (simp add: gnss_set_fixed_base_def split: if_split_asm)
    then show ?thesis by (rule apply_cases) (simp add: Let_def save)
  qed
qed

lemma settled_set:
  assumes "settled f ok h" "fix_valid f" "s_base_fail_us h = 0 \<or> t1 - s_base_fail_us h < GNSS_BASE_RETRY_COOLDOWN_US"
    and k: "gnss_set_fixed_base fmt arr bs t1 t2 f h = (ok', k)"
  shows "gs_log k = gs_log h \<and> (ok \<longrightarrow> ok')"
proof (cases "s_base_acked_valid h \<and> near_fix (s_base_acked_coord h) f")
  case True
  then have r: "ok'" "k = (case gnss_load_fixed_base bs h of None \<Rightarrow> snd (gnss_save_fixed_base bs f h)
       | Some nv \<Rightarrow> if near_fix nv f then h else snd (gnss_save_fixed_base bs f h))"
    using k assms(2) by (simp_all add: gnss_set_fixed_base_def)
  have "k = snd (gnss_save_fixed_base bs f h) \<or> k = h \<and> (\<exists>nv. gs_base_nvs h = Some nv \<and> near_fix nv f)"
    unfolding r(2) by (simp add: gnss_load_fixed_base_def del: split_paired_Ex split: option.split if_split)
  then show ?thesis using r(1) by (auto simp: gnss_save_fixed_base_def simp del: split_paired_Ex)
next
  case False
  then have "\<not> ok \<and> s_base_fail_us h \<noteq> 0 \<and> near_fix (s_base_fail_coord h) f" using assms(1) by (auto simp: settled_def)
  then have "k = h \<and> \<not> ok'" using k assms(2,3) False by (simp add: gnss_set_fixed_base_def)
  then show ?thesis using \<open>\<not> ok \<and> _\<close> by simp
qed

section \<open>Properties\<close>

text \<open>C30: The latch tells the truth. Whatever the tasks do, in whatever order and however the
  receiver answers: when the firmware believes the receiver runs on a coordinate, the last command
  that changed the base mode since the last reset was the mode command for that very coordinate,
  the receiver acknowledged it, and the coordinate is a valid position. Every command that changes
  the base mode is the survey or the mode command of a valid coordinate, and the capture buffer
  never outgrows its array.\<close>

theorem base_latch_truthful:
  assumes "reach gnss_boot (gnss_step fmt) g" and "fmt_law fmt"
  shows "(s_base_acked_valid g \<longrightarrow> fix_valid (s_base_acked_coord g) \<and>
      receiver_mode (gs_log g) = Some (fmt (s_base_acked_coord g))) \<and>
    (\<forall>c ok. CMD c ok \<in> set (gs_log g) \<and> is_mode c \<longrightarrow> sane_mode fmt c) \<and> length (gs_cap g) < CAP_SZ"
  using gnss_machine.reach_inv [OF assms(1)] assms(2) unfolding gnss_inv_def cap_ok_def mode_ok_def by blast

text \<open>C31: A coordinate settles. Every push that succeeds leaves a matching coordinate for the next boot in a storage that
  opens for writing and takes the write, the first push as well as a repeated one. After a valid coordinate was pushed,
  pushing it again sends no command to the receiver (after a failure: within the cooldown), and what succeeded once succeeds
  again.\<close>

theorem fixed_base_settles:
  assumes "gnss_set_fixed_base fmt arr bs t1 t2 f g = (ok, h)" and "fix_valid f" and "t2 \<noteq> 0"
    and "s_base_fail_us h = 0 \<or> t3 - s_base_fail_us h < GNSS_BASE_RETRY_COOLDOWN_US"
    and "gnss_set_fixed_base fmt arr' bs' t3 t4 f h = (ok', k)"
  shows "(ok \<and> bs_open_w bs \<and> bs_set bs \<longrightarrow> stored_near f h) \<and>
    gs_log k = gs_log h \<and> (ok \<longrightarrow> ok') \<and>
    (ok' \<and> bs_open_w bs' \<and> bs_set bs' \<longrightarrow> stored_near f k)"
proof -
  have "gs_log k = gs_log h \<and> (ok \<longrightarrow> ok')" by (rule settled_set [OF set_settles [OF assms(1-3)] assms(2,4,5)])
  moreover have "stored_near f h" if "ok" "bs_open_w bs" "bs_set bs" using set_stores [of fmt arr bs t1 t2 f g h] assms(1) that by simp
  moreover have "stored_near f k" if "ok'" "bs_open_w bs'" "bs_set bs'" using set_stores [of fmt arr' bs' t3 t4 f h k] assms(5) that by simp
  ultimately show ?thesis by blast
qed

text \<open>C32: An acknowledgement is fresh and correlated. When a command sent while capturing counts as
  acknowledged, the bytes that arrived after one of its transmissions, and nothing older, hold a
  complete record with a correct checksum that echoes exactly this command and says OK. Acknowledged
  or not, the call ends within 45 polls for each of its transmissions.\<close>

theorem ack_fresh_and_correlated:
  assumes "send_cmd_acked arr cmd n g = (ok, h)" and "gs_capturing g"
  shows "gs_poll h \<le> gs_poll g + (n + 1) * ACK_POLLS \<and>
    (ok \<longrightarrow> (\<exists>p rec star t. gs_poll g \<le> p \<and> p \<le> gs_poll h \<and> gs_poll h \<le> p + ACK_POLLS \<and>
       ack_record_at (reply arr p (gs_poll h) g) (length (reply arr p (gs_poll h) g)) rec star t \<and>
       accepts (cmd_echo cmd) t))"
proof -
  obtain k where k: "send_attempts arr (cmd_echo cmd) n g = (ok, k)" "gs_poll k = gs_poll h"
    using assms(1) by (auto simp: send_cmd_acked_def split: prod.splits)
  show ?thesis using attempts_fresh [OF k(1)] k(2) scan_ok by metis
qed

section \<open>A receiver that answers\<close>

definition demo_fmt :: "coord \<Rightarrow> string" where
  "demo_fmt f = crlf ''mode base 47.000000000 8.000000000 500.0000''"

definition demo_arr :: "nat \<Rightarrow> string list" where
  "demo_arr q = (if q = 0 then [ok_buf [] ''CONFIG UNDULATION 0.0'' CHR ''6'' CHR ''1'' []]
     else if q = 1 then [ok_buf [] ''mode base 47.000000000 8.000000000 500.0000'' CHR ''6'' CHR ''8'' []]
     else if q = 2 then [ok_buf [] ''saveconfig'' CHR ''5'' CHR ''5'' []] else [])"

definition demo_fix :: coord where
  "demo_fix = (47, 8, 500)"

definition demo_gnss :: gnss where
  "demo_gnss = \<lparr>gs_cap = [], gs_capturing = False, gs_poll = 0, gs_log = [], gs_notes = 0, s_base_acked_valid = False,
     s_base_acked_coord = (0, 0, 0), s_base_fail_us = 0, s_base_fail_coord = (0, 0, 0), gs_base_nvs = None\<rparr>"

lemma demo_valid: "fix_valid demo_fix"
  by (simp add: fix_valid_def demo_fix_def gnss_coord_valid_def gnss_height_valid_def)

lemma demo_law: "fmt_law demo_fmt"
  by (simp add: fmt_law_def demo_fmt_def is_mode_def crlf_def)

lemma demo_send:
  assumes "gs_poll g = q" "gs_capturing g" "q < 3"
    and "cmd = [''CONFIG UNDULATION 0.0'', ''mode base 47.000000000 8.000000000 500.0000'', ''saveconfig''] ! q"
  shows "\<exists>h. send_cmd_acked demo_arr (crlf cmd) n g = (True, h) \<and> gs_poll h = q + 1"
proof -
  have q: "q = 0 \<or> q = 1 \<or> q = 2" using assms(3) by auto
  obtain b where e: "demo_arr q = [b]" "length b < 200" "b \<noteq> []" and s: "gnss_ack_scan b (length b) cmd = GNSS_ACK_OK"
  proof (rule that)
    show "demo_arr q = [hd (demo_arr q)]" "length (hd (demo_arr q)) < 200" "hd (demo_arr q) \<noteq> []"
      using q by (auto simp: demo_arr_def ok_buf_def ok_text_def PREFIX_def)
    show "gnss_ack_scan (hd (demo_arr q)) (length (hd (demo_arr q))) cmd = GNSS_ACK_OK"
      using q assms(4) by (elim disjE; simp add: demo_arr_def; code_simp)
  qed
  have c: "cmd_echo (crlf cmd) = cmd" using q assms(4) by (auto simp: cmd_echo_def crlf_def)
  have p: "next_poll demo_arr (cap_reset g) = g\<lparr>gs_cap := b, gs_poll := q + 1\<rparr>"
    using assms(1,2) e by (simp add: next_poll_def cap_reset_def gnss_ingest_uart_def)
  show ?thesis
    by (simp add: send_cmd_acked_def send_attempts.simps [of demo_arr cmd n] c p s cap_verdict_for_def Let_def
        numeral_eq_Suc)
qed

text \<open>The push of the coordinate succeeds, and is latched and stored.\<close>

definition demo_store :: base_store where
  "demo_store = \<lparr>bs_open_r = True, bs_open_w = True, bs_set = True, bs_commit = True\<rparr>"

lemma demo_push:
  "\<exists>h. gnss_set_fixed_base demo_fmt demo_arr demo_store 5 6 demo_fix demo_gnss = (True, h) \<and> s_base_fail_us h = 0 \<and>
     s_base_acked_valid h \<and> length (gs_log h) = 3 \<and> gs_base_nvs h = Some demo_fix"
proof -
  obtain a where a: "send_cmd_acked demo_arr (crlf ''CONFIG UNDULATION 0.0'') ACK_RETRIES (demo_gnss\<lparr>gs_capturing := True\<rparr>) = (True, a)"
    "gs_poll a = 1"
    using demo_send [of "demo_gnss\<lparr>gs_capturing := True\<rparr>" 0 "''CONFIG UNDULATION 0.0''" ACK_RETRIES] by (auto simp: demo_gnss_def)
  note sa = send_same [OF a(1)]
  obtain b where b: "send_cmd_acked demo_arr (demo_fmt demo_fix) ACK_RETRIES a = (True, b)" "gs_poll b = 2"
    using demo_send [of a 1 "''mode base 47.000000000 8.000000000 500.0000''" ACK_RETRIES] a(2) sa(1)
    by (auto simp: demo_fmt_def same_base_def)
  note sb = send_same [OF b(1)]
  obtain c where c: "send_cmd_acked demo_arr (crlf ''saveconfig'') ACK_RETRIES b = (True, c)"
    using demo_send [of b 2 "''saveconfig''" ACK_RETRIES] b(2) sa(1) sb(1) by (auto simp: same_base_def)
  note sc = send_same [OF c]
  have "gnss_set_fixed_base demo_fmt demo_arr demo_store 5 6 demo_fix demo_gnss = apply_fixed_base demo_fmt demo_arr demo_store 6 demo_fix demo_gnss"
    by (simp add: gnss_set_fixed_base_def demo_valid) (simp add: demo_gnss_def)
  then show ?thesis using sa(2) sb(2) sc(2)
    by (simp add: apply_fixed_base_def Let_def a(1) b(1) c gnss_save_fixed_base_def demo_store_def demo_gnss_def [THEN arg_cong [of _ _ gs_log]])
qed

theorem fixed_base_settles_witness:
  "\<exists>h. gnss_set_fixed_base demo_fmt demo_arr demo_store 5 6 demo_fix demo_gnss = (True, h) \<and> length (gs_log h) = 3 \<and>
     gs_log (snd (gnss_set_fixed_base demo_fmt demo_arr demo_store 7 8 demo_fix h)) = gs_log h"
proof -
  obtain h where h: "gnss_set_fixed_base demo_fmt demo_arr demo_store 5 6 demo_fix demo_gnss = (True, h)"
    "s_base_fail_us h = 0" "length (gs_log h) = 3" using demo_push by auto
  from fixed_base_settles [OF h(1) demo_valid _ _ prod.collapse [symmetric]] h show ?thesis by auto
qed

theorem base_latch_truthful_witness:
  "\<exists>g. reach gnss_boot (gnss_step demo_fmt) g \<and> s_base_acked_valid g \<and>
     receiver_mode (gs_log g) = Some (demo_fmt (s_base_acked_coord g))"
proof -
  obtain h where h: "gnss_set_fixed_base demo_fmt demo_arr demo_store 5 6 demo_fix demo_gnss = (True, h)"
    "s_base_acked_valid h" using demo_push by auto
  have "gnss_boot demo_gnss" by (simp add: gnss_boot_def demo_gnss_def)
  then have r: "reach gnss_boot (gnss_step demo_fmt) h"
    using gnss_step.push [of demo_fmt demo_gnss demo_arr demo_store 5 6 demo_fix] h(1)
    by (metis reach.start reach.move snd_conv)
  with base_latch_truthful [OF r demo_law] h(2) show ?thesis by auto
qed

theorem ack_fresh_and_correlated_witness:
  "\<exists>h. send_cmd_acked demo_arr (crlf ''saveconfig'') 3 (demo_gnss\<lparr>gs_capturing := True, gs_poll := 2\<rparr>) = (True, h) \<and>
     gs_poll h = 3 \<and> (\<exists>p rec star t. 2 \<le> p \<and>
       ack_record_at (reply demo_arr p 3 (demo_gnss\<lparr>gs_capturing := True, gs_poll := 2\<rparr>))
         (length (reply demo_arr p 3 (demo_gnss\<lparr>gs_capturing := True, gs_poll := 2\<rparr>))) rec star t \<and> accepts ''saveconfig'' t)"
proof -
  let ?g = "demo_gnss\<lparr>gs_capturing := True, gs_poll := 2\<rparr>"
  obtain h where h: "send_cmd_acked demo_arr (crlf ''saveconfig'') 3 ?g = (True, h)" "gs_poll h = 3"
    using demo_send [of ?g 2 "''saveconfig''" 3] by auto
  have "cmd_echo (crlf ''saveconfig'') = ''saveconfig''" by (simp add: cmd_echo_def crlf_def)
  with ack_fresh_and_correlated [OF h(1)] h show ?thesis by auto
qed

end
