(* ===== verification/Retry_Backoff.thy ===== *)
theory Retry_Backoff
  imports Prelude
begin

text \<open>
  The reconnect backoff of \<open>src/main/retry.c\<close>. \<open>retry_delay\<close> returns the value of the C function, the
  milliseconds it slept and the new handle; allocation failure is an argument of \<open>retry_init\<close>
  and a null handle is \<open>None\<close>, for which the call sleeps two seconds.
\<close>

section \<open>The code\<close>

record retry_delay_t =
  rd_attempts :: nat
  rd_first_instant :: bool
  rd_short_count :: nat
  rd_short_delay :: int
  rd_max_delay :: int
  rd_delays_offset :: nat

definition delays :: "int list" where
  "delays = [1000, 2000, 5000, 10000, 15000, 30000, 45000, 60000, 90000,
     120000, 300000, 600000, 900000, 1800000, 2700000, 3600000]"

definition delays_count :: nat where
  "delays_count = length delays"

definition retry_init :: "bool \<Rightarrow> bool \<Rightarrow> nat \<Rightarrow> int \<Rightarrow> int \<Rightarrow> retry_delay_t option" where
  "retry_init oom first_instant short_count short_delay max_delay =
     (if oom then None
      else Some \<lparr>rd_attempts = 0, rd_first_instant = first_instant, rd_short_count = short_count,
        rd_short_delay = short_delay, rd_max_delay = max_delay,
        rd_delays_offset = length (takeWhile (\<lambda>d. d < short_delay) delays)\<rparr>)"

definition delay_for :: "retry_delay_t \<Rightarrow> nat \<Rightarrow> int" where
  "delay_for h attempts =
     (if attempts = 0 \<and> rd_first_instant h then 0
      else if attempts < rd_short_count h then rd_short_delay h
      else let a = attempts - rd_short_count h + rd_delays_offset h;
               d = (if a < delays_count then delays ! a else delays ! (delays_count - 1))
           in if rd_max_delay h > 0 \<and> d > rd_max_delay h then rd_max_delay h else d)"

definition retry_delay :: "retry_delay_t option \<Rightarrow> int \<times> int \<times> retry_delay_t option" where
  "retry_delay h =
     (case h of
        None \<Rightarrow> (0, 2000, None)
      | Some h \<Rightarrow>
          let d = delay_for h (rd_attempts h);
              h' = h\<lparr>rd_attempts := to_u16 (rd_attempts h + 1)\<rparr>
          in (int (rd_attempts h'), if d > 0 then d else 0, Some h'))"

definition retry_reset :: "retry_delay_t option \<Rightarrow> retry_delay_t option" where
  "retry_reset h = map_option (\<lambda>h. h\<lparr>rd_attempts := 0\<rparr>) h"

section \<open>The schedule\<close>

lemma delays_count [simp]: "delays_count = 16"
  by (simp add: delays_count_def delays_def)

lemma delays_sorted: "sorted delays"
  by (simp add: delays_def)

lemma delays_len: "length delays = 16"
  by (simp add: delays_def)

lemma delays_last: "delays ! 15 = 3600000"
  by (simp add: delays_def)

lemma delays_bounds: "i < 16 \<Longrightarrow> 1000 \<le> delays ! i \<and> delays ! i \<le> 3600000"
proof -
  assume i: "i < 16"
  then have "delays ! 0 \<le> delays ! i" "delays ! i \<le> delays ! 15"
    using delays_sorted by (simp_all add: sorted_nth_mono delays_len)
  then show ?thesis by (simp add: delays_def)
qed

text \<open>The tail of the schedule: the entry reached after \<open>a\<close> steps, capped at the last one.\<close>

definition step_delay :: "nat \<Rightarrow> int" where
  "step_delay a = delays ! min a 15"

lemma step_delay_mono: "a \<le> b \<Longrightarrow> step_delay a \<le> step_delay b"
  unfolding step_delay_def using delays_sorted by (rule sorted_nth_mono) (auto simp: delays_len)

lemma step_delay_bounds: "1000 \<le> step_delay a" "step_delay a \<le> 3600000"
  using delays_bounds [of "min a 15"] by (simp_all add: step_delay_def)

lemma delay_for_alt:
  "delay_for h a =
     (if a = 0 \<and> rd_first_instant h then 0
      else if a < rd_short_count h then rd_short_delay h
      else let d = step_delay (a - rd_short_count h + rd_delays_offset h)
           in if rd_max_delay h > 0 then min d (rd_max_delay h) else d)"
  by (auto simp: delay_for_def step_delay_def Let_def min_def)

text \<open>Where the schedule starts is at least the short delay, if any entry is.\<close>

lemma offset_start:
  assumes "short \<le> 3600000"
  shows "short \<le> step_delay (length (takeWhile (\<lambda>d. d < short) delays))"
proof -
  let ?n = "length (takeWhile (\<lambda>d. d < short) delays)"
  have "\<not> (\<forall>d \<in> set delays. d < short)" using assms by (auto simp: delays_def)
  then have "takeWhile (\<lambda>d. d < short) delays \<noteq> delays" by (metis takeWhile_eq_all_conv)
  then have "?n \<noteq> 16" using takeWhile_eq_take [of "\<lambda>d. d < short" delays] delays_len by auto
  then have n: "?n < 16" using length_takeWhile_le [of "\<lambda>d. d < short" delays] delays_len by simp
  then have "\<not> delays ! ?n < short" using nth_length_takeWhile delays_len by metis
  then show ?thesis using n by (simp add: step_delay_def)
qed

section \<open>Properties of the backoff\<close>

text \<open>The backoff is bounded and only grows. For a handle made by the init function with a
  short delay between 0 and an hour and no cap, or a cap of at least the short delay, every delay
  is between zero and an hour (and below the cap when there is one), and until the 16-bit attempt
  counter wraps a later attempt never waits less than an earlier one.\<close>

theorem retry_bounded_monotone:
  assumes "retry_init False fi sc sd md = Some h" and "0 \<le> sd" and "sd \<le> 3600000"
    and "md = 0 \<or> sd \<le> md"
  shows "0 \<le> delay_for h a \<and> delay_for h a \<le> 3600000 \<and> (0 < md \<longrightarrow> delay_for h a \<le> md) \<and>
    (a \<le> b \<longrightarrow> delay_for h a \<le> delay_for h b)"
proof -
  have h: "rd_first_instant h = fi" "rd_short_count h = sc" "rd_short_delay h = sd" "rd_max_delay h = md"
    "rd_delays_offset h = length (takeWhile (\<lambda>d. d < sd) delays)"
    using assms(1) by (auto simp: retry_init_def)
  let ?o = "rd_delays_offset h"
  have o: "sd \<le> step_delay (x - sc + ?o)" for x
    using offset_start [OF assms(3)] step_delay_mono [of ?o "x - sc + ?o"] h(5) by simp
  define A where "A = step_delay (a - sc + ?o)"
  define B where "B = step_delay (b - sc + ?o)"
  have "sd \<le> A" "sd \<le> B" "A \<le> 3600000" "a \<le> b \<longrightarrow> A \<le> B"
    using o step_delay_bounds(2) step_delay_mono [of "a - sc + ?o" "b - sc + ?o"] by (auto simp: A_def B_def)
  then show ?thesis using assms(2-4)
    unfolding delay_for_alt h(1-4) Let_def A_def [symmetric] B_def [symmetric] by (auto simp: min_def)
qed

theorem retry_bounded_monotone_witness:
  "\<exists>h. retry_init False True 5 2000 0 = Some h \<and>
     0 \<le> delay_for h 3 \<and> delay_for h 3 \<le> 3600000 \<and> (0 < (0 :: int) \<longrightarrow> delay_for h 3 \<le> 0) \<and>
     (3 \<le> (9 :: nat) \<longrightarrow> delay_for h 3 \<le> delay_for h 9)"
  using retry_bounded_monotone [of True 5 2000 0 _ 3 9] by (auto simp: retry_init_def)

end
