(* ===== verification/Supervisor.thy ===== *)
theory Supervisor
  imports Prelude "HOL-Library.Signed_Division"
begin

text \<open>
  The data-path supervisor, \<open>src/main/supervisor.c\<close>: the liveness notes, the health snapshot
  and one iteration of the supervisor task. Times are microseconds of the monotonic timer; the
  C division truncates and the cast to 32 bits is written out. One iteration reads the clock
  several times: \<open>clk i\<close> is the value of read \<open>i\<close>, in program order. Free heap is an argument.
  The recovery callbacks are registered by \<open>main.c\<close>; an iteration reports which of them it calls,
  and a restart as a last action.
\<close>

section \<open>The code\<close>

record sup =
  s_t_gnss :: int
  s_t_caster :: int
  s_t_ip :: int
  s_gnss_seen :: bool
  s_caster_seen :: bool
  s_ip_seen :: bool
  s_link_up :: bool
  s_rec_gnss :: u32
  s_rec_caster :: u32
  s_rec_wifi :: u32
  s_supervised_reboots :: u32
  s_recover_gnss :: bool
  s_recover_caster :: bool
  s_recover_wifi :: bool
  last_gnss_act :: int
  last_caster_act :: int
  last_link_act :: int
  heap_low_streak :: int

definition sup_init :: "u32 \<Rightarrow> sup" where
  "sup_init reboots = \<lparr>s_t_gnss = 0, s_t_caster = 0, s_t_ip = 0, s_gnss_seen = False,
     s_caster_seen = False, s_ip_seen = False, s_link_up = False, s_rec_gnss = 0, s_rec_caster = 0,
     s_rec_wifi = 0, s_supervised_reboots = reboots, s_recover_gnss = False,
     s_recover_caster = False, s_recover_wifi = False, last_gnss_act = 0, last_caster_act = 0,
     last_link_act = 0, heap_low_streak = 0\<rparr>"

definition secs :: "int \<Rightarrow> u32" where
  "secs us = of_int (us sdiv 1000000)"

definition age_s :: "int \<Rightarrow> int \<Rightarrow> u32" where
  "age_s now t = secs (now - t)"

abbreviation GRACE_S :: u32 where "GRACE_S \<equiv> 30"
abbreviation TH_GNSS_S :: u32 where "TH_GNSS_S \<equiv> 10"
abbreviation TH_CASTER_S :: u32 where "TH_CASTER_S \<equiv> 30"
abbreviation TH_LINK_S :: u32 where "TH_LINK_S \<equiv> 60"
abbreviation TH_WEDGE_S :: u32 where "TH_WEDGE_S \<equiv> 120"
abbreviation DEB_GNSS_S :: u32 where "DEB_GNSS_S \<equiv> 20"
abbreviation DEB_CASTER_S :: u32 where "DEB_CASTER_S \<equiv> 15"
abbreviation DEB_LINK_S :: u32 where "DEB_LINK_S \<equiv> 30"
abbreviation HEAP_FLOOR_B :: nat where "HEAP_FLOOR_B \<equiv> 12288"
abbreviation HEAP_LOW_S :: int where "HEAP_LOW_S \<equiv> 15"

definition supervisor_note_gnss_rx :: "int \<Rightarrow> sup \<Rightarrow> sup" where
  "supervisor_note_gnss_rx now s = s\<lparr>s_t_gnss := now, s_gnss_seen := True\<rparr>"

definition supervisor_note_caster_tx :: "int \<Rightarrow> int \<Rightarrow> sup \<Rightarrow> sup" where
  "supervisor_note_caster_tx now bytes s =
     (if bytes > 0 then s\<lparr>s_t_caster := now, s_caster_seen := True\<rparr>
      else if \<not> s_caster_seen s then s\<lparr>s_t_caster := now, s_caster_seen := True\<rparr>
      else s)"

definition supervisor_note_sta_ip :: "int \<Rightarrow> bool \<Rightarrow> sup \<Rightarrow> sup" where
  "supervisor_note_sta_ip now up s =
     (if up then s\<lparr>s_t_ip := now, s_ip_seen := True, s_link_up := True\<rparr>
      else s\<lparr>s_link_up := False\<rparr>)"

definition supervisor_set_recovery :: "bool \<Rightarrow> bool \<Rightarrow> bool \<Rightarrow> sup \<Rightarrow> sup" where
  "supervisor_set_recovery gnss caster wifi s =
     s\<lparr>s_recover_gnss := gnss, s_recover_caster := caster, s_recover_wifi := wifi\<rparr>"

record supervisor_health_t =
  h_uptime_s :: u32
  h_gnss_silent_s :: u32
  h_caster_silent_s :: u32
  h_ip_down_s :: u32
  h_gnss_ok :: bool
  h_caster_ok :: bool
  h_link_ok :: bool
  h_recoveries_gnss :: u32
  h_recoveries_caster :: u32
  h_recoveries_wifi :: u32
  h_reboots_supervised :: u32

definition supervisor_health :: "(nat \<Rightarrow> int) \<Rightarrow> sup \<Rightarrow> supervisor_health_t" where
  "supervisor_health clk s =
     (let uptime = secs (clk 0);
          gnss = (if s_gnss_seen s then age_s (clk 1) (s_t_gnss s) else uptime);
          caster = (if s_caster_seen s then age_s (clk 2) (s_t_caster s) else 0);
          ip = (if s_link_up s then 0 else if s_ip_seen s then age_s (clk 3) (s_t_ip s) else 0)
      in \<lparr>h_uptime_s = uptime, h_gnss_silent_s = gnss, h_caster_silent_s = caster, h_ip_down_s = ip,
          h_gnss_ok = (s_gnss_seen s \<and> gnss < TH_GNSS_S),
          h_caster_ok = (\<not> s_caster_seen s \<or> caster < TH_CASTER_S),
          h_link_ok = (s_link_up s \<or> \<not> s_ip_seen s),
          h_recoveries_gnss = s_rec_gnss s, h_recoveries_caster = s_rec_caster s,
          h_recoveries_wifi = s_rec_wifi s, h_reboots_supervised = s_supervised_reboots s\<rparr>)"

datatype sup_action = RECOVER_WIFI | RECOVER_CASTER | RECOVER_GNSS | REBOOT_HEAP | REBOOT_WEDGE

text \<open>The rungs of the ladder, in program order.\<close>

definition rung_wifi :: "(nat \<Rightarrow> int) \<Rightarrow> bool \<Rightarrow> sup \<Rightarrow> sup_action list \<times> sup" where
  "rung_wifi clk link_fault s =
     (if link_fault \<and> s_recover_wifi s \<and> age_s (clk 4) (last_link_act s) \<ge> DEB_LINK_S
      then ([RECOVER_WIFI], s\<lparr>last_link_act := clk 5, s_rec_wifi := s_rec_wifi s + 1\<rparr>)
      else ([], s))"

definition rung_caster :: "(nat \<Rightarrow> int) \<Rightarrow> bool \<Rightarrow> sup \<Rightarrow> sup_action list \<times> sup" where
  "rung_caster clk caster_fault s =
     (if caster_fault \<and> s_recover_caster s \<and> age_s (clk 6) (last_caster_act s) \<ge> DEB_CASTER_S
      then ([RECOVER_CASTER], s\<lparr>last_caster_act := clk 7, s_rec_caster := s_rec_caster s + 1\<rparr>)
      else ([], s))"

definition rung_gnss :: "(nat \<Rightarrow> int) \<Rightarrow> bool \<Rightarrow> sup \<Rightarrow> sup_action list \<times> sup" where
  "rung_gnss clk gnss_fault s =
     (if gnss_fault \<and> s_recover_gnss s \<and> age_s (clk 8) (last_gnss_act s) \<ge> DEB_GNSS_S
      then ([RECOVER_GNSS], s\<lparr>last_gnss_act := clk 9, s_rec_gnss := s_rec_gnss s + 1\<rparr>)
      else ([], s))"

definition rungs :: "(nat \<Rightarrow> int) \<Rightarrow> bool \<Rightarrow> bool \<Rightarrow> bool \<Rightarrow> sup \<Rightarrow> sup_action list \<times> sup" where
  "rungs clk lf cf gf s =
     (let (a1, s) = rung_wifi clk lf s; (a2, s) = rung_caster clk cf s; (a3, s) = rung_gnss clk gf s
      in (a1 @ a2 @ a3, s))"

definition supervisor_ladder :: "(nat \<Rightarrow> int) \<Rightarrow> sup \<Rightarrow> sup_action list \<times> sup" where
  "supervisor_ladder clk s =
     (let uptime = secs (clk 0);
          gnss_silent = (if s_gnss_seen s then age_s (clk 1) (s_t_gnss s) else uptime);
          gnss_fault = (gnss_silent \<ge> TH_GNSS_S);
          caster_silent = (if s_caster_seen s then age_s (clk 2) (s_t_caster s) else 0);
          caster_fault = (s_caster_seen s \<and> caster_silent \<ge> TH_CASTER_S);
          ip_down = (if \<not> s_link_up s \<and> s_ip_seen s then age_s (clk 3) (s_t_ip s) else 0);
          link_fault = (s_ip_seen s \<and> \<not> s_link_up s \<and> ip_down \<ge> TH_LINK_S)
      in if caster_fault \<and> caster_silent \<ge> TH_WEDGE_S \<and> (gnss_silent \<ge> TH_WEDGE_S \<or> ip_down \<ge> TH_WEDGE_S)
         then ([REBOOT_WEDGE], s\<lparr>s_supervised_reboots := s_supervised_reboots s + 1\<rparr>)
         else rungs clk link_fault caster_fault gnss_fault s)"

definition supervisor_tick :: "(nat \<Rightarrow> int) \<Rightarrow> nat \<Rightarrow> sup \<Rightarrow> sup_action list \<times> sup" where
  "supervisor_tick clk heap s =
     (if secs (clk 0) < GRACE_S then ([], s)
      else if heap < HEAP_FLOOR_B
      then let s = s\<lparr>heap_low_streak := heap_low_streak s + 1\<rparr>
           in if heap_low_streak s \<ge> HEAP_LOW_S
              then ([REBOOT_HEAP], s\<lparr>s_supervised_reboots := s_supervised_reboots s + 1\<rparr>)
              else supervisor_ladder clk s
      else supervisor_ladder clk (s\<lparr>heap_low_streak := 0\<rparr>))"

section \<open>Seconds\<close>

text \<open>A duration of at least \<open>n\<close> seconds on the 32-bit counter was at least \<open>n\<close> seconds long.\<close>

lemma secs_ge:
  assumes "(of_nat n :: u32) \<le> secs us" "0 \<le> us" "n < 2 ^ 32"
  shows "int n * 1000000 \<le> us"
proof -
  have q: "us sdiv 1000000 = us div 1000000" using assms(2) by (cases "us = 0") (simp_all add: signed_divide_int_def)
  have "unat (secs us) = nat (us div 1000000 mod 2 ^ 32)"
    using assms(2) by (simp add: secs_def q unsigned_of_int take_bit_eq_mod)
  moreover have "n \<le> unat (secs us)" using assms(1,3) by (simp add: word_le_nat_alt)
  ultimately have "int n \<le> us div 1000000 mod 2 ^ 32" by simp
  moreover have "us div 1000000 mod 2 ^ 32 \<le> us div 1000000" using assms(2) by (simp add: zmod_le_nonneg_dividend)
  ultimately show ?thesis by linarith
qed

lemma secs_reached:
  assumes "int n * 1000000 \<le> us" "us < 2 ^ 32 * 1000000" "n < 2 ^ 32"
  shows "(of_nat n :: u32) \<le> secs us"
proof -
  have us: "0 \<le> us" using assms(1) by linarith
  have q: "us sdiv 1000000 = us div 1000000" using us by (cases "us = 0") (simp_all add: signed_divide_int_def)
  have "us div 1000000 < 2 ^ 32" using assms(2) by simp
  then have "unat (secs us) = nat (us div 1000000)"
    using us by (simp add: secs_def q unsigned_of_int take_bit_eq_mod)
  moreover have "int n \<le> us div 1000000" using assms(1) by linarith
  ultimately show ?thesis using assms(3) by (simp add: word_le_nat_alt)
qed

lemmas rung_defs = rung_wifi_def rung_caster_def rung_gnss_def

section \<open>The supervisor over time\<close>

text \<open>
  Events of the system: the notes of the other tasks and iterations of the supervisor task. The
  ghost log holds the recovery actions with the times the code stamps them, newest first; the
  clock never goes back.
\<close>

record sup_sys =
  y_sup :: sup
  y_now :: int
  y_log :: "(sup_action \<times> int) list"

definition act_time :: "(nat \<Rightarrow> int) \<Rightarrow> sup_action \<Rightarrow> int" where
  "act_time clk a = (case a of RECOVER_WIFI \<Rightarrow> clk 5 | RECOVER_CASTER \<Rightarrow> clk 7 | _ \<Rightarrow> clk 9)"

inductive sup_step :: "sup_sys \<Rightarrow> sup_sys \<Rightarrow> bool" where
  gnss: "y_now y \<le> t \<Longrightarrow> sup_step y (y\<lparr>y_sup := supervisor_note_gnss_rx t (y_sup y), y_now := t\<rparr>)"
| caster: "y_now y \<le> t \<Longrightarrow> sup_step y (y\<lparr>y_sup := supervisor_note_caster_tx t b (y_sup y), y_now := t\<rparr>)"
| ip: "y_now y \<le> t \<Longrightarrow> sup_step y (y\<lparr>y_sup := supervisor_note_sta_ip t up (y_sup y), y_now := t\<rparr>)"
| recovery: "sup_step y (y\<lparr>y_sup := supervisor_set_recovery g c w (y_sup y)\<rparr>)"
| tick: "y_now y \<le> clk 0 \<Longrightarrow> mono clk \<Longrightarrow> supervisor_tick clk heap (y_sup y) = (acts, s') \<Longrightarrow>
    sup_step y (y\<lparr>y_sup := s', y_now := clk 9,
      y_log := map (\<lambda>a. (a, act_time clk a)) (rev acts) @ y_log y\<rparr>)"

definition sup_start :: "sup_sys \<Rightarrow> bool" where
  "sup_start y \<longleftrightarrow> (\<exists>r. y_sup y = sup_init r) \<and> y_log y = [] \<and> y_now y = 0"

definition times :: "sup_action \<Rightarrow> (sup_action \<times> int) list \<Rightarrow> int list" where
  "times a log = map snd (filter (\<lambda>e. fst e = a) log)"

definition spaced :: "int \<Rightarrow> int list \<Rightarrow> bool" where
  "spaced d ts \<longleftrightarrow> sorted_wrt (\<lambda>later earlier. earlier + d \<le> later) ts"

text \<open>The stamp a rung keeps bounds every earlier firing, and is not in the future.\<close>

definition stamp_ok :: "int \<Rightarrow> sup_action \<Rightarrow> int \<Rightarrow> sup_sys \<Rightarrow> bool" where
  "stamp_ok d a stamp y \<longleftrightarrow> spaced d (times a (y_log y)) \<and>
     (\<forall>t \<in> set (times a (y_log y)). t \<le> stamp) \<and> 0 \<le> stamp \<and> stamp \<le> y_now y"

definition sup_inv :: "sup_sys \<Rightarrow> bool" where
  "sup_inv y \<longleftrightarrow> stamp_ok 20000000 RECOVER_GNSS (last_gnss_act (y_sup y)) y \<and>
     stamp_ok 15000000 RECOVER_CASTER (last_caster_act (y_sup y)) y \<and>
     stamp_ok 30000000 RECOVER_WIFI (last_link_act (y_sup y)) y"

lemma stamp_keep:
  "stamp_ok d a stamp y \<Longrightarrow> y_now y \<le> n \<Longrightarrow> stamp_ok d a stamp (y\<lparr>y_sup := s, y_now := n\<rparr>)"
  by (simp add: stamp_ok_def)

lemma times_append: "times a (xs @ ys) = times a xs @ times a ys"
  by (simp add: times_def)

lemma stamp_tick:
  assumes ok: "stamp_ok d a stamp y" and new: "y_now y \<le> n"
    and cases: "times a new_log = [] \<and> stamp2 = stamp \<or> times a new_log = [stamp2] \<and> stamp + d \<le> stamp2 \<and> stamp2 \<le> n"
    and d: "0 \<le> d"
  shows "stamp_ok d a stamp2 (y\<lparr>y_sup := s, y_now := n, y_log := new_log @ y_log y\<rparr>)"
  using assms by (fastforce simp: stamp_ok_def times_append spaced_def)

lemma age_ge:
  assumes "(of_nat n :: u32) \<le> age_s now t" "t \<le> now" "n < 2 ^ 32"
  shows "t + int n * 1000000 \<le> now"
  using secs_ge [of n "now - t"] assms by (simp add: age_s_def)

text \<open>An iteration restarts, does nothing, or walks the three rungs.\<close>

lemma rung_keeps [simp]:
  "last_gnss_act (snd (rung_wifi clk f s)) = last_gnss_act s" "last_caster_act (snd (rung_wifi clk f s)) = last_caster_act s"
  "last_gnss_act (snd (rung_caster clk f s)) = last_gnss_act s" "last_link_act (snd (rung_caster clk f s)) = last_link_act s"
  "last_caster_act (snd (rung_gnss clk f s)) = last_caster_act s" "last_link_act (snd (rung_gnss clk f s)) = last_link_act s"
  by (simp_all add: rung_defs)

text \<open>Whether rung \<open>a\<close> fired: its actions, the stamp before and after, and the debounce that passed.\<close>

definition fired :: "sup_action \<Rightarrow> sup_action list \<Rightarrow> int \<Rightarrow> int \<Rightarrow> int \<Rightarrow> bool \<Rightarrow> bool" where
  "fired a acts before after stamp deb \<longleftrightarrow>
     filter (\<lambda>x. x = a) acts = [] \<and> after = before \<or> filter (\<lambda>x. x = a) acts = [a] \<and> after = stamp \<and> deb"

lemma rung_fired:
  "fired RECOVER_WIFI (fst (rung_wifi clk f s)) (last_link_act s) (last_link_act (snd (rung_wifi clk f s))) (clk 5)
     (DEB_LINK_S \<le> age_s (clk 4) (last_link_act s))"
  "fired RECOVER_CASTER (fst (rung_caster clk f s)) (last_caster_act s) (last_caster_act (snd (rung_caster clk f s))) (clk 7)
     (DEB_CASTER_S \<le> age_s (clk 6) (last_caster_act s))"
  "fired RECOVER_GNSS (fst (rung_gnss clk f s)) (last_gnss_act s) (last_gnss_act (snd (rung_gnss clk f s))) (clk 9)
     (DEB_GNSS_S \<le> age_s (clk 8) (last_gnss_act s))"
  by (simp_all add: fired_def rung_defs)

lemma rung_acts:
  "set (fst (rung_wifi clk f s)) \<subseteq> {RECOVER_WIFI}" "set (fst (rung_caster clk f s)) \<subseteq> {RECOVER_CASTER}"
  "set (fst (rung_gnss clk f s)) \<subseteq> {RECOVER_GNSS}"
  by (simp_all add: rung_defs)

lemma fired_append:
  assumes "fired a acts b c t d" "a \<notin> set xs" "a \<notin> set ys" shows "fired a (xs @ acts @ ys) b c t d"
proof -
  have "filter (\<lambda>x. x = a) xs = []" "filter (\<lambda>x. x = a) ys = []" using assms(2,3) by (auto simp: filter_empty_conv)
  then show ?thesis using assms(1) by (simp add: fired_def)
qed

lemma rungs_fired:
  assumes "rungs clk lf cf gf s = (acts, s')"
  shows "fired RECOVER_GNSS acts (last_gnss_act s) (last_gnss_act s') (clk 9) (DEB_GNSS_S \<le> age_s (clk 8) (last_gnss_act s))"
    and "fired RECOVER_CASTER acts (last_caster_act s) (last_caster_act s') (clk 7) (DEB_CASTER_S \<le> age_s (clk 6) (last_caster_act s))"
    and "fired RECOVER_WIFI acts (last_link_act s) (last_link_act s') (clk 5) (DEB_LINK_S \<le> age_s (clk 4) (last_link_act s))"
proof -
  define r1 where "r1 = rung_wifi clk lf s"
  define r2 where "r2 = rung_caster clk cf (snd r1)"
  define r3 where "r3 = rung_gnss clk gf (snd r2)"
  have r: "acts = fst r1 @ fst r2 @ fst r3" "s' = snd r3"
    using assms by (simp_all add: rungs_def r1_def r2_def r3_def split_beta)
  have a: "set (fst r1) \<subseteq> {RECOVER_WIFI}" "set (fst r2) \<subseteq> {RECOVER_CASTER}" "set (fst r3) \<subseteq> {RECOVER_GNSS}"
    unfolding r1_def r2_def r3_def by (rule rung_acts)+
  have k: "last_gnss_act (snd r2) = last_gnss_act s" "last_caster_act (snd r1) = last_caster_act s"
    "last_caster_act s' = last_caster_act (snd r2)" "last_link_act s' = last_link_act (snd r1)"
    by (simp_all add: r r3_def r2_def r1_def)
  show "fired RECOVER_GNSS acts (last_gnss_act s) (last_gnss_act s') (clk 9) (DEB_GNSS_S \<le> age_s (clk 8) (last_gnss_act s))"
    using fired_append [OF rung_fired(3) [of clk gf "snd r2"], of "fst r1 @ fst r2" "[]"] a k r by (auto simp: r3_def)
  show "fired RECOVER_CASTER acts (last_caster_act s) (last_caster_act s') (clk 7) (DEB_CASTER_S \<le> age_s (clk 6) (last_caster_act s))"
    using fired_append [OF rung_fired(2) [of clk cf "snd r1"], of "fst r1" "fst r3"] a k r by (auto simp: r2_def)
  show "fired RECOVER_WIFI acts (last_link_act s) (last_link_act s') (clk 5) (DEB_LINK_S \<le> age_s (clk 4) (last_link_act s))"
    using fired_append [OF rung_fired(1) [of clk lf s], of "[]" "fst r2 @ fst r3"] a k r by (auto simp: r1_def)
qed

lemma ladder_rungs:
  "supervisor_ladder clk s = ([REBOOT_WEDGE], s\<lparr>s_supervised_reboots := s_supervised_reboots s + 1\<rparr>) \<or>
   (\<exists>lf cf gf. supervisor_ladder clk s = rungs clk lf cf gf s)"
proof -
  have "\<exists>c lf cf gf. supervisor_ladder clk s =
      (if c then ([REBOOT_WEDGE], s\<lparr>s_supervised_reboots := s_supervised_reboots s + 1\<rparr>) else rungs clk lf cf gf s)"
    unfolding supervisor_ladder_def Let_def by blast
  then show ?thesis by metis
qed

lemma tick_cases:
  obtains (idle) "supervisor_tick clk heap s = ([], s)"
  | (reboot) a s1 where "supervisor_tick clk heap s = ([a], s1)" "a = REBOOT_HEAP \<or> a = REBOOT_WEDGE"
      "last_gnss_act s1 = last_gnss_act s" "last_caster_act s1 = last_caster_act s" "last_link_act s1 = last_link_act s"
  | (rungs) lf cf gf k where "supervisor_tick clk heap s = rungs clk lf cf gf (s\<lparr>heap_low_streak := k\<rparr>)"
proof -
  let ?s1 = "s\<lparr>heap_low_streak := heap_low_streak s + 1\<rparr>" and ?s0 = "s\<lparr>heap_low_streak := 0\<rparr>"
  consider "supervisor_tick clk heap s = ([], s)"
    | "supervisor_tick clk heap s = ([REBOOT_HEAP], ?s1\<lparr>s_supervised_reboots := s_supervised_reboots ?s1 + 1\<rparr>)"
    | k where "supervisor_tick clk heap s = supervisor_ladder clk (s\<lparr>heap_low_streak := k\<rparr>)"
    by (cases "secs (clk 0) < GRACE_S"; cases "heap < HEAP_FLOOR_B"; cases "heap_low_streak s + 1 \<ge> HEAP_LOW_S")
      (auto simp: supervisor_tick_def Let_def)
  then show thesis
  proof cases
    case (3 k)
    then show thesis using ladder_rungs [of clk "s\<lparr>heap_low_streak := k\<rparr>"] reboot rungs by auto
  qed (use idle reboot in auto)
qed

text \<open>What an iteration does with each rung's stamp.\<close>

lemma tick_fired:
  assumes "supervisor_tick clk heap s = (acts, s')"
  shows "fired RECOVER_GNSS acts (last_gnss_act s) (last_gnss_act s') (clk 9) (DEB_GNSS_S \<le> age_s (clk 8) (last_gnss_act s)) \<and>
    fired RECOVER_CASTER acts (last_caster_act s) (last_caster_act s') (clk 7) (DEB_CASTER_S \<le> age_s (clk 6) (last_caster_act s)) \<and>
    fired RECOVER_WIFI acts (last_link_act s) (last_link_act s') (clk 5) (DEB_LINK_S \<le> age_s (clk 4) (last_link_act s))"
proof (cases rule: tick_cases [of clk heap s])
  case idle
  then show ?thesis using assms by (simp add: fired_def)
next
  case (reboot a s1)
  then show ?thesis using assms by (auto simp: fired_def)
next
  case (rungs lf cf gf k)
  from rungs_fired [OF trans [OF rungs [symmetric] assms]] show ?thesis by simp
qed

lemma act_time_simps [simp]:
  "act_time clk RECOVER_WIFI = clk 5" "act_time clk RECOVER_CASTER = clk 7" "act_time clk RECOVER_GNSS = clk 9"
  by (simp_all add: act_time_def)

lemma times_new:
  "times a (map (\<lambda>a. (a, act_time clk a)) (rev acts)) = map (act_time clk) (rev (filter (\<lambda>x. x = a) acts))"
  by (induction acts) (auto simp: times_def)

lemma sup_step_inv:
  assumes inv: "sup_inv y" and step: "sup_step y z" shows "sup_inv z"
  using step
proof cases
  case (tick clk heap acts s')
  have ord: "clk 0 \<le> clk 9" "clk 0 \<le> clk 4" "clk 4 \<le> clk 5" "clk 5 \<le> clk 9" "clk 0 \<le> clk 6" "clk 6 \<le> clk 7"
    "clk 7 \<le> clk 9" "clk 0 \<le> clk 8" "clk 8 \<le> clk 9" using tick(3) by (simp_all add: monoD)
  let ?new = "map (\<lambda>a. (a, act_time clk a)) (rev acts)"
  have st: "stamp_ok 20000000 RECOVER_GNSS (last_gnss_act (y_sup y)) y"
    "stamp_ok 15000000 RECOVER_CASTER (last_caster_act (y_sup y)) y" "stamp_ok 30000000 RECOVER_WIFI (last_link_act (y_sup y)) y"
    using inv by (simp_all add: sup_inv_def)
  have pos: "last_gnss_act (y_sup y) \<le> clk 0" "last_caster_act (y_sup y) \<le> clk 0" "last_link_act (y_sup y) \<le> clk 0"
    using st tick(2) by (simp_all add: stamp_ok_def)
  have ts: "fired RECOVER_GNSS acts (last_gnss_act (y_sup y)) (last_gnss_act s') (clk 9) (DEB_GNSS_S \<le> age_s (clk 8) (last_gnss_act (y_sup y)))"
    "fired RECOVER_CASTER acts (last_caster_act (y_sup y)) (last_caster_act s') (clk 7) (DEB_CASTER_S \<le> age_s (clk 6) (last_caster_act (y_sup y)))"
    "fired RECOVER_WIFI acts (last_link_act (y_sup y)) (last_link_act s') (clk 5) (DEB_LINK_S \<le> age_s (clk 4) (last_link_act (y_sup y)))"
    using tick_fired [OF tick(4)] by blast+
  have "stamp_ok 20000000 RECOVER_GNSS (last_gnss_act s') z" unfolding tick(1)
    by (rule stamp_tick [OF st(1)])
      (use ts(1) ord tick(2) pos age_ge [of 20 "clk 8" "last_gnss_act (y_sup y)"] in \<open>auto simp: times_new fired_def\<close>)
  moreover have "stamp_ok 15000000 RECOVER_CASTER (last_caster_act s') z" unfolding tick(1)
    by (rule stamp_tick [OF st(2)])
      (use ts(2) ord tick(2) pos age_ge [of 15 "clk 6" "last_caster_act (y_sup y)"] in \<open>auto simp: times_new fired_def\<close>)
  moreover have "stamp_ok 30000000 RECOVER_WIFI (last_link_act s') z" unfolding tick(1)
    by (rule stamp_tick [OF st(3)])
      (use ts(3) ord tick(2) pos age_ge [of 30 "clk 4" "last_link_act (y_sup y)"] in \<open>auto simp: times_new fired_def\<close>)
  ultimately show ?thesis using tick(1) by (simp add: sup_inv_def)
qed (use inv in \<open>auto simp: sup_inv_def stamp_ok_def supervisor_note_gnss_rx_def supervisor_note_caster_tx_def
      supervisor_note_sta_ip_def supervisor_set_recovery_def\<close>)

lemma sup_start_inv: "sup_start y \<Longrightarrow> sup_inv y"
  by (auto simp: sup_start_def sup_inv_def stamp_ok_def sup_init_def times_def spaced_def)

interpretation sup_machine: machine_invariant sup_start sup_step sup_inv
  by unfold_locales (rule sup_start_inv, assumption, rule sup_step_inv)

section \<open>Properties of the supervisor\<close>

text \<open>Recoveries are debounced. Along any interleaving of notes and supervisor iterations with
  a clock that never goes back, two receiver resets are at least 20 seconds apart, two caster
  reconnects at least 15 and two Wi-Fi restarts at least 30.\<close>

theorem supervisor_debounce:
  assumes "reach sup_start sup_step y"
  shows "spaced 20000000 (times RECOVER_GNSS (y_log y)) \<and> spaced 15000000 (times RECOVER_CASTER (y_log y)) \<and>
    spaced 30000000 (times RECOVER_WIFI (y_log y))"
  using sup_machine.reach_inv [OF assms] by (simp add: sup_inv_def stamp_ok_def)

theorem supervisor_debounce_witness:
  "spaced 20000000 (times RECOVER_GNSS (y_log \<lparr>y_sup = sup_init 0, y_now = 0, y_log = []\<rparr>)) \<and>
   spaced 15000000 (times RECOVER_CASTER (y_log \<lparr>y_sup = sup_init 0, y_now = 0, y_log = []\<rparr>)) \<and>
   spaced 30000000 (times RECOVER_WIFI (y_log \<lparr>y_sup = sup_init 0, y_now = 0, y_log = []\<rparr>))"
  by (rule supervisor_debounce [OF reach.start]) (auto simp: sup_start_def)

lemma tick_ladder:
  assumes "GRACE_S \<le> secs (clk 0)"
  shows "supervisor_tick clk heap s = ([REBOOT_HEAP], s\<lparr>heap_low_streak := heap_low_streak s + 1,
      s_supervised_reboots := s_supervised_reboots s + 1\<rparr>) \<or>
    (\<exists>k. supervisor_tick clk heap s = supervisor_ladder clk (s\<lparr>heap_low_streak := k\<rparr>))"
  using assms by (cases "heap < HEAP_FLOOR_B"; cases "heap_low_streak s + 1 \<ge> HEAP_LOW_S")
    (auto simp: supervisor_tick_def Let_def)

lemma rungs_caster_acts:
  "RECOVER_CASTER \<in> set (fst (rungs clk lf cf gf s)) \<longleftrightarrow>
     cf \<and> s_recover_caster s \<and> DEB_CASTER_S \<le> age_s (clk 6) (last_caster_act s)"
  by (auto simp: rungs_def rung_defs split_beta)

lemma rungs_wifi_acts:
  "RECOVER_WIFI \<in> set (fst (rungs clk lf cf gf s)) \<longleftrightarrow>
     lf \<and> s_recover_wifi s \<and> DEB_LINK_S \<le> age_s (clk 4) (last_link_act s)"
  by (auto simp: rungs_def rung_defs split_beta)

lemma rungs_no_reboot: "REBOOT_WEDGE \<notin> set (fst (rungs clk lf cf gf s))" "REBOOT_HEAP \<notin> set (fst (rungs clk lf cf gf s))"
  by (auto simp: rungs_def rung_defs split_beta)

lemma handshakes_keep:
  "s_caster_seen s \<Longrightarrow> \<forall>(t, b) \<in> set hs. b \<le> 0 \<Longrightarrow>
   fold (\<lambda>(t, b). supervisor_note_caster_tx t b) hs s = s"
  by (induction hs arbitrary: s) (auto simp: supervisor_note_caster_tx_def)

text \<open>C36: A loop of bare handshakes cannot hide a dead caster. Once the watchdog is armed, notes that
  report no accepted byte change nothing, and an iteration after the boot grace that reads a time at
  least 30 seconds past the last accepted byte asks for a reconnect, or restarts the device, when the
  callback is registered and the debounce is over.\<close>

theorem supervisor_caster_liveness:
  assumes "s_caster_seen s" and "\<forall>(t, b) \<in> set hs. b \<le> 0" and "s_recover_caster s"
    and "GRACE_S \<le> secs (clk 0)" and "DEB_CASTER_S \<le> age_s (clk 6) (last_caster_act s)"
    and "s_t_caster s + 30000000 \<le> clk 2" and "clk 2 - s_t_caster s < 2 ^ 32 * 1000000"
  shows "set (fst (supervisor_tick clk heap (fold (\<lambda>(t, b). supervisor_note_caster_tx t b) hs s)))
    \<inter> {RECOVER_CASTER, REBOOT_WEDGE, REBOOT_HEAP} \<noteq> {}"
proof -
  have "TH_CASTER_S \<le> age_s (clk 2) (s_t_caster s)"
    using secs_reached [of 30 "clk 2 - s_t_caster s"] assms(6,7) by (simp add: age_s_def)
  then have l: "set (fst (supervisor_ladder clk (s\<lparr>heap_low_streak := k\<rparr>))) \<inter> {RECOVER_CASTER, REBOOT_WEDGE, REBOOT_HEAP} \<noteq> {}" for k
    using assms(1,3,5) by (simp add: supervisor_ladder_def Let_def rungs_caster_acts)
  consider "fst (supervisor_tick clk heap s) = [REBOOT_HEAP]"
    | k where "supervisor_tick clk heap s = supervisor_ladder clk (s\<lparr>heap_low_streak := k\<rparr>)"
    using tick_ladder [of clk heap s, OF assms(4)] by auto
  then show ?thesis
  proof cases
    case 1
    then show ?thesis by (simp add: handshakes_keep [OF assms(1,2)])
  next
    case (2 k)
    then show ?thesis using l [of k] by (simp only: handshakes_keep [OF assms(1,2)] not_False_eq_True)
  qed
qed

definition demo_sup :: sup where
  "demo_sup = supervisor_note_caster_tx 0 1 (supervisor_set_recovery True True True (sup_init 0))"

lemma secs_eval: "0 \<le> n \<Longrightarrow> secs (n * 1000000) = of_int n"
  by (cases "n = 0") (simp_all add: secs_def signed_divide_int_def)

theorem supervisor_caster_liveness_witness:
  "set (fst (supervisor_tick (\<lambda>_. 40000000) 70000
     (fold (\<lambda>(t, b). supervisor_note_caster_tx t b) [(10000000, 0), (20000000, 0)] demo_sup)))
   \<inter> {RECOVER_CASTER, REBOOT_WEDGE, REBOOT_HEAP} \<noteq> {}"
  by (rule supervisor_caster_liveness)
    (use secs_eval [of 40] in \<open>simp_all add: demo_sup_def supervisor_note_caster_tx_def supervisor_set_recovery_def sup_init_def age_s_def\<close>)

lemma rungs_streak: "heap_low_streak (snd (rungs clk lf cf gf s)) = heap_low_streak s"
  by (simp add: rungs_def rung_defs split_beta)

lemma ladder_streak: "heap_low_streak (snd (supervisor_ladder clk s)) = heap_low_streak s"
  using ladder_rungs [of clk s] rungs_streak by auto

lemma tick_streak:
  "GRACE_S \<le> secs (clk 0) \<Longrightarrow> heap_low_streak (snd (supervisor_tick clk heap s)) =
     (if heap < HEAP_FLOOR_B then heap_low_streak s + 1 else 0)"
  by (auto simp: supervisor_tick_def Let_def ladder_streak)

section \<open>What happened before a restart\<close>
























text \<open>Iterations in sequence, each with its clock and its heap reading.\<close>

definition run_ticks :: "((nat \<Rightarrow> int) \<times> nat) list \<Rightarrow> sup \<Rightarrow> sup" where
  "run_ticks ts s = fold (\<lambda>(clk, heap) s. snd (supervisor_tick clk heap s)) ts s"

lemma run_streak:
  "\<forall>(clk, heap) \<in> set ts. GRACE_S \<le> secs (clk 0) \<Longrightarrow> heap_low_streak s = 0 \<Longrightarrow>
   heap_low_streak (run_ticks ts s) = int (length (takeWhile (\<lambda>h. h < HEAP_FLOOR_B) (rev (map snd ts))))"
proof (induction ts rule: rev_induct)
  case (snoc t ts)
  then show ?case by (cases t) (simp add: run_ticks_def tick_streak)
qed (simp add: run_ticks_def)

text \<open>The heap guard counts consecutive iterations. After iterations past the boot grace, the next
  iteration orders the heap restart exactly when its own reading and the fourteen before it were all
  below the floor; one good reading starts the count again.\<close>

theorem supervisor_heap_guard:
  assumes "\<forall>(clk, heap) \<in> set ts. GRACE_S \<le> secs (clk 0)" and "GRACE_S \<le> secs (clk 0)"
    and "heap_low_streak s = 0"
  shows "REBOOT_HEAP \<in> set (fst (supervisor_tick clk heap (run_ticks ts s))) \<longleftrightarrow>
    15 \<le> length (takeWhile (\<lambda>h. h < HEAP_FLOOR_B) (heap # rev (map snd ts)))"
proof -
  have "REBOOT_HEAP \<notin> set (fst (supervisor_ladder clk t))" for t
    using ladder_rungs [of clk t] rungs_no_reboot(2) by auto
  then show ?thesis using assms(2) run_streak [OF assms(1,3)]
    by (auto simp: supervisor_tick_def Let_def)
qed

theorem supervisor_heap_guard_witness:
  "REBOOT_HEAP \<in> set (fst (supervisor_tick (\<lambda>_. 40000000) 900 (run_ticks (replicate 14 (\<lambda>_. 40000000, 1000)) (sup_init 0))))"
proof -
  have "30 \<le> secs 40000000" using secs_eval [of 40] by simp
  then show ?thesis
    using supervisor_heap_guard [of "replicate 14 (\<lambda>_. 40000000, 1000)" "\<lambda>_. 40000000" "sup_init 0" 900]
    by (simp add: sup_init_def takeWhile_replicate)
qed

text \<open>The link rung measures the wrong interval. The time it compares with the 60-second threshold
  is taken from the moment the address was obtained, not from the moment it was lost: a station that
  has been online for a minute or more and loses its link is judged down for that long by the very
  next iteration, which restarts the Wi-Fi driver at once.\<close>

theorem supervisor_link_fault_immediate:
  assumes "GRACE_S \<le> secs (clk 0)" and "s_recover_wifi s" and "DEB_LINK_S \<le> age_s (clk 4) (last_link_act s)"
    and "\<not> s_caster_seen s" and "heap \<ge> HEAP_FLOOR_B"
    and "up + 60000000 \<le> down" and "clk 3 = down" and "down - up < 2 ^ 32 * 1000000"
  shows "RECOVER_WIFI \<in> set (fst (supervisor_tick clk heap
    (supervisor_note_sta_ip down False (supervisor_note_sta_ip up True s))))"
proof -
  have "TH_LINK_S \<le> age_s (clk 3) up" using secs_reached [of 60 "down - up"] assms(6-8) by (simp add: age_s_def)
  then show ?thesis using assms(1-5)
    by (simp add: supervisor_tick_def supervisor_ladder_def Let_def rungs_wifi_acts supervisor_note_sta_ip_def)
qed

theorem supervisor_link_fault_immediate_witness:
  "RECOVER_WIFI \<in> set (fst (supervisor_tick (\<lambda>_. 100000000) 70000
     (supervisor_note_sta_ip 100000000 False (supervisor_note_sta_ip 40000000 True
        (supervisor_set_recovery True True True (sup_init 0))))))"
  by (rule supervisor_link_fault_immediate)
    (use secs_eval [of 100] in \<open>simp_all add: sup_init_def supervisor_set_recovery_def age_s_def\<close>)

end
