(* ===== verification/Ntrip_Ingest.thy ===== *)
theory Ntrip_Ingest
  imports Tx_Core Retry_Backoff Supervisor
begin

text \<open>
  The shared half of \<open>src/main/interface/ntrip_server.c\<close>: the instance registry, the RTCM ingest
  path from a UART chunk to the frame ring and the wake-up of the instances, the freshness
  contract of the required message types, the keep-alive of an instance, and the statistics.

  Instances are heap objects shared by several tasks: the state maps handles to them, the registry
  array holds handles. An event group is its three flags. Every region under a mutex is one step.
\<close>

section \<open>The state\<close>

record event_bits =
  caster_ready :: bool
  data_ready :: bool
  data_sent :: bool

record ntrip_instance =
  i_suffix :: string
  i_index :: int
  i_ev :: "event_bits option"
  i_task_server :: bool
  i_notified :: nat
  i_task_sleep :: bool
  i_sleep_running :: bool
  i_led_active :: "bool option"
  i_stats :: bool
  i_retry :: "retry_delay_t option"
  i_sock :: int
  i_data_keep_alive :: int
  i_tx :: ntrip_tx
  i_reconnect_gen :: u32

type_synonym handle = nat

record server =
  g_instances :: "handle option list"
  g_instance_count :: nat
  g_instances_mutex :: bool
  g_heap :: "handle \<Rightarrow> ntrip_instance option"
  g_rtcm_parser :: rtcm_parser
  g_frame_ring :: ntrip_ring
  g_ring_mutex :: bool
  s_msg_last_ms :: "u32 list"
  s_msg_epoch :: "u32 list"
  s_epoch :: u32
  s_epoch_started_ms :: u32
  s_ingest_reset_req :: bool
  g_sup :: sup

abbreviation MAX_NTRIP_SERVERS :: nat where "MAX_NTRIP_SERVERS \<equiv> 10"
abbreviation NTRIP_KEEP_ALIVE_THRESHOLD :: int where "NTRIP_KEEP_ALIVE_THRESHOLD \<equiv> 10000"

definition server_boot :: "u32 \<Rightarrow> server" where
  "server_boot reboots = \<lparr>g_instances = replicate MAX_NTRIP_SERVERS None, g_instance_count = 0,
     g_instances_mutex = False, g_heap = (\<lambda>_. None), g_rtcm_parser = rtcm_parser_init,
     g_frame_ring = ntrip_ring_init, g_ring_mutex = False, s_msg_last_ms = replicate 4 0,
     s_msg_epoch = replicate 4 0, s_epoch = 1, s_epoch_started_ms = 0, s_ingest_reset_req = False,
     g_sup = sup_init reboots\<rparr>"

section \<open>Keep-alive of an instance\<close>

definition ntrip_server_update_data_state :: "event_bits \<Rightarrow> ntrip_instance \<Rightarrow> bool \<times> ntrip_instance" where
  "ntrip_server_update_data_state bits inst =
     (case i_ev inst of
        None \<Rightarrow> (False, inst)
      | Some ev \<Rightarrow>
          let ev = (if \<not> data_ready bits then ev\<lparr>data_ready := True\<rparr> else ev);
              inst = inst\<lparr>i_ev := Some ev, i_data_keep_alive := 0\<rparr>
          in if \<not> caster_ready bits then (False, inst)
             else let ev = (if \<not> data_sent bits then ev\<lparr>data_sent := True\<rparr> else ev)
                  in (True, inst\<lparr>i_ev := Some ev\<rparr>))"

definition ntrip_server_update_keep_alive_counter :: "ntrip_instance \<Rightarrow> ntrip_instance" where
  "ntrip_server_update_keep_alive_counter inst =
     (if i_data_keep_alive inst < NTRIP_KEEP_ALIVE_THRESHOLD
      then let k = i_data_keep_alive inst + NTRIP_KEEP_ALIVE_THRESHOLD div 10
           in inst\<lparr>i_data_keep_alive :=
                (if k > NTRIP_KEEP_ALIVE_THRESHOLD then NTRIP_KEEP_ALIVE_THRESHOLD else k)\<rparr>
      else inst)"

definition ntrip_server_handle_keep_alive_timeout :: "ntrip_instance \<Rightarrow> ntrip_instance" where
  "ntrip_server_handle_keep_alive_timeout inst =
     (case i_ev inst of
        None \<Rightarrow> inst
      | Some ev \<Rightarrow>
          if i_data_keep_alive inst \<ge> NTRIP_KEEP_ALIVE_THRESHOLD \<and> data_ready ev
          then inst\<lparr>i_ev := Some (ev\<lparr>data_ready := False\<rparr>)\<rparr> else inst)"

text \<open>The elapsed counter after a tick, and whether the status line is logged.\<close>

definition ntrip_server_periodic_monitor :: "int \<Rightarrow> int \<Rightarrow> int \<times> bool" where
  "ntrip_server_periodic_monitor elapsed interval =
     (let e = elapsed + NTRIP_KEEP_ALIVE_THRESHOLD div 10
      in if e \<ge> interval then (0, True) else (e, False))"

text \<open>One iteration of the sleep task, a second apart.\<close>

definition sleep_task_tick :: "ntrip_instance \<times> int \<Rightarrow> (ntrip_instance \<times> int) \<times> bool" where
  "sleep_task_tick st =
     (let inst = ntrip_server_update_keep_alive_counter (fst st);
          inst = ntrip_server_handle_keep_alive_timeout inst;
          (elapsed, logged) = ntrip_server_periodic_monitor (snd st) 3600
      in ((inst, elapsed), logged))"

section \<open>The registry\<close>

definition shift_left :: "'a list \<Rightarrow> nat \<Rightarrow> nat \<Rightarrow> 'a list" where
  "shift_left arr k n = foldl (\<lambda>a j. a[j - 1 := a ! j]) arr [k + 1..<n]"

definition find_handle :: "handle \<Rightarrow> server \<Rightarrow> nat option" where
  "find_handle h s = find (\<lambda>k. g_instances s ! k = Some h) [0..<g_instance_count s]"

definition ntrip_server_deregister_instance :: "handle \<Rightarrow> server \<Rightarrow> server" where
  "ntrip_server_deregister_instance h s =
     (if \<not> g_instances_mutex s then s
      else case find_handle h s of
             None \<Rightarrow> s
           | Some k \<Rightarrow>
               let arr = shift_left (g_instances s) k (g_instance_count s);
                   n = g_instance_count s - 1
               in s\<lparr>g_instances := arr[n := None], g_instance_count := n\<rparr>)"

definition register_instance :: "handle \<Rightarrow> server \<Rightarrow> bool \<times> server" where
  "register_instance h s =
     (if g_instance_count s < MAX_NTRIP_SERVERS
      then (True, s\<lparr>g_instances := (g_instances s)[g_instance_count s := Some h],
                    g_instance_count := g_instance_count s + 1\<rparr>)
      else (False, s))"

definition ntrip_server_abort_task_init :: "handle \<Rightarrow> server \<Rightarrow> server" where
  "ntrip_server_abort_task_init h s =
     (let s = ntrip_server_deregister_instance h s in s\<lparr>g_heap := (g_heap s)(h := None)\<rparr>)"

definition upd_inst :: "(ntrip_instance \<Rightarrow> ntrip_instance) \<Rightarrow> handle option \<Rightarrow> server \<Rightarrow> server" where
  "upd_inst f ho s =
     (case ho of None \<Rightarrow> s
      | Some h \<Rightarrow> (case g_heap s h of None \<Rightarrow> s | Some i \<Rightarrow> s\<lparr>g_heap := (g_heap s)(h := Some (f i))\<rparr>))"

definition registered :: "server \<Rightarrow> handle option list" where
  "registered s = take (g_instance_count s) (g_instances s)"

definition ntrip_server_reconnect_all :: "server \<Rightarrow> server" where
  "ntrip_server_reconnect_all s =
     (if \<not> g_instances_mutex s then s
      else fold (upd_inst (\<lambda>i. i\<lparr>i_reconnect_gen := i_reconnect_gen i + 1\<rparr>)) (registered s) s)"

section \<open>Freshness of the required messages\<close>

abbreviation NTRIP_REQUIRED_MSG_COUNT :: nat where "NTRIP_REQUIRED_MSG_COUNT \<equiv> 4"

definition ntrip_required_msgs :: "nat list" where
  "ntrip_required_msgs = [1005, 1033, 1077, 1087]"

definition s_required_budget_ms :: "u32 list" where
  "s_required_budget_ms = [30000, 30000, 5000, 5000]"

definition ntrip_server_msg_epoch_reset :: "u32 \<Rightarrow> server \<Rightarrow> server" where
  "ntrip_server_msg_epoch_reset now s =
     (let s = s\<lparr>s_epoch_started_ms := now, s_epoch := s_epoch s + 1\<rparr>;
          s = (if s_epoch s = 0 then s\<lparr>s_epoch := 1\<rparr> else s)
      in s\<lparr>s_ingest_reset_req := True\<rparr>)"

record msg_freshness =
  mf_type :: "nat list"
  mf_age_ms :: "u32 list"
  mf_fresh :: "bool list"
  mf_all_fresh :: bool

text \<open>The verdict on one required type, from the sample's timestamp and epoch tag.\<close>

definition msg_in_epoch :: "u32 \<Rightarrow> u32 \<Rightarrow> u32 \<Rightarrow> u32 \<Rightarrow> bool" where
  "msg_in_epoch epoch since last_ms tag \<longleftrightarrow> tag = epoch \<and> sint (last_ms - since) > 0"

definition msg_age :: "u32 \<Rightarrow> u32 \<Rightarrow> u32 \<Rightarrow> u32 \<Rightarrow> u32 \<Rightarrow> u32" where
  "msg_age now epoch since last_ms tag =
     (if msg_in_epoch epoch since last_ms tag then now - last_ms else 0xFFFFFFFF)"

definition msg_fresh :: "u32 \<Rightarrow> u32 \<Rightarrow> u32 \<Rightarrow> u32 \<Rightarrow> u32 \<Rightarrow> u32 \<Rightarrow> bool" where
  "msg_fresh now epoch since budget last_ms tag =
     (if msg_in_epoch epoch since last_ms tag then now - last_ms \<le> budget else False)"

text \<open>
  The snapshot is taken without a lock: \<open>later\<close> is the epoch the reader finds when it looks
  again at the end.
\<close>

definition ntrip_server_msg_freshness :: "u32 \<Rightarrow> u32 \<Rightarrow> server \<Rightarrow> msg_freshness" where
  "ntrip_server_msg_freshness now later s =
     (let idx = [0..<NTRIP_REQUIRED_MSG_COUNT];
          fresh = map (\<lambda>i. msg_fresh now (s_epoch s) (s_epoch_started_ms s) (s_required_budget_ms ! i)
                     (s_msg_last_ms s ! i) (s_msg_epoch s ! i)) idx
      in \<lparr>mf_type = ntrip_required_msgs,
          mf_age_ms = map (\<lambda>i. msg_age now (s_epoch s) (s_epoch_started_ms s)
             (s_msg_last_ms s ! i) (s_msg_epoch s ! i)) idx,
          mf_fresh = fresh,
          mf_all_fresh = (list_all id fresh \<and> later = s_epoch s)\<rparr>)"

section \<open>The ingest path\<close>

definition frame_type :: "u8 list \<Rightarrow> nat" where
  "frame_type f = unat (push_bit 4 (ucast (f ! 3) :: u16) OR drop_bit 4 (ucast (f ! 4) :: u16))"

text \<open>The bookkeeping of the required types: the first index whose type matches is stamped.\<close>

definition note_msg_type :: "u8 list \<Rightarrow> u32 \<Rightarrow> server \<Rightarrow> server" where
  "note_msg_type f now s =
     (if 6 \<le> length f
      then case find (\<lambda>i. ntrip_required_msgs ! i = frame_type f) [0..<NTRIP_REQUIRED_MSG_COUNT] of
             None \<Rightarrow> s
           | Some i \<Rightarrow> s\<lparr>s_msg_last_ms := (s_msg_last_ms s)[i := now],
                         s_msg_epoch := (s_msg_epoch s)[i := s_epoch s]\<rparr>
      else s)"

definition ntrip_server_on_frame :: "int \<Rightarrow> server option \<Rightarrow> u8 list \<Rightarrow> u32 \<Rightarrow> server option" where
  "ntrip_server_on_frame now_us so f now = do {
     s \<leftarrow> so;
     let s = note_msg_type f now s;
     let s = s\<lparr>g_sup := supervisor_note_gnss_rx now_us (g_sup s)\<rparr>;
     r \<leftarrow> ntrip_ring_push (g_frame_ring s) f (length f) now;
     Some (s\<lparr>g_frame_ring := r\<rparr>)
   }"

text \<open>The wake-up of one registered instance after new frames.\<close>

definition wake_instance :: "ntrip_instance \<Rightarrow> ntrip_instance" where
  "wake_instance inst =
     (case i_ev inst of
        None \<Rightarrow> inst
      | Some bits \<Rightarrow>
          let (send, inst) = ntrip_server_update_data_state bits inst
          in if send \<and> i_task_server inst then inst\<lparr>i_notified := i_notified inst + 1\<rparr> else inst)"

definition ntrip_server_ingest_uart :: "u32 \<Rightarrow> int \<Rightarrow> u8 list \<Rightarrow> server \<Rightarrow> server option" where
  "ntrip_server_ingest_uart now now_us data s =
     (if \<not> g_ring_mutex s \<or> data = [] then Some s
      else
        let s = (if s_ingest_reset_req s
                 then s\<lparr>s_ingest_reset_req := False, g_rtcm_parser := rtcm_parser_init\<rparr> else s);
            frames_before = r_next_seq (g_frame_ring s)
        in do {
          (p, so) \<leftarrow> rtcm_parser_feed (Some (ntrip_server_on_frame now_us)) now (g_rtcm_parser s) (Some s) data;
          s \<leftarrow> so;
          let s = s\<lparr>g_rtcm_parser := p\<rparr>;
          if r_next_seq (g_frame_ring s) = frames_before then Some s
          else if g_instances_mutex s then Some (fold (upd_inst wake_instance) (registered s) s)
          else Some s
        })"

definition ntrip_server_ingest_init :: "bool \<Rightarrow> server \<Rightarrow> server" where
  "ntrip_server_ingest_init mutex_ok s =
     (if g_ring_mutex s then s
      else if \<not> mutex_ok then s
      else s\<lparr>g_rtcm_parser := rtcm_parser_init, g_frame_ring := ntrip_ring_init, g_ring_mutex := True\<rparr>)"

section \<open>Statistics\<close>

record ntrip_tx_stats =
  st_index :: int
  st_connected :: bool
  st_tx :: ntrip_tx
  st_pending :: u32

definition ev_connected :: "ntrip_instance \<Rightarrow> bool" where
  "ev_connected i = (case i_ev i of None \<Rightarrow> False | Some ev \<Rightarrow> caster_ready ev)"

definition instances_of :: "server \<Rightarrow> ntrip_instance list" where
  "instances_of s = List.map_filter (\<lambda>ho. Option.bind ho (g_heap s)) (registered s)"

definition ntrip_server_tx_stats :: "nat \<Rightarrow> server \<Rightarrow> ntrip_tx_stats list" where
  "ntrip_server_tx_stats maxn s =
     (if \<not> g_instances_mutex s then []
      else map (\<lambda>i. \<lparr>st_index = i_index i, st_connected = ev_connected i, st_tx = i_tx i,
                      st_pending = ntrip_tx_pending (i_tx i)\<rparr>) (take maxn (instances_of s)))"

record ntrip_tx_totals =
  to_frames_ok :: u64
  to_bytes_ok :: u64
  to_bytes_discarded :: u64
  to_crc_errors :: u64
  to_accepted :: u64
  to_sent_frames :: u64
  to_dropped :: u64
  to_skipped :: u64
  to_stale :: u64
  to_eagain :: u64
  to_reconnects :: u32
  to_max_queue_age :: u32
  to_instances :: u32
  to_connected :: u32
  to_req_fresh :: bool
  to_req_missing :: u32

definition add_totals :: "ntrip_instance \<Rightarrow> ntrip_tx_totals \<Rightarrow> ntrip_tx_totals" where
  "add_totals i out =
     (let tx = i_tx i in
      out\<lparr>to_instances := to_instances out + 1,
        to_connected := (if ev_connected i then to_connected out + 1 else to_connected out),
        to_accepted := to_accepted out + t_accepted_to_lwip tx,
        to_sent_frames := to_sent_frames out + t_sent_frames tx,
        to_dropped := to_dropped out + t_dropped_bytes tx,
        to_skipped := to_skipped out + t_skipped_bytes tx,
        to_stale := to_stale out + t_dropped_stale_bytes tx,
        to_eagain := to_eagain out + t_eagain_count tx,
        to_reconnects := to_reconnects out + t_reconnects tx,
        to_max_queue_age := (if t_max_queue_age_ms tx > to_max_queue_age out
                             then t_max_queue_age_ms tx else to_max_queue_age out)\<rparr>)"

record ntrip_ingest_stats =
  in_frames_ok :: u64
  in_bytes_ok :: u64
  in_bytes_discarded :: u64
  in_crc_errors :: u64
  in_ring_pushed_frames :: u64
  in_ring_cum_bytes :: u64

definition ntrip_server_ingest_stats :: "server \<Rightarrow> ntrip_ingest_stats" where
  "ntrip_server_ingest_stats s =
     (let p = g_rtcm_parser s; r = g_frame_ring s in
      \<lparr>in_frames_ok = p_frames_ok p, in_bytes_ok = p_bytes_ok p, in_bytes_discarded = p_bytes_discarded p,
        in_crc_errors = p_crc_errors p, in_ring_pushed_frames = r_pushed_frames r,
        in_ring_cum_bytes = r_cum_bytes r\<rparr>)"

definition ntrip_server_tx_totals :: "u32 \<Rightarrow> u32 \<Rightarrow> server \<Rightarrow> ntrip_tx_totals" where
  "ntrip_server_tx_totals now later s =
     (let ing = ntrip_server_ingest_stats s;
          fr = ntrip_server_msg_freshness now later s;
          out = \<lparr>to_frames_ok = in_frames_ok ing, to_bytes_ok = in_bytes_ok ing,
                 to_bytes_discarded = in_bytes_discarded ing, to_crc_errors = in_crc_errors ing,
                 to_accepted = 0, to_sent_frames = 0, to_dropped = 0, to_skipped = 0, to_stale = 0,
                 to_eagain = 0, to_reconnects = 0, to_max_queue_age = 0, to_instances = 0,
                 to_connected = 0, to_req_fresh = mf_all_fresh fr,
                 to_req_missing = of_nat (length (filter Not (mf_fresh fr)))\<rparr>
      in if \<not> g_instances_mutex s then out else fold add_totals (instances_of s) out)"

section \<open>The ingest path fills the ring\<close>

definition ingest_view :: "server option \<Rightarrow> frame_log \<Rightarrow> bool" where
  "ingest_view so L \<longleftrightarrow> (\<exists>s. so = Some s \<and> ring_holds (g_frame_ring s) L)"

lemma note_msg_ring [simp]:
  "g_frame_ring (note_msg_type f now s) = g_frame_ring s" "g_instances (note_msg_type f now s) = g_instances s"
  "g_ring_mutex (note_msg_type f now s) = g_ring_mutex s"
  "s_ingest_reset_req (note_msg_type f now s) = s_ingest_reset_req s"
  "g_instance_count (note_msg_type f now s) = g_instance_count s" "g_heap (note_msg_type f now s) = g_heap s"
  by (simp_all add: note_msg_type_def split: option.splits)

text \<open>The callback of the server is a sink for the parser's frames.\<close>

interpretation ingest_sink: frame_sink ingest_view "ntrip_server_on_frame now_us" for now_us
proof unfold_locales
  fix c L f now
  assume a: "ingest_view c L" "valid_frame f"
  then obtain s where s: "c = Some s" "ring_holds (g_frame_ring s) L" by (auto simp: ingest_view_def)
  obtain r' where "ntrip_ring_push (g_frame_ring s) f (length f) now = Some r'" "ring_holds r' (L @ [(f, now)])"
    using s(2) valid_frame_len_ok [OF a(2)] by (rule ring_push_holds)
  with s show "ingest_view (ntrip_server_on_frame now_us c f now) (L @ [(f, now)])"
    by (simp add: ingest_view_def ntrip_server_on_frame_def Let_def)
qed

lemma upd_inst_keeps [simp]:
  "g_frame_ring (upd_inst f ho s) = g_frame_ring s" "g_rtcm_parser (upd_inst f ho s) = g_rtcm_parser s"
  "g_ring_mutex (upd_inst f ho s) = g_ring_mutex s" "s_msg_last_ms (upd_inst f ho s) = s_msg_last_ms s"
  "s_msg_epoch (upd_inst f ho s) = s_msg_epoch s" "s_epoch (upd_inst f ho s) = s_epoch s"
  "s_epoch_started_ms (upd_inst f ho s) = s_epoch_started_ms s" "s_ingest_reset_req (upd_inst f ho s) = s_ingest_reset_req s"
  by (simp_all add: upd_inst_def split: option.splits)

lemma fold_upd_inst_keeps [simp]:
  "g_frame_ring (fold (upd_inst f) hs s) = g_frame_ring s" "g_rtcm_parser (fold (upd_inst f) hs s) = g_rtcm_parser s"
  "g_ring_mutex (fold (upd_inst f) hs s) = g_ring_mutex s"
  "s_ingest_reset_req (fold (upd_inst f) hs s) = s_ingest_reset_req s"
  by (induction hs arbitrary: s) simp_all

text \<open>The bytes the next chunk is appended to: none when a receiver reset is pending.\<close>

definition held :: "server \<Rightarrow> u8 list" where
  "held s = (if s_ingest_reset_req s then [] else pending (g_rtcm_parser s))"

section \<open>Properties of the ingest path\<close>

lemma on_frame_keeps_flags:
  assumes "ntrip_server_on_frame now_us (Some s) f now = Some s'"
  shows "g_ring_mutex s' = g_ring_mutex s" "s_ingest_reset_req s' = s_ingest_reset_req s"
  using assms by (auto simp: ntrip_server_on_frame_def Let_def split: Option.bind_splits)

lemma deliver_keeps_flags:
  "foldl (deliver (Some (ntrip_server_on_frame now_us)) now) (Some s) fs = Some s' \<Longrightarrow>
   g_ring_mutex s' = g_ring_mutex s \<and> s_ingest_reset_req s' = s_ingest_reset_req s"
proof (induction fs arbitrary: s)
  case (Cons f fs)
  show ?case
  proof (cases "ntrip_server_on_frame now_us (Some s) f now")
    case None
    have n: "foldl (deliver (Some (ntrip_server_on_frame now_us)) now) None gs = None" for gs
      by (induction gs) (simp_all add: deliver_def [of "Some _"] ntrip_server_on_frame_def)
    have "foldl (deliver (Some (ntrip_server_on_frame now_us)) now) (Some s) (f # fs) = None"
      using None n by (simp add: deliver_def [of "Some _"])
    with Cons.prems show ?thesis by simp
  next
    case (Some t)
    with Cons.prems Cons.IH [of t] on_frame_keeps_flags [OF Some] show ?thesis by (simp add: deliver_def)
  qed
qed simp

text \<open>What one call of the ingest path does.\<close>

lemma ingest_effect:
  assumes "g_ring_mutex s" and "data \<noteq> []" and "parser_ok (g_rtcm_parser s)" and "ring_holds (g_frame_ring s) L"
  shows "\<exists>s'. ntrip_server_ingest_uart now now_us data s = Some s' \<and> parser_ok (g_rtcm_parser s') \<and>
    ring_holds (g_frame_ring s') (L @ map (\<lambda>f. (f, now)) (sc_frames (rtcm_scan (held s @ data)))) \<and>
    pending (g_rtcm_parser s') = sc_rest (rtcm_scan (held s @ data)) \<and>
    (sc_frames (rtcm_scan (held s @ data)) = [] \<longrightarrow> g_heap s' = g_heap s) \<and>
    g_ring_mutex s' \<and> \<not> s_ingest_reset_req s'"
proof -
  define s1 where "s1 = (if s_ingest_reset_req s
      then s\<lparr>s_ingest_reset_req := False, g_rtcm_parser := rtcm_parser_init\<rparr> else s)"
  define r where "r = rtcm_scan (held s @ data)"
  let ?cb = "Some (ntrip_server_on_frame now_us)"
  have ok: "parser_ok (g_rtcm_parser s1)" "pending (g_rtcm_parser s1) = held s"
    using assms(3) parser_init_ok by (simp_all add: s1_def held_def)
  have h1: "g_frame_ring s1 = g_frame_ring s" "g_heap s1 = g_heap s" by (simp_all add: s1_def)
  obtain p c where f: "rtcm_parser_feed ?cb now (g_rtcm_parser s1) (Some s1) data = Some (p, c)" "parser_ok p"
    and a: "parser_after ?cb now (g_rtcm_parser s1) (Some s1) (rtcm_scan (pending (g_rtcm_parser s1) @ data)) p c"
    using ok(1) by (rule feed_scanE)
  have c: "c = foldl (deliver ?cb now) (Some s1) (sc_frames r)" and p: "pending p = sc_rest r"
    using a ok(2) by (simp_all add: parser_after_def r_def)
  have "ingest_view c (L @ map (\<lambda>f. (f, now)) (sc_frames r))"
    unfolding c by (rule ingest_sink.deliver_all) (use assms(4) h1 rtcm_scan_valid in \<open>auto simp: ingest_view_def r_def\<close>)
  then obtain s2 where s2: "c = Some s2" "ring_holds (g_frame_ring s2) (L @ map (\<lambda>f. (f, now)) (sc_frames r))"
    by (auto simp: ingest_view_def)
  define s3 where "s3 = s2\<lparr>g_rtcm_parser := p\<rparr>"
  define s4 where "s4 = (if r_next_seq (g_frame_ring s3) = r_next_seq (g_frame_ring s1) then s3
      else if g_instances_mutex s3 then fold (upd_inst wake_instance) (registered s3) s3 else s3)"
  have "g_frame_ring s3 = g_frame_ring s2" by (simp add: s3_def)
  then have "ntrip_server_ingest_uart now now_us data s = Some s4"
    using assms(1,2) f(1) s2(1)
    by (simp add: ntrip_server_ingest_uart_def Let_def s1_def [symmetric] s3_def [symmetric] s4_def)
  moreover have "g_rtcm_parser s4 = p" "g_frame_ring s4 = g_frame_ring s2" by (simp_all add: s4_def s3_def)
  moreover have "sc_frames r = [] \<longrightarrow> g_heap s4 = g_heap s"
    using s2(1) c h1 by (auto simp: s4_def s3_def)
  moreover have "g_ring_mutex s4" "\<not> s_ingest_reset_req s4"
    using deliver_keeps_flags [of now_us now s1 "sc_frames r" s2] s2(1) c assms(1)
    by (simp_all add: s4_def s3_def s1_def)
  ultimately show ?thesis using f(2) s2(2) p by (auto simp: r_def)
qed

text \<open>A UART chunk reaches the ring exactly as its valid frames. On an initialised server whose
  parser and ring satisfy their invariants, the ingest call returns, keeps both invariants, and
  appends to the ring's log exactly the CRC-valid frames of the held bytes followed by the chunk, in
  order and stamped with the call's time; after a receiver reset the held bytes of the old epoch are
  dropped first. A chunk that completes no frame touches no instance.\<close>

theorem ingest_appends_valid_frames:
  assumes "g_ring_mutex s" and "data \<noteq> []" and "parser_ok (g_rtcm_parser s)" and "ring_holds (g_frame_ring s) L"
  shows "\<exists>s'. ntrip_server_ingest_uart now now_us data s = Some s' \<and> parser_ok (g_rtcm_parser s') \<and>
    ring_holds (g_frame_ring s') (L @ map (\<lambda>f. (f, now)) (sc_frames (rtcm_scan (held s @ data)))) \<and>
    pending (g_rtcm_parser s') = sc_rest (rtcm_scan (held s @ data)) \<and>
    (sc_frames (rtcm_scan (held s @ data)) = [] \<longrightarrow> g_heap s' = g_heap s)"
  using ingest_effect [OF assms] by blast

definition demo_server :: server where
  "demo_server = ntrip_server_ingest_init True (server_boot 0)"

theorem ingest_appends_valid_frames_witness:
  "\<exists>s'. ntrip_server_ingest_uart 5 5000 [0xD3, 0, 0] demo_server = Some s' \<and> parser_ok (g_rtcm_parser s') \<and>
    ring_holds (g_frame_ring s') ([] @ map (\<lambda>f. (f, 5)) (sc_frames (rtcm_scan (held demo_server @ [0xD3, 0, 0])))) \<and>
    pending (g_rtcm_parser s') = sc_rest (rtcm_scan (held demo_server @ [0xD3, 0, 0])) \<and>
    (sc_frames (rtcm_scan (held demo_server @ [0xD3, 0, 0])) = [] \<longrightarrow> g_heap s' = g_heap demo_server)"
  by (rule ingest_appends_valid_frames)
    (simp_all add: demo_server_def ntrip_server_ingest_init_def server_boot_def parser_init_ok ring_init_holds)

section \<open>Freshness\<close>

lemma required_index:
  assumes "find (\<lambda>i. ntrip_required_msgs ! i = frame_type f) [0..<NTRIP_REQUIRED_MSG_COUNT] = Some i"
  shows "i < 4" "ntrip_required_msgs ! i = frame_type f"
  using assms by (auto simp: find_Some_iff)

text \<open>Frames noted one after the other, each at its receive time.\<close>

definition note_all :: "(u8 list \<times> u32) list \<Rightarrow> server \<Rightarrow> server" where
  "note_all fs s = fold (\<lambda>(f, t). note_msg_type f t) fs s"

definition sample :: "nat \<Rightarrow> server \<Rightarrow> u32 \<times> u32" where
  "sample i s = (s_msg_last_ms s ! i, s_msg_epoch s ! i)"

lemma note_msg_keeps:
  "s_epoch (note_msg_type f t s) = s_epoch s" "s_epoch_started_ms (note_msg_type f t s) = s_epoch_started_ms s"
  "length (s_msg_last_ms (note_msg_type f t s)) = length (s_msg_last_ms s)"
  "length (s_msg_epoch (note_msg_type f t s)) = length (s_msg_epoch s)"
  by (simp_all add: note_msg_type_def split: option.splits)

lemma note_all_snoc: "note_all (fs @ [(f, t)]) s = note_msg_type f t (note_all fs s)"
  by (simp add: note_all_def)

lemma note_all_keeps:
  "s_epoch (note_all fs s) = s_epoch s \<and> s_epoch_started_ms (note_all fs s) = s_epoch_started_ms s \<and>
   length (s_msg_last_ms (note_all fs s)) = length (s_msg_last_ms s) \<and>
   length (s_msg_epoch (note_all fs s)) = length (s_msg_epoch s)"
proof (induction fs rule: rev_induct)
  case (snoc e fs)
  then show ?case by (cases e) (simp add: note_all_snoc note_msg_keeps)
qed (simp add: note_all_def)

lemma note_msg_sample:
  assumes "length (s_msg_last_ms s) = 4" "length (s_msg_epoch s) = 4"
  shows "sample i (note_msg_type f t s) = sample i s \<or>
    frame_type f = ntrip_required_msgs ! i \<and> fst (sample i (note_msg_type f t s)) = t"
proof (cases "find (\<lambda>i. ntrip_required_msgs ! i = frame_type f) [0..<NTRIP_REQUIRED_MSG_COUNT]")
  case None
  then have "note_msg_type f t s = s" by (simp only: note_msg_type_def option.case if_cancel)
  then show ?thesis by simp
next
  case (Some j)
  have j: "j < 4" "ntrip_required_msgs ! j = frame_type f" using required_index [OF Some] by blast+
  have "note_msg_type f t s = (if 6 \<le> length f then s\<lparr>s_msg_last_ms := (s_msg_last_ms s)[j := t],
      s_msg_epoch := (s_msg_epoch s)[j := s_epoch s]\<rparr> else s)"
    unfolding note_msg_type_def Some option.case ..
  then show ?thesis using j assms by (cases "i = j") (simp_all add: sample_def)
qed

text \<open>A sample is either untouched or the receive time of a frame of its type.\<close>

lemma note_all_sample:
  assumes "length (s_msg_last_ms s) = 4" "length (s_msg_epoch s) = 4"
  shows "sample i (note_all fs s) = sample i s \<or>
    (\<exists>e \<in> set fs. frame_type (fst e) = ntrip_required_msgs ! i \<and> fst (sample i (note_all fs s)) = snd e)"
proof (induction fs rule: rev_induct)
  case (snoc e fs)
  obtain f t where e: "e = (f, t)" by fastforce
  have "sample i (note_msg_type f t (note_all fs s)) = sample i (note_all fs s) \<or>
      frame_type f = ntrip_required_msgs ! i \<and> fst (sample i (note_msg_type f t (note_all fs s))) = t"
    by (rule note_msg_sample) (use assms note_all_keeps [of fs s] in auto)
  with snoc show ?case unfolding e note_all_snoc by fastforce
qed (simp add: note_all_def)

text \<open>C23: A receiver reset must be proved away by new frames. After the epoch reset at time \<open>t0\<close>, a
  required type is reported fresh only if a frame of that type was noted since, received after the
  reset and within the type's budget. Samples from before the reset never count, also when they are
  noted late and stamped with the new epoch; the new epoch number is assumed not to tag an old sample.\<close>

theorem freshness_needs_new_frame:
  assumes "i < 4" and "length (s_msg_last_ms s) = 4" and "length (s_msg_epoch s) = 4"
    and "s_msg_epoch s ! i \<noteq> s_epoch (ntrip_server_msg_epoch_reset t0 s)"
    and "mf_fresh (ntrip_server_msg_freshness now later (note_all fs (ntrip_server_msg_epoch_reset t0 s))) ! i"
  shows "\<exists>(f, t) \<in> set fs. frame_type f = ntrip_required_msgs ! i \<and> 0 < sint (t - t0) \<and>
    now - t \<le> s_required_budget_ms ! i"
proof -
  define s1 where "s1 = ntrip_server_msg_epoch_reset t0 s"
  define s2 where "s2 = note_all fs s1"
  have s1: "s_msg_last_ms s1 = s_msg_last_ms s" "s_msg_epoch s1 = s_msg_epoch s" "s_epoch_started_ms s1 = t0"
    by (simp_all add: s1_def ntrip_server_msg_epoch_reset_def Let_def)
  have n: "sample i s2 = sample i s1 \<or> (\<exists>e \<in> set fs. frame_type (fst e) = ntrip_required_msgs ! i \<and> fst (sample i s2) = snd e)"
    unfolding s2_def by (rule note_all_sample) (use assms(2,3) s1 in auto)
  have k: "s_epoch s2 = s_epoch s1" "s_epoch_started_ms s2 = t0"
    using note_all_keeps [of fs s1] s1(3) by (simp_all add: s2_def)
  have fr: "msg_fresh now (s_epoch s2) (s_epoch_started_ms s2) (s_required_budget_ms ! i) (s_msg_last_ms s2 ! i) (s_msg_epoch s2 ! i)"
    using assms(5,1) by (simp add: ntrip_server_msg_freshness_def Let_def s2_def s1_def)
  then have f: "s_msg_epoch s2 ! i = s_epoch s1" "0 < sint (s_msg_last_ms s2 ! i - t0)"
    "now - s_msg_last_ms s2 ! i \<le> s_required_budget_ms ! i"
    using k by (simp_all add: msg_fresh_def msg_in_epoch_def split: if_splits)
  have "sample i s2 \<noteq> sample i s1" using f(1) assms(4) s1(2) by (auto simp: sample_def s1_def)
  with n obtain e where "e \<in> set fs" "frame_type (fst e) = ntrip_required_msgs ! i" "s_msg_last_ms s2 ! i = snd e"
    by (auto simp: sample_def)
  with f show ?thesis by (auto intro!: bexI [of _ e] simp: split_beta)
qed

text \<open>A frame whose payload begins with message number 1005.\<close>

definition frame_1005 :: "u8 list" where
  "frame_1005 = [0xD3, 0, 2, 0x3E, 0xD0, 0, 0, 0]"

theorem freshness_needs_new_frame_witness:
  "\<exists>(f, t) \<in> set [(frame_1005, 1100)]. frame_type f = ntrip_required_msgs ! 0 \<and> 0 < sint ((t :: u32) - 1000) \<and>
    1200 - t \<le> s_required_budget_ms ! 0"
  by (rule freshness_needs_new_frame [where s = demo_server and later = 0])
    (simp_all add: demo_server_def ntrip_server_ingest_init_def server_boot_def ntrip_server_msg_epoch_reset_def
      Let_def ntrip_server_msg_freshness_def note_all_def note_msg_type_def frame_type_def frame_1005_def
      ntrip_required_msgs_def s_required_budget_ms_def msg_fresh_def msg_in_epoch_def upt_rec)

section \<open>Registry and keep-alive\<close>

text \<open>The registry array as a list of handles.\<close>

definition registry :: "server \<Rightarrow> handle list \<Rightarrow> bool" where
  "registry s hs \<longleftrightarrow> distinct hs \<and> length hs \<le> MAX_NTRIP_SERVERS \<and> g_instance_count s = length hs \<and>
     g_instances s = map Some hs @ replicate (MAX_NTRIP_SERVERS - length hs) None"

lemma shift_left_eq:
  assumes "k < n" "n \<le> length arr"
  shows "shift_left arr k n = take k arr @ take (n - k - 1) (drop (k + 1) arr) @ drop (n - 1) arr"
  using assms
proof (induction n)
  case (Suc n)
  show ?case
  proof (cases "k = n")
    case True
    then show ?thesis by (simp add: shift_left_def)
  next
    case False
    then have kn: "k < n" "n < length arr" using Suc.prems by auto
    define P where "P = take k arr @ take (n - k - 1) (drop (k + 1) arr)"
    obtain m where m: "n = Suc m" using kn by (cases n) auto
    have lp: "length P = m" using kn by (simp add: P_def m)
    have d: "drop m arr = arr ! m # drop n arr" using kn Cons_nth_drop_Suc [of m arr] by (simp add: m)
    have "shift_left arr k (Suc n) = (shift_left arr k n)[n - 1 := shift_left arr k n ! n]"
      using kn by (simp add: shift_left_def)
    also have "shift_left arr k n = P @ drop (n - 1) arr" using Suc.IH kn by (simp add: P_def)
    also have "(P @ drop (n - 1) arr) ! n = arr ! n"
      using kn lp by (simp add: nth_append m)
    also have "(P @ drop (n - 1) arr)[n - 1 := arr ! n] = P @ arr ! n # drop n arr"
      using lp d by (simp add: list_update_append m)
    also have "\<dots> = take k arr @ take (n - k) (drop (k + 1) arr) @ drop n arr"
      using kn take_Suc_conv_app_nth [of "n - k - 1" "drop (k + 1) arr"] by (simp add: P_def Suc_diff_Suc)
    finally show ?thesis by simp
  qed
qed simp

lemma registry_nth: "registry s hs \<Longrightarrow> k < length hs \<Longrightarrow> g_instances s ! k = Some (hs ! k)"
  by (simp add: registry_def nth_append)

lemma find_handle_eq:
  assumes "registry s (xs @ h # ys)" shows "find_handle h s = Some (length xs)"
proof -
  define hs where "hs = xs @ h # ys"
  have c: "g_instance_count s = length hs" "length xs < length hs" "distinct hs" "hs ! length xs = h"
    using assms by (auto simp: registry_def hs_def)
  have g: "g_instances s ! k = Some (hs ! k)" if "k < length hs" for k
    using registry_nth [OF assms] that by (simp add: hs_def)
  have "hs ! k \<noteq> h" if "k < length xs" for k
    using c that by (metis less_trans nat_neq_iff nth_eq_iff_index_eq)
  then show ?thesis using c g unfolding find_handle_def find_Some_iff by (auto intro!: exI [of _ "length xs"])
qed

lemma find_handle_none:
  assumes "registry s hs" "h \<notin> set hs" shows "find_handle h s = None"
  using assms by (auto simp: find_handle_def find_None_iff registry_def nth_append)

lemma registry_ops:
  assumes "registry s hs" and "g_instances_mutex s"
  shows "registry (ntrip_server_deregister_instance h s) (remove1 h hs) \<and>
    (h \<notin> set hs \<longrightarrow> registry (snd (register_instance h s)) (if length hs < MAX_NTRIP_SERVERS then hs @ [h] else hs) \<and>
       (fst (register_instance h s) \<longleftrightarrow> length hs < MAX_NTRIP_SERVERS))"
proof (intro conjI impI)
  show "registry (ntrip_server_deregister_instance h s) (remove1 h hs)"
  proof (cases "h \<in> set hs")
    case False
    then show ?thesis using assms find_handle_none [OF assms(1) False]
      by (simp add: ntrip_server_deregister_instance_def remove1_idem)
  next
    case True
    then obtain xs ys where hs: "hs = xs @ h # ys" "h \<notin> set xs" by (metis split_list_first)
    define n where "n = length hs"
    let ?arr = "g_instances s"
    have arr: "?arr = map Some xs @ Some h # map Some ys @ replicate (10 - n) None" "n \<le> 10" "g_instance_count s = n"
      "length ?arr = 10" using assms(1) hs by (auto simp: registry_def n_def)
    have nn: "n = length xs + 1 + length ys" using hs by (simp add: n_def)
    have "shift_left ?arr (length xs) n =
        map Some xs @ map Some ys @ drop (n - 1) ?arr"
      using shift_left_eq [of "length xs" n ?arr] arr nn by simp
    moreover have "(map Some xs @ map Some ys @ drop (n - 1) ?arr)[n - 1 := None] =
        map Some (xs @ ys) @ None # replicate (10 - n) None"
    proof -
      have "drop (n - 1) ?arr = ?arr ! (n - 1) # drop n ?arr"
        using arr(4,2) nn Cons_nth_drop_Suc [of "n - 1" ?arr] by simp
      moreover have "drop n ?arr = replicate (10 - n) None" using arr(1) nn by simp
      ultimately show ?thesis using nn by (simp add: list_update_append)
    qed
    moreover have "None # replicate (10 - n) None = replicate (10 - (n - 1)) (None :: handle option)"
      using arr(2) nn by (simp add: Suc_diff_le flip: replicate_Suc)
    ultimately have "registry (ntrip_server_deregister_instance h s) (xs @ ys)"
      using assms hs arr(2,3) nn find_handle_eq [of s xs h ys]
      by (simp add: ntrip_server_deregister_instance_def Let_def registry_def)
    then show ?thesis using hs by (simp add: remove1_append)
  qed
  assume "h \<notin> set hs"
  then show "registry (snd (register_instance h s)) (if length hs < MAX_NTRIP_SERVERS then hs @ [h] else hs)"
  proof (cases "length hs < MAX_NTRIP_SERVERS")
    case True
    then have "replicate (10 - length hs) (None :: handle option) = None # replicate (10 - Suc (length hs)) None"
      by (metis Suc_diff_Suc replicate_Suc)
    then show ?thesis using True assms(1) \<open>h \<notin> set hs\<close>
      by (simp add: register_instance_def registry_def list_update_append)
  next
    case False
    then show ?thesis using assms(1) by (simp add: register_instance_def registry_def)
  qed
  show "fst (register_instance h s) \<longleftrightarrow> length hs < MAX_NTRIP_SERVERS"
    using assms(1) by (simp add: register_instance_def registry_def)
qed

text \<open>The registry is a list. Registering appends the new instance when there is room and reports
  that there is none otherwise; deregistering removes exactly that instance and closes the gap in
  the order of the others, also when it is not registered; the array keeps no stale handle.\<close>

theorem registry_refines_list:
  assumes "registry s hs" and "g_instances_mutex s"
  shows "registry (ntrip_server_deregister_instance h s) (remove1 h hs) \<and>
    (h \<notin> set hs \<longrightarrow> registry (snd (register_instance h s)) (if length hs < MAX_NTRIP_SERVERS then hs @ [h] else hs) \<and>
       (fst (register_instance h s) \<longleftrightarrow> length hs < MAX_NTRIP_SERVERS))"
  using assms by (rule registry_ops)

theorem registry_refines_list_witness:
  "registry (ntrip_server_deregister_instance 7 (snd (register_instance 7 (demo_server\<lparr>g_instances_mutex := True\<rparr>)))) []"
proof -
  have r0: "registry (demo_server\<lparr>g_instances_mutex := True\<rparr>) []"
    by (simp add: registry_def demo_server_def ntrip_server_ingest_init_def server_boot_def)
  have "registry (snd (register_instance 7 (demo_server\<lparr>g_instances_mutex := True\<rparr>))) [7]"
    using registry_refines_list [OF r0] by simp
  moreover have "g_instances_mutex (snd (register_instance 7 (demo_server\<lparr>g_instances_mutex := True\<rparr>)))"
    by (simp add: register_instance_def)
  ultimately show ?thesis using registry_refines_list [of _ "[7]" 7] by simp
qed

definition sleep_ticks :: "nat \<Rightarrow> ntrip_instance \<times> int \<Rightarrow> ntrip_instance \<times> int" where
  "sleep_ticks n st = ((\<lambda>st. fst (sleep_task_tick st)) ^^ n) st"

lemma monitor_elapsed:
  "snd (fst (sleep_task_tick st)) = (if snd st + 1000 \<ge> 3600 then 0 else snd st + 1000)"
  "snd (sleep_task_tick st) \<longleftrightarrow> snd st + 1000 \<ge> 3600"
  by (simp_all add: sleep_task_tick_def Let_def ntrip_server_periodic_monitor_def)

lemma keep_alive_run:
  assumes "i_ev inst = Some ev" "data_ready ev" "i_data_keep_alive inst = 0"
  shows "fst (sleep_ticks n (inst, e)) = inst\<lparr>i_data_keep_alive := min (1000 * int n) 10000,
    i_ev := Some (ev\<lparr>data_ready := (n < 10)\<rparr>)\<rparr>"
proof (induction n)
  case 0
  have "ev\<lparr>data_ready := True\<rparr> = ev" using assms(2) by (cases ev) simp
  then show ?case using assms by (simp add: sleep_ticks_def)
next
  case (Suc n)
  obtain i' e' where st: "sleep_ticks n (inst, e) = (i', e')" by fastforce
  then have i': "i' = inst\<lparr>i_data_keep_alive := min (1000 * int n) 10000, i_ev := Some (ev\<lparr>data_ready := (n < 10)\<rparr>)\<rparr>"
    using Suc by simp
  have step: "fst (sleep_ticks (Suc n) (inst, e)) =
      ntrip_server_handle_keep_alive_timeout (ntrip_server_update_keep_alive_counter i')"
    using st by (simp add: sleep_ticks_def sleep_task_tick_def Let_def split_beta)
  consider "n < 9" | "n = 9" | "9 < n" by linarith
  then show ?case unfolding step
    by cases (simp_all add: i' ntrip_server_handle_keep_alive_timeout_def
        ntrip_server_update_keep_alive_counter_def Let_def)
qed

text \<open>An instance is declared without data after ten idle seconds and not earlier. From the moment
  a frame resets its counter, the instance keeps its data-ready flag through nine ticks of the sleep
  task and loses it with the tenth, the counter never exceeds its threshold, and no other flag
  changes.\<close>

theorem keep_alive_timeout_exact:
  assumes "i_ev inst = Some bits"
  shows "\<exists>ev. i_ev (snd (ntrip_server_update_data_state bits inst)) = Some ev \<and>
    i_ev (fst (sleep_ticks n (snd (ntrip_server_update_data_state bits inst), e))) = Some (ev\<lparr>data_ready := (n < 10)\<rparr>) \<and>
    i_data_keep_alive (fst (sleep_ticks n (snd (ntrip_server_update_data_state bits inst), e))) \<le> 10000"
proof -
  obtain ev where ev: "i_ev (snd (ntrip_server_update_data_state bits inst)) = Some ev" "data_ready ev"
    using assms(1) by (cases "data_ready bits"; cases "caster_ready bits"; cases "data_sent bits")
      (auto simp: ntrip_server_update_data_state_def Let_def)
  have "i_data_keep_alive (snd (ntrip_server_update_data_state bits inst)) = 0"
    using assms(1) by (simp add: ntrip_server_update_data_state_def Let_def)
  from keep_alive_run [OF ev this, of n e] ev(1) show ?thesis by simp
qed

definition demo_instance :: ntrip_instance where
  "demo_instance = \<lparr>i_suffix = [], i_index = 0, i_ev = Some \<lparr>caster_ready = True, data_ready = False, data_sent = False\<rparr>,
     i_task_server = True, i_notified = 0, i_task_sleep = True, i_sleep_running = True, i_led_active = None, i_stats = False,
     i_retry = None, i_sock = -1, i_data_keep_alive = 4000, i_tx = ntrip_tx_init, i_reconnect_gen = 0\<rparr>"

theorem keep_alive_timeout_exact_witness:
  "\<exists>ev. i_ev (snd (ntrip_server_update_data_state \<lparr>caster_ready = True, data_ready = False, data_sent = False\<rparr> demo_instance)) = Some ev \<and>
    i_ev (fst (sleep_ticks 10 (snd (ntrip_server_update_data_state \<lparr>caster_ready = True, data_ready = False, data_sent = False\<rparr> demo_instance), 0))) =
      Some (ev\<lparr>data_ready := (10 < (10 :: nat))\<rparr>) \<and>
    i_data_keep_alive (fst (sleep_ticks 10 (snd (ntrip_server_update_data_state \<lparr>caster_ready = True, data_ready = False, data_sent = False\<rparr> demo_instance), 0))) \<le> 10000"
  by (rule keep_alive_timeout_exact) (simp_all add: demo_instance_def ntrip_server_update_data_state_def Let_def)

text \<open>The status line comes every four ticks. The monitor adds the keep-alive step in
  milliseconds to a counter it compares with an interval in seconds, so with the interval of 3600 and
  one tick a second the line meant for once an hour is logged by every fourth tick.\<close>

theorem monitor_fires_every_fourth_tick:
  "snd (sleep_task_tick (sleep_ticks n (inst, 0))) \<longleftrightarrow> n mod 4 = 3"
proof -
  have e: "snd (sleep_ticks n (inst, 0)) = 1000 * int (n mod 4)"
  proof (induction n)
    case (Suc n)
    have "snd (sleep_ticks (Suc n) (inst, 0)) =
        (if snd (sleep_ticks n (inst, 0)) + 1000 \<ge> 3600 then 0 else snd (sleep_ticks n (inst, 0)) + 1000)"
      using monitor_elapsed(1) [of "sleep_ticks n (inst, 0)"] by (simp add: sleep_ticks_def)
    moreover have "n mod 4 < 4" by simp
    ultimately show ?case using Suc by (auto simp: mod_Suc)
  qed (simp add: sleep_ticks_def)
  have "n mod 4 < 4" by simp
  then show ?thesis unfolding monitor_elapsed(2) e by linarith
qed

end
