(* ===== verification/Config_Store.thy ===== *)
theory Config_Store
  imports Prelude
begin

text \<open>
  The configuration store, \<open>src/main/config.c\<close>: the table of items with their defaults, the
  typed getters and setters, the generic accessors of the web server, and the reset.

  The non-volatile storage library is not part of the repository: it is a parameter, a record of
  its operations over a state of any type. \<open>nvs_laws\<close> collects what its documentation promises and
  the code relies on; a map from keys to values satisfies it. A default value is the content of the
  C union: its first eight bytes as a 64-bit number (a narrower member is the low bytes), and the
  string for the string items.
\<close>

section \<open>The storage library\<close>

datatype esp_err = ESP_OK | ESP_FAIL | ESP_ERR_INVALID_ARG | ESP_ERR_NVS_NOT_FOUND
  | ESP_ERR_NVS_NO_FREE_PAGES | ESP_ERR_NVS_NEW_VERSION_FOUND | ESP_ERR_NO_MEM | ESP_ERR_OTHER nat

datatype nval = NI8 u8 | NI16 u16 | NI32 u32 | NI64 u64 | NU8 u8 | NU16 u16 | NU32 u32 | NU64 u64
  | NStr string | NBlob "u8 list"

datatype ntype = TI8 | TI16 | TI32 | TI64 | TU8 | TU16 | TU32 | TU64 | TStr | TBlob

fun ntype_of :: "nval \<Rightarrow> ntype" where
  "ntype_of (NI8 _) = TI8" | "ntype_of (NI16 _) = TI16" | "ntype_of (NI32 _) = TI32" | "ntype_of (NI64 _) = TI64"
| "ntype_of (NU8 _) = TU8" | "ntype_of (NU16 _) = TU16" | "ntype_of (NU32 _) = TU32" | "ntype_of (NU64 _) = TU64"
| "ntype_of (NStr _) = TStr" | "ntype_of (NBlob _) = TBlob"

text \<open>The numeric value of a stored number, as the bytes the library writes to the output.\<close>

fun nbits :: "nval \<Rightarrow> u64" where
  "nbits (NI8 w) = ucast w" | "nbits (NI16 w) = ucast w" | "nbits (NI32 w) = ucast w" | "nbits (NI64 w) = w"
| "nbits (NU8 w) = ucast w" | "nbits (NU16 w) = ucast w" | "nbits (NU32 w) = ucast w" | "nbits (NU64 w) = w"
| "nbits (NStr _) = 0" | "nbits (NBlob _) = 0"

record 's nvs =
  nvs_get :: "'s \<Rightarrow> string \<Rightarrow> ntype \<Rightarrow> esp_err + nval"
  nvs_set :: "'s \<Rightarrow> string \<Rightarrow> nval \<Rightarrow> esp_err \<times> 's"
  nvs_erase_key :: "'s \<Rightarrow> string \<Rightarrow> esp_err \<times> 's"
  nvs_commit :: "'s \<Rightarrow> esp_err \<times> 's"

definition nvs_laws :: "'s nvs \<Rightarrow> bool" where
  "nvs_laws nvs \<longleftrightarrow>
     (\<forall>s k ty v. nvs_get nvs s k ty = Inr v \<longrightarrow> ntype_of v = ty) \<and>
     (\<forall>s k v s'. nvs_set nvs s k v = (ESP_OK, s') \<longrightarrow>
        nvs_get nvs s' k (ntype_of v) = Inr v \<and>
        (\<forall>k' ty. k' \<noteq> k \<longrightarrow> nvs_get nvs s' k' ty = nvs_get nvs s k' ty)) \<and>
     (\<forall>s k v e s'. nvs_set nvs s k v = (e, s') \<longrightarrow> e \<noteq> ESP_OK \<longrightarrow> s' = s) \<and>
     (\<forall>s k ty. nvs_get nvs (snd (nvs_erase_key nvs s k)) k ty = Inl ESP_ERR_NVS_NOT_FOUND) \<and>
     (\<forall>s k k' ty. k' \<noteq> k \<longrightarrow> nvs_get nvs (snd (nvs_erase_key nvs s k)) k' ty = nvs_get nvs s k' ty) \<and>
     (\<forall>s k ty. nvs_get nvs (snd (nvs_commit nvs s)) k ty = nvs_get nvs s k ty)"

text \<open>A storage that keeps everything in a map satisfies the laws.\<close>

definition map_nvs :: "(string \<Rightarrow> nval option) nvs" where
  "map_nvs = \<lparr>
     nvs_get = (\<lambda>s k ty. case s k of None \<Rightarrow> Inl ESP_ERR_NVS_NOT_FOUND
        | Some v \<Rightarrow> if ntype_of v = ty then Inr v else Inl ESP_ERR_NVS_NOT_FOUND),
     nvs_set = (\<lambda>s k v. (ESP_OK, s(k := Some v))),
     nvs_erase_key = (\<lambda>s k. (if s k = None then ESP_ERR_NVS_NOT_FOUND else ESP_OK, s(k := None))),
     nvs_commit = (\<lambda>s. (ESP_OK, s))\<rparr>"

lemma map_nvs_laws: "nvs_laws map_nvs"
  by (simp add: nvs_laws_def map_nvs_def split: option.splits)

section \<open>The table\<close>

datatype config_item_type = TYPE_BOOL | TYPE_INT8 | TYPE_INT16 | TYPE_INT32 | TYPE_INT64 | TYPE_UINT8
  | TYPE_UINT16 | TYPE_UINT32 | TYPE_UINT64 | TYPE_STRING | TYPE_BLOB | TYPE_COLOR | TYPE_IP | TYPE_MAX

record config_item =
  ci_key :: string
  ci_type :: config_item_type
  ci_secret :: bool
  ci_bits :: u64
  ci_str :: string

definition cfg_item :: "string \<Rightarrow> config_item_type \<Rightarrow> bool \<Rightarrow> u64 \<Rightarrow> string \<Rightarrow> config_item" where
  "cfg_item key ty secret bits str =
     \<lparr>ci_key = key, ci_type = ty, ci_secret = secret, ci_bits = bits, ci_str = str\<rparr>"

text \<open>\<open>esp_netif_htonl(esp_netif_ip4_makeu32(a, b, c, d))\<close> on the little-endian target.\<close>

definition ip4 :: "u8 \<Rightarrow> u8 \<Rightarrow> u8 \<Rightarrow> u8 \<Rightarrow> u64" where
  "ip4 a b c d = ucast a OR push_bit 8 (ucast b) OR push_bit 16 (ucast c) OR push_bit 24 (ucast d)"

definition cfg_admin :: "config_item list" where
  "cfg_admin = [
     cfg_item ''adm_auth'' TYPE_INT8 False (0) '''',
     cfg_item ''adm_user'' TYPE_STRING False (0) '''',
     cfg_item ''adm_pass'' TYPE_STRING True (0) '''']"

definition cfg_bluetooth :: "config_item list" where
  "cfg_bluetooth = [
     cfg_item ''bt_active'' TYPE_BOOL False (0) '''',
     cfg_item ''bt_dev_name'' TYPE_STRING False (0) '''',
     cfg_item ''bt_dev_vis'' TYPE_BOOL False (1) '''',
     cfg_item ''bt_pin_code'' TYPE_UINT16 True (1234) '''']"

definition cfg_ntrip_0 :: "config_item list" where
  "cfg_ntrip_0 = [
     cfg_item ''ntr_srv_actv'' TYPE_BOOL False (1) '''',
     cfg_item ''ntr_srv_color'' TYPE_COLOR False (0x00000055) '''',
     cfg_item ''ntr_srv_host'' TYPE_STRING False (0) '''',
     cfg_item ''ntr_srv_port'' TYPE_UINT16 False (2101) '''',
     cfg_item ''ntr_srv_mp'' TYPE_STRING False (0) '''',
     cfg_item ''ntr_srv_user'' TYPE_STRING False (0) '''',
     cfg_item ''ntr_srv_pass'' TYPE_STRING True (0) '''']"

definition cfg_ntrip_1 :: "config_item list" where
  "cfg_ntrip_1 = [
     cfg_item ''ntr_srv_actv_1'' TYPE_BOOL False (0) '''',
     cfg_item ''ntr_srv_color_1'' TYPE_COLOR False (0x00000055) '''',
     cfg_item ''ntr_srv_host_1'' TYPE_STRING False (0) '''',
     cfg_item ''ntr_srv_port_1'' TYPE_UINT16 False (2101) '''',
     cfg_item ''ntr_srv_mp_1'' TYPE_STRING False (0) '''',
     cfg_item ''ntr_srv_user_1'' TYPE_STRING False (0) '''',
     cfg_item ''ntr_srv_pass_1'' TYPE_STRING True (0) '''']"

definition cfg_ntrip_2 :: "config_item list" where
  "cfg_ntrip_2 = [
     cfg_item ''ntr_srv_actv_2'' TYPE_BOOL False (0) '''',
     cfg_item ''ntr_srv_color_2'' TYPE_COLOR False (0x00000055) '''',
     cfg_item ''ntr_srv_host_2'' TYPE_STRING False (0) '''',
     cfg_item ''ntr_srv_port_2'' TYPE_UINT16 False (2101) '''',
     cfg_item ''ntr_srv_mp_2'' TYPE_STRING False (0) '''',
     cfg_item ''ntr_srv_user_2'' TYPE_STRING False (0) '''',
     cfg_item ''ntr_srv_pass_2'' TYPE_STRING True (0) '''']"

definition cfg_ntrip_3 :: "config_item list" where
  "cfg_ntrip_3 = [
     cfg_item ''ntr_srv_actv_3'' TYPE_BOOL False (0) '''',
     cfg_item ''ntr_srv_color_3'' TYPE_COLOR False (0x00000055) '''',
     cfg_item ''ntr_srv_host_3'' TYPE_STRING False (0) '''',
     cfg_item ''ntr_srv_port_3'' TYPE_UINT16 False (2101) '''',
     cfg_item ''ntr_srv_mp_3'' TYPE_STRING False (0) '''',
     cfg_item ''ntr_srv_user_3'' TYPE_STRING False (0) '''',
     cfg_item ''ntr_srv_pass_3'' TYPE_STRING True (0) '''']"

definition cfg_ntrip_4 :: "config_item list" where
  "cfg_ntrip_4 = [
     cfg_item ''ntr_srv_actv_4'' TYPE_BOOL False (0) '''',
     cfg_item ''ntr_srv_color_4'' TYPE_COLOR False (0x00000055) '''',
     cfg_item ''ntr_srv_host_4'' TYPE_STRING False (0) '''',
     cfg_item ''ntr_srv_port_4'' TYPE_UINT16 False (2101) '''',
     cfg_item ''ntr_srv_mp_4'' TYPE_STRING False (0) '''',
     cfg_item ''ntr_srv_user_4'' TYPE_STRING False (0) '''',
     cfg_item ''ntr_srv_pass_4'' TYPE_STRING True (0) '''']"

definition cfg_ntrip_5 :: "config_item list" where
  "cfg_ntrip_5 = [
     cfg_item ''ntr_srv_actv_5'' TYPE_BOOL False (0) '''',
     cfg_item ''ntr_srv_color_5'' TYPE_COLOR False (0x00000055) '''',
     cfg_item ''ntr_srv_host_5'' TYPE_STRING False (0) '''',
     cfg_item ''ntr_srv_port_5'' TYPE_UINT16 False (2101) '''',
     cfg_item ''ntr_srv_mp_5'' TYPE_STRING False (0) '''',
     cfg_item ''ntr_srv_user_5'' TYPE_STRING False (0) '''',
     cfg_item ''ntr_srv_pass_5'' TYPE_STRING True (0) '''']"

definition cfg_ntrip_6 :: "config_item list" where
  "cfg_ntrip_6 = [
     cfg_item ''ntr_srv_actv_6'' TYPE_BOOL False (0) '''',
     cfg_item ''ntr_srv_color_6'' TYPE_COLOR False (0x00000055) '''',
     cfg_item ''ntr_srv_host_6'' TYPE_STRING False (0) '''',
     cfg_item ''ntr_srv_port_6'' TYPE_UINT16 False (2101) '''',
     cfg_item ''ntr_srv_mp_6'' TYPE_STRING False (0) '''',
     cfg_item ''ntr_srv_user_6'' TYPE_STRING False (0) '''',
     cfg_item ''ntr_srv_pass_6'' TYPE_STRING True (0) '''']"

definition cfg_ntrip_7 :: "config_item list" where
  "cfg_ntrip_7 = [
     cfg_item ''ntr_srv_actv_7'' TYPE_BOOL False (0) '''',
     cfg_item ''ntr_srv_color_7'' TYPE_COLOR False (0x00000055) '''',
     cfg_item ''ntr_srv_host_7'' TYPE_STRING False (0) '''',
     cfg_item ''ntr_srv_port_7'' TYPE_UINT16 False (2101) '''',
     cfg_item ''ntr_srv_mp_7'' TYPE_STRING False (0) '''',
     cfg_item ''ntr_srv_user_7'' TYPE_STRING False (0) '''',
     cfg_item ''ntr_srv_pass_7'' TYPE_STRING True (0) '''']"

definition cfg_ntrip_8 :: "config_item list" where
  "cfg_ntrip_8 = [
     cfg_item ''ntr_srv_actv_8'' TYPE_BOOL False (0) '''',
     cfg_item ''ntr_srv_color_8'' TYPE_COLOR False (0x00000055) '''',
     cfg_item ''ntr_srv_host_8'' TYPE_STRING False (0) '''',
     cfg_item ''ntr_srv_port_8'' TYPE_UINT16 False (2101) '''',
     cfg_item ''ntr_srv_mp_8'' TYPE_STRING False (0) '''',
     cfg_item ''ntr_srv_user_8'' TYPE_STRING False (0) '''',
     cfg_item ''ntr_srv_pass_8'' TYPE_STRING True (0) '''']"

definition cfg_ntrip_9 :: "config_item list" where
  "cfg_ntrip_9 = [
     cfg_item ''ntr_srv_actv_9'' TYPE_BOOL False (0) '''',
     cfg_item ''ntr_srv_color_9'' TYPE_COLOR False (0x00000055) '''',
     cfg_item ''ntr_srv_host_9'' TYPE_STRING False (0) '''',
     cfg_item ''ntr_srv_port_9'' TYPE_UINT16 False (2101) '''',
     cfg_item ''ntr_srv_mp_9'' TYPE_STRING False (0) '''',
     cfg_item ''ntr_srv_user_9'' TYPE_STRING False (0) '''',
     cfg_item ''ntr_srv_pass_9'' TYPE_STRING True (0) '''']"

definition cfg_socket :: "config_item list" where
  "cfg_socket = [
     cfg_item ''sck_srv_active'' TYPE_BOOL False (0) '''',
     cfg_item ''sck_srv_color'' TYPE_COLOR False (0x00000055) '''',
     cfg_item ''sck_srv_t_port'' TYPE_UINT16 False (23) '''',
     cfg_item ''sck_srv_u_port'' TYPE_UINT16 False (23) '''',
     cfg_item ''sck_cli_active'' TYPE_BOOL False (0) '''',
     cfg_item ''sck_cli_color'' TYPE_COLOR False (0x00000055) '''',
     cfg_item ''sck_cli_host'' TYPE_STRING False (0) '''',
     cfg_item ''sck_cli_port'' TYPE_UINT16 False (23) '''',
     cfg_item ''sck_cli_type'' TYPE_BOOL False (1) '''',
     cfg_item ''sck_cli_msg'' TYPE_STRING False (0) [CHR 0x0A]]"

definition cfg_uart :: "config_item list" where
  "cfg_uart = [
     cfg_item ''uart_num'' TYPE_UINT8 False (0) '''',
     cfg_item ''uart_tx_pin'' TYPE_UINT8 False (1) '''',
     cfg_item ''uart_rx_pin'' TYPE_UINT8 False (3) '''',
     cfg_item ''uart_rts_pin'' TYPE_UINT8 False (14) '''',
     cfg_item ''uart_cts_pin'' TYPE_UINT8 False (33) '''',
     cfg_item ''uart_baud_rate'' TYPE_UINT32 False (115200) '''',
     cfg_item ''uart_data_bits'' TYPE_INT8 False (3) '''',
     cfg_item ''uart_stop_bits'' TYPE_INT8 False (1) '''',
     cfg_item ''uart_parity'' TYPE_INT8 False (0) '''',
     cfg_item ''uart_fc_rts'' TYPE_BOOL False (0) '''',
     cfg_item ''uart_fc_cts'' TYPE_BOOL False (0) '''',
     cfg_item ''uart_log_fwd'' TYPE_BOOL False (0) '''']"

definition cfg_wifi :: "config_item list" where
  "cfg_wifi = [
     cfg_item ''w_ap_active'' TYPE_BOOL False (1) '''',
     cfg_item ''w_ap_color'' TYPE_COLOR False (0x00000055) '''',
     cfg_item ''w_ap_ssid'' TYPE_STRING False (0) '''',
     cfg_item ''w_ap_ssid_hid'' TYPE_BOOL False (0) '''',
     cfg_item ''w_ap_auth_mode'' TYPE_UINT8 False (0) '''',
     cfg_item ''w_ap_pass'' TYPE_STRING True (0) '''',
     cfg_item ''w_ap_gw'' TYPE_IP False (ip4 192 168 4 1) '''',
     cfg_item ''w_ap_subnet'' TYPE_UINT8 False (24) '''',
     cfg_item ''w_sta_active'' TYPE_BOOL False (1) '''',
     cfg_item ''w_sta_color'' TYPE_COLOR False (0x0044ff55) '''',
     cfg_item ''w_sta_ssid'' TYPE_STRING False (0) '''',
     cfg_item ''w_sta_pass'' TYPE_STRING True (0) '''',
     cfg_item ''w_sta_scan_mode'' TYPE_BOOL False (0) '''',
     cfg_item ''w_sta_ap_fwd'' TYPE_BOOL False (0) '''',
     cfg_item ''w_sta_static'' TYPE_BOOL False (0) '''',
     cfg_item ''w_sta_ip'' TYPE_IP False (ip4 192 168 0 100) '''',
     cfg_item ''w_sta_gw'' TYPE_IP False (ip4 192 168 0 1) '''',
     cfg_item ''w_sta_subnet'' TYPE_UINT8 False (24) '''',
     cfg_item ''w_sta_dns_a'' TYPE_IP False (ip4 1 1 1 1) '''',
     cfg_item ''w_sta_dns_b'' TYPE_IP False (ip4 1 0 0 1) '''']"

definition cfg_mode :: "config_item list" where
  "cfg_mode = [
     cfg_item ''mode_active'' TYPE_UINT16 False (0) '''',
     cfg_item ''mode_color'' TYPE_COLOR False (0x0044ff55) '''']"

definition cfg_rtk :: "config_item list" where
  "cfg_rtk = [
     cfg_item ''rtk_ie_host'' TYPE_STRING False (0) ''integrity-engine.onrender.com'',
     cfg_item ''rtk_dev_id'' TYPE_STRING False (0) '''',
     cfg_item ''rtk_sta_tok'' TYPE_STRING True (0) '''',
     cfg_item ''rtk_state'' TYPE_UINT8 False (0) '''',
     cfg_item ''rtk_ota_base'' TYPE_STRING False (0) '''',
     cfg_item ''rtk_enr_key'' TYPE_STRING True (0) '''',
     cfg_item ''rtk_key_ver'' TYPE_UINT8 False (1) '''']"

definition CONFIG_ITEMS :: "config_item list" where
  "CONFIG_ITEMS = cfg_admin @ cfg_bluetooth @ cfg_ntrip_0 @ cfg_ntrip_1 @ cfg_ntrip_2 @ cfg_ntrip_3 @
     cfg_ntrip_4 @ cfg_ntrip_5 @ cfg_ntrip_6 @ cfg_ntrip_7 @ cfg_ntrip_8 @ cfg_ntrip_9 @
     cfg_socket @ cfg_uart @ cfg_wifi @ cfg_mode @ cfg_rtk"

lemmas cfg_defs = CONFIG_ITEMS_def cfg_admin_def cfg_bluetooth_def cfg_ntrip_0_def cfg_ntrip_1_def
  cfg_ntrip_2_def cfg_ntrip_3_def cfg_ntrip_4_def cfg_ntrip_5_def cfg_ntrip_6_def cfg_ntrip_7_def
  cfg_ntrip_8_def cfg_ntrip_9_def cfg_socket_def cfg_uart_def cfg_wifi_def cfg_mode_def cfg_rtk_def cfg_item_def

section \<open>The accessors\<close>

definition config_items_get :: "config_item list \<times> nat" where
  "config_items_get = (CONFIG_ITEMS, length CONFIG_ITEMS)"

text \<open>\<open>None\<close> is the fatal error of an unknown key.\<close>

definition config_get_item :: "string \<Rightarrow> config_item option" where
  "config_get_item key = find (\<lambda>item. ci_key item = key) CONFIG_ITEMS"

text \<open>The item of a key of the table; the fatal error of another key gives an item no accessor reads.\<close>

definition CONF_ITEM :: "string \<Rightarrow> config_item" where
  "CONF_ITEM key = (case config_get_item key of Some item \<Rightarrow> item | None \<Rightarrow> cfg_item key TYPE_MAX False 0 [])"

definition config_set_i8 :: "'s nvs \<Rightarrow> string \<Rightarrow> u8 \<Rightarrow> 's \<Rightarrow> esp_err \<times> 's" where
  "config_set_i8 nvs key v s = nvs_set nvs s key (NI8 v)"

definition config_set_i16 :: "'s nvs \<Rightarrow> string \<Rightarrow> u16 \<Rightarrow> 's \<Rightarrow> esp_err \<times> 's" where
  "config_set_i16 nvs key v s = nvs_set nvs s key (NI16 v)"

definition config_set_i32 :: "'s nvs \<Rightarrow> string \<Rightarrow> u32 \<Rightarrow> 's \<Rightarrow> esp_err \<times> 's" where
  "config_set_i32 nvs key v s = nvs_set nvs s key (NI32 v)"

definition config_set_i64 :: "'s nvs \<Rightarrow> string \<Rightarrow> u64 \<Rightarrow> 's \<Rightarrow> esp_err \<times> 's" where
  "config_set_i64 nvs key v s = nvs_set nvs s key (NI64 v)"

definition config_set_u8 :: "'s nvs \<Rightarrow> string \<Rightarrow> u8 \<Rightarrow> 's \<Rightarrow> esp_err \<times> 's" where
  "config_set_u8 nvs key v s = nvs_set nvs s key (NU8 v)"

definition config_set_u16 :: "'s nvs \<Rightarrow> string \<Rightarrow> u16 \<Rightarrow> 's \<Rightarrow> esp_err \<times> 's" where
  "config_set_u16 nvs key v s = nvs_set nvs s key (NU16 v)"

definition config_set_u32 :: "'s nvs \<Rightarrow> string \<Rightarrow> u32 \<Rightarrow> 's \<Rightarrow> esp_err \<times> 's" where
  "config_set_u32 nvs key v s = nvs_set nvs s key (NU32 v)"

definition config_set_u64 :: "'s nvs \<Rightarrow> string \<Rightarrow> u64 \<Rightarrow> 's \<Rightarrow> esp_err \<times> 's" where
  "config_set_u64 nvs key v s = nvs_set nvs s key (NU64 v)"

definition config_set_color :: "'s nvs \<Rightarrow> string \<Rightarrow> u32 \<Rightarrow> 's \<Rightarrow> esp_err \<times> 's" where
  "config_set_color nvs key rgba s = nvs_set nvs s key (NU32 rgba)"

definition config_set_bool1 :: "'s nvs \<Rightarrow> string \<Rightarrow> bool \<Rightarrow> 's \<Rightarrow> esp_err \<times> 's" where
  "config_set_bool1 nvs key v s = nvs_set nvs s key (NI8 (if v then 1 else 0))"

definition config_set_str :: "'s nvs \<Rightarrow> string \<Rightarrow> string \<Rightarrow> 's \<Rightarrow> esp_err \<times> 's" where
  "config_set_str nvs key v s = nvs_set nvs s key (NStr v)"

definition config_set_blob :: "'s nvs \<Rightarrow> string \<Rightarrow> u8 list \<Rightarrow> 's \<Rightarrow> esp_err \<times> 's" where
  "config_set_blob nvs key v s = nvs_set nvs s key (NBlob v)"

text \<open>
  The untyped value of the generic accessors: a number, of which a narrower type reads the low
  bytes, or a string. \<open>VNum\<close> for a string item, or the reverse, does not occur in the callers.
\<close>

datatype cval = VNum u64 | VString string

definition num_of :: "cval \<Rightarrow> u64" where
  "num_of v = (case v of VNum n \<Rightarrow> n | VString _ \<Rightarrow> 0)"

definition str_of :: "cval \<Rightarrow> string" where
  "str_of v = (case v of VNum _ \<Rightarrow> [] | VString x \<Rightarrow> x)"

definition config_set :: "'s nvs \<Rightarrow> config_item \<Rightarrow> cval \<Rightarrow> 's \<Rightarrow> esp_err \<times> 's" where
  "config_set nvs item value s =
     (case ci_type item of
        TYPE_BOOL \<Rightarrow> config_set_bool1 nvs (ci_key item) (num_of value \<noteq> 0) s
      | TYPE_INT8 \<Rightarrow> config_set_i8 nvs (ci_key item) (ucast (num_of value)) s
      | TYPE_INT16 \<Rightarrow> config_set_i16 nvs (ci_key item) (ucast (num_of value)) s
      | TYPE_INT32 \<Rightarrow> config_set_i32 nvs (ci_key item) (ucast (num_of value)) s
      | TYPE_INT64 \<Rightarrow> config_set_i64 nvs (ci_key item) (num_of value) s
      | TYPE_UINT8 \<Rightarrow> config_set_u8 nvs (ci_key item) (ucast (num_of value)) s
      | TYPE_UINT16 \<Rightarrow> config_set_u16 nvs (ci_key item) (ucast (num_of value)) s
      | TYPE_UINT32 \<Rightarrow> config_set_u32 nvs (ci_key item) (ucast (num_of value)) s
      | TYPE_UINT64 \<Rightarrow> config_set_u64 nvs (ci_key item) (num_of value) s
      | TYPE_STRING \<Rightarrow> config_set_str nvs (ci_key item) (str_of value) s
      | _ \<Rightarrow> (ESP_ERR_INVALID_ARG, s))"

text \<open>Reading a number over its default: the output keeps the default unless the read succeeds.\<close>

definition get_over :: "'s nvs \<Rightarrow> 's \<Rightarrow> string \<Rightarrow> ntype \<Rightarrow> u64 \<Rightarrow> esp_err \<times> u64" where
  "get_over nvs s key ty dflt =
     (case nvs_get nvs s key ty of Inl e \<Rightarrow> (e, dflt) | Inr v \<Rightarrow> (ESP_OK, nbits v))"

definition config_get_i8 :: "'s nvs \<Rightarrow> config_item \<Rightarrow> 's \<Rightarrow> u8" where
  "config_get_i8 nvs item s = ucast (snd (get_over nvs s (ci_key item) TI8 (take_bit 8 (ci_bits item))))"

definition config_get_i16 :: "'s nvs \<Rightarrow> config_item \<Rightarrow> 's \<Rightarrow> u16" where
  "config_get_i16 nvs item s = ucast (snd (get_over nvs s (ci_key item) TI16 (take_bit 16 (ci_bits item))))"

definition config_get_i32 :: "'s nvs \<Rightarrow> config_item \<Rightarrow> 's \<Rightarrow> u32" where
  "config_get_i32 nvs item s = ucast (snd (get_over nvs s (ci_key item) TI32 (take_bit 32 (ci_bits item))))"

definition config_get_i64 :: "'s nvs \<Rightarrow> config_item \<Rightarrow> 's \<Rightarrow> u64" where
  "config_get_i64 nvs item s = snd (get_over nvs s (ci_key item) TI64 (ci_bits item))"

definition config_get_u8 :: "'s nvs \<Rightarrow> config_item \<Rightarrow> 's \<Rightarrow> u8" where
  "config_get_u8 nvs item s = ucast (snd (get_over nvs s (ci_key item) TU8 (take_bit 8 (ci_bits item))))"

definition config_get_u16 :: "'s nvs \<Rightarrow> config_item \<Rightarrow> 's \<Rightarrow> u16" where
  "config_get_u16 nvs item s = ucast (snd (get_over nvs s (ci_key item) TU16 (take_bit 16 (ci_bits item))))"

definition config_get_u32 :: "'s nvs \<Rightarrow> config_item \<Rightarrow> 's \<Rightarrow> u32" where
  "config_get_u32 nvs item s = ucast (snd (get_over nvs s (ci_key item) TU32 (take_bit 32 (ci_bits item))))"

definition config_get_u64 :: "'s nvs \<Rightarrow> config_item \<Rightarrow> 's \<Rightarrow> u64" where
  "config_get_u64 nvs item s = snd (get_over nvs s (ci_key item) TU64 (ci_bits item))"

definition config_get_color :: "'s nvs \<Rightarrow> config_item \<Rightarrow> 's \<Rightarrow> u32" where
  "config_get_color nvs item s = ucast (snd (get_over nvs s (ci_key item) TU32 (take_bit 32 (ci_bits item))))"

definition config_get_bool1 :: "'s nvs \<Rightarrow> config_item \<Rightarrow> 's \<Rightarrow> bool" where
  "config_get_bool1 nvs item s = (let v :: u8 = config_get_i8 nvs item s in sint v > 0)"

definition not_found_ok :: "esp_err \<Rightarrow> esp_err" where
  "not_found_ok e = (if e = ESP_OK \<or> e = ESP_ERR_NVS_NOT_FOUND then ESP_OK else e)"

definition config_get_primitive :: "'s nvs \<Rightarrow> config_item \<Rightarrow> 's \<Rightarrow> esp_err \<times> u64" where
  "config_get_primitive nvs item s =
     (let get = (\<lambda>ty w. let (e, v) = get_over nvs s (ci_key item) ty (take_bit w (ci_bits item)) in (not_found_ok e, v))
      in case ci_type item of
        TYPE_BOOL \<Rightarrow> get TI8 8
      | TYPE_INT8 \<Rightarrow> get TI8 8
      | TYPE_INT16 \<Rightarrow> get TI16 16
      | TYPE_INT32 \<Rightarrow> get TI32 32
      | TYPE_INT64 \<Rightarrow> get TI64 64
      | TYPE_UINT8 \<Rightarrow> get TU8 8
      | TYPE_UINT16 \<Rightarrow> get TU16 16
      | TYPE_UINT32 \<Rightarrow> get TU32 32
      | TYPE_IP \<Rightarrow> get TU32 32
      | TYPE_UINT64 \<Rightarrow> get TU64 64
      | TYPE_COLOR \<Rightarrow> get TU32 32
      | _ \<Rightarrow> (ESP_ERR_INVALID_ARG, 0))"

text \<open>
  A string or blob read, as the error and the content. The blob default of the table is empty: no
  item of the table is a blob.
\<close>

definition config_get_str_blob :: "'s nvs \<Rightarrow> config_item \<Rightarrow> 's \<Rightarrow> esp_err \<times> nval option" where
  "config_get_str_blob nvs item s =
     (case ci_type item of
        TYPE_STRING \<Rightarrow>
          (case nvs_get nvs s (ci_key item) TStr of
             Inr v \<Rightarrow> (ESP_OK, Some v)
           | Inl e \<Rightarrow> (not_found_ok e, if e = ESP_ERR_NVS_NOT_FOUND then Some (NStr (ci_str item)) else None))
      | TYPE_BLOB \<Rightarrow>
          (case nvs_get nvs s (ci_key item) TBlob of
             Inr v \<Rightarrow> (ESP_OK, Some v)
           | Inl e \<Rightarrow> (not_found_ok e, if e = ESP_ERR_NVS_NOT_FOUND then Some (NBlob []) else None))
      | _ \<Rightarrow> (ESP_ERR_INVALID_ARG, None))"

text \<open>
  The allocating variant: the length query, the allocation (which may fail), the read. With a null
  buffer the second call only returns the length, so the caller sees success and a null pointer.
\<close>

definition config_get_str_blob_alloc :: "bool \<Rightarrow> 's nvs \<Rightarrow> config_item \<Rightarrow> 's \<Rightarrow> esp_err \<times> nval option" where
  "config_get_str_blob_alloc oom nvs item s =
     (let (e, v) = config_get_str_blob nvs item s
      in if e \<noteq> ESP_OK then (e, None) else if oom then (ESP_OK, None) else (e, v))"

definition config_commit :: "'s nvs \<Rightarrow> 's \<Rightarrow> esp_err \<times> 's" where
  "config_commit nvs s = nvs_commit nvs s"

definition config_reset :: "'s nvs \<Rightarrow> 's \<Rightarrow> esp_err \<times> 's" where
  "config_reset nvs s =
     (let s = snd (nvs_erase_key nvs s ''w_sta_ssid'');
          s = snd (nvs_erase_key nvs s ''w_sta_pass'');
          s = snd (nvs_erase_key nvs s ''w_sta_active'')
      in config_commit nvs s)"

text \<open>
  Initialisation: the flash functions are arguments. \<open>None\<close> is the abort of \<open>ESP_ERROR_CHECK\<close>.
\<close>

definition config_init ::
  "('f \<Rightarrow> esp_err \<times> 'f) \<Rightarrow> ('f \<Rightarrow> esp_err \<times> 'f) \<Rightarrow> ('f \<Rightarrow> esp_err \<times> 'f) \<Rightarrow> 'f \<Rightarrow> (esp_err \<times> 'f) option" where
  "config_init flash_init flash_erase open_nvs f =
     (let (err, f) = flash_init f
      in if err = ESP_ERR_NVS_NO_FREE_PAGES \<or> err = ESP_ERR_NVS_NEW_VERSION_FOUND
         then let (e2, f) = flash_erase f
              in if e2 \<noteq> ESP_OK then None
                 else let (err, f) = flash_init f in if err \<noteq> ESP_OK then None else Some (open_nvs f)
         else if err \<noteq> ESP_OK then None else Some (open_nvs f))"

section \<open>The storage interface\<close>

lemma nvs_lawsD:
  assumes "nvs_laws nvs"
  shows "nvs_get nvs s k ty = Inr v \<Longrightarrow> ntype_of v = ty"
    and "nvs_set nvs s k v = (ESP_OK, s') \<Longrightarrow> nvs_get nvs s' k (ntype_of v) = Inr v"
    and "nvs_set nvs s k v = (ESP_OK, s') \<Longrightarrow> k' \<noteq> k \<Longrightarrow> nvs_get nvs s' k' ty = nvs_get nvs s k' ty"
    and "nvs_get nvs (snd (nvs_erase_key nvs s k)) k ty = Inl ESP_ERR_NVS_NOT_FOUND"
    and "k' \<noteq> k \<Longrightarrow> nvs_get nvs (snd (nvs_erase_key nvs s k)) k' ty = nvs_get nvs s k' ty"
    and "nvs_get nvs (snd (nvs_commit nvs s)) k ty = nvs_get nvs s k ty"
  using assms unfolding nvs_laws_def by (simp_all (no_asm_simp))

text \<open>The width in bits of the number of an item, as the generic accessors treat it.\<close>

fun type_width :: "config_item_type \<Rightarrow> nat" where
  "type_width TYPE_INT8 = 8" | "type_width TYPE_INT16 = 16" | "type_width TYPE_INT32 = 32" | "type_width TYPE_INT64 = 64"
| "type_width TYPE_UINT8 = 8" | "type_width TYPE_UINT16 = 16" | "type_width TYPE_UINT32 = 32" | "type_width TYPE_UINT64 = 64"
| "type_width _ = 0"

lemma ucast_ucast_take:
  "ucast (ucast (x :: u64) :: u8) = take_bit 8 x" "ucast (ucast (x :: u64) :: u16) = take_bit 16 x"
  "ucast (ucast (x :: u64) :: u32) = take_bit 32 x" for x :: u64
  by (rule bit_word_eqI; auto simp: bit_ucast_iff bit_take_bit_iff)+

lemma take64 [simp]: "take_bit 64 (x :: u64) = x"
  by (rule bit_word_eqI) (simp add: bit_take_bit_iff)

section \<open>Distinct keys\<close>

text \<open>Keys of different sections differ in their first two letters or in the digit they end with.\<close>

definition key_tag :: "string \<Rightarrow> string" where
  "key_tag k = take 2 k @ (if last k \<in> set ''123456789'' then [last k] else [])"

definition cfg_sections :: "(string \<times> config_item list) list" where
  "cfg_sections = [(''ad'', cfg_admin), (''bt'', cfg_bluetooth), (''nt'', cfg_ntrip_0), (''nt1'', cfg_ntrip_1),
     (''nt2'', cfg_ntrip_2), (''nt3'', cfg_ntrip_3), (''nt4'', cfg_ntrip_4), (''nt5'', cfg_ntrip_5),
     (''nt6'', cfg_ntrip_6), (''nt7'', cfg_ntrip_7), (''nt8'', cfg_ntrip_8), (''nt9'', cfg_ntrip_9),
     (''sc'', cfg_socket), (''ua'', cfg_uart), (''w_'', cfg_wifi), (''mo'', cfg_mode), (''rt'', cfg_rtk)]"

lemma distinct_sections:
  "distinct (map fst ss) \<Longrightarrow> \<forall>(t, xs) \<in> set ss. distinct (map f xs) \<and> (\<forall>x \<in> set xs. tag (f x) = t) \<Longrightarrow>
   distinct (map f (concat (map snd ss)))"
proof (induction ss)
  case (Cons s ss)
  have "f x \<noteq> f y" if a: "x \<in> set (snd s)" and b: "y \<in> set (concat (map snd ss))" for x y
  proof
    assume e: "f x = f y"
    obtain t xs where y: "(t, xs) \<in> set ss" "y \<in> set xs" using b by auto
    then have "tag (f y) = t" "tag (f x) = fst s" using Cons.prems(2) a by (auto split: prod.splits)
    then show False using e y(1) Cons.prems(1) by (metis fst_conv image_eqI distinct.simps(2) list.simps(9) set_map)
  qed
  then show ?case using Cons by (auto split: prod.splits)
qed simp

lemma cfg_sections_ok: "list_all (\<lambda>(t, xs). distinct (map ci_key xs) \<and> list_all (\<lambda>x. key_tag (ci_key x) = t) xs) cfg_sections"
  by code_simp

lemma cfg_sections_tags: "distinct (map fst cfg_sections)" by code_simp

lemma config_keys_distinct: "distinct (map ci_key CONFIG_ITEMS)"
  using distinct_sections [OF cfg_sections_tags, of ci_key key_tag] cfg_sections_ok by (simp add: list_all_iff cfg_sections_def CONFIG_ITEMS_def split_beta)

section \<open>Properties of the configuration store\<close>

text \<open>C38: The table is well formed: no key occurs twice, every key fits the 15 characters the storage
  library allows, no item is of a type the reader rejects, and the lookup of any key of the table
  returns its item, so the fatal error of an unknown key is reached only by keys outside it.\<close>

theorem config_table_wf:
  "distinct (map ci_key CONFIG_ITEMS) \<and>
   list_all (\<lambda>item. 1 \<le> length (ci_key item) \<and> length (ci_key item) \<le> 15 \<and>
      ci_type item \<notin> {TYPE_BLOB, TYPE_MAX} \<and> config_get_item (ci_key item) = Some item) CONFIG_ITEMS"
proof -
  note d = config_keys_distinct
  have l: "list_all (\<lambda>item. 1 \<le> length (ci_key item) \<and> length (ci_key item) \<le> 15 \<and>
      ci_type item \<noteq> TYPE_BLOB \<and> ci_type item \<noteq> TYPE_MAX) CONFIG_ITEMS" by code_simp
  have "config_get_item (ci_key item) = Some item" if mem: "item \<in> set CONFIG_ITEMS" for item
  proof -
    obtain j where j: "config_get_item (ci_key item) = Some j" "j \<in> set CONFIG_ITEMS" "ci_key j = ci_key item"
    proof (cases "config_get_item (ci_key item)")
      case None
      then show ?thesis using mem by (auto simp: config_get_item_def find_None_iff)
    next
      case (Some j)
      then show ?thesis by (intro that [of j]) (auto simp: config_get_item_def find_Some_iff)
    qed
    then show ?thesis using d mem by (metis distinct_map inj_onD)
  qed
  with d l show ?thesis by (auto simp: list_all_iff)
qed

lemma config_set_read:
  assumes "nvs_laws nvs" and "type_width (ci_type item) \<noteq> 0"
    and "config_set nvs item (VNum n) s = (ESP_OK, s')"
  shows "config_get_primitive nvs item s' = (ESP_OK, take_bit (type_width (ci_type item)) n) \<and>
    (\<forall>k ty. k \<noteq> ci_key item \<longrightarrow> nvs_get nvs s' k ty = nvs_get nvs s k ty)"
  using assms
  by (cases "ci_type item")
    (auto simp: config_set_def num_of_def config_set_i8_def config_set_i16_def config_set_i32_def config_set_i64_def
      config_set_u8_def config_set_u16_def config_set_u32_def config_set_u64_def config_get_primitive_def get_over_def
      not_found_ok_def ucast_ucast_take nvs_lawsD(3)
      dest: nvs_lawsD(2) [OF assms(1)])

text \<open>What is written is read back. For a number of any type the writer accepts, a successful
  generic write makes the generic read succeed with the value cut to the item's width, whatever the
  default is, and leaves every other key as it was.\<close>

theorem config_set_get:
  assumes "nvs_laws nvs" and "type_width (ci_type item) \<noteq> 0"
    and "config_set nvs item (VNum n) s = (ESP_OK, s')"
  shows "config_get_primitive nvs item s' = (ESP_OK, take_bit (type_width (ci_type item)) n) \<and>
    (\<forall>k ty. k \<noteq> ci_key item \<longrightarrow> nvs_get nvs s' k ty = nvs_get nvs s k ty)"
  by (rule config_set_read [OF assms])

theorem config_set_get_witness:
  "config_get_primitive map_nvs (cfg_item ''ntr_srv_port'' TYPE_UINT16 False 2101 [])
     (snd (config_set map_nvs (cfg_item ''ntr_srv_port'' TYPE_UINT16 False 2101 []) (VNum 2102) Map.empty)) = (ESP_OK, 2102)"
proof -
  let ?i = "cfg_item ''ntr_srv_port'' TYPE_UINT16 False 2101 []"
  have "config_set map_nvs ?i (VNum 2102) Map.empty = (ESP_OK, snd (config_set map_nvs ?i (VNum 2102) Map.empty))"
    by (simp add: config_set_def cfg_item_def config_set_u16_def map_nvs_def)
  from config_set_get [OF map_nvs_laws _ this] show ?thesis by (simp add: cfg_item_def)
qed

text \<open>The reset button clears the Wi-Fi credentials and nothing else. After it the three station
  keys are absent, and every other key, among them the enroll key, its version, the device id, the
  station token, the state and all caster settings, reads as before.\<close>

theorem config_reset_keeps_identity:
  assumes "nvs_laws nvs" and "config_reset nvs s = (e, s')"
  shows "(\<forall>k \<in> {''w_sta_ssid'', ''w_sta_pass'', ''w_sta_active''}. \<forall>ty.
      nvs_get nvs s' k ty = Inl ESP_ERR_NVS_NOT_FOUND) \<and>
    (\<forall>k ty. k \<notin> {''w_sta_ssid'', ''w_sta_pass'', ''w_sta_active''} \<longrightarrow>
      nvs_get nvs s' k ty = nvs_get nvs s k ty)"
proof -
  have s': "s' = snd (nvs_commit nvs (snd (nvs_erase_key nvs (snd (nvs_erase_key nvs
      (snd (nvs_erase_key nvs s ''w_sta_ssid'')) ''w_sta_pass'')) ''w_sta_active'')))"
    using assms(2) by (metis config_reset_def config_commit_def snd_conv)
  show ?thesis unfolding s' by (simp add: nvs_lawsD(4-6) [OF assms(1)])
qed

theorem config_reset_keeps_identity_witness:
  "nvs_get map_nvs (snd (config_reset map_nvs [''rtk_enr_key'' \<mapsto> NStr ''ab'', ''w_sta_ssid'' \<mapsto> NStr ''net''])) ''rtk_enr_key'' TStr = Inr (NStr ''ab'')"
proof -
  let ?s = "[''rtk_enr_key'' \<mapsto> NStr ''ab'', ''w_sta_ssid'' \<mapsto> NStr ''net'']"
  have "config_reset map_nvs ?s = (fst (config_reset map_nvs ?s), snd (config_reset map_nvs ?s))" by simp
  from config_reset_keeps_identity [OF map_nvs_laws this] show ?thesis by (simp add: map_nvs_def)
qed

end
