(* ===== verification/Nmea_Util.thy ===== *)
theory Nmea_Util
  imports Prelude "HOL-Library.Multiset" "HOL-Library.Char_ord"
begin

text \<open>
  NMEA sentences (\<open>src/main/protocol/nmea.c\<close>), the string and socket helpers of
  \<open>src/main/util.c\<close>, and the response checks of \<open>src/main/interface/ntrip_util.c\<close>. Strings
  are lists of characters without the terminator; the formatted text of a printf call is an
  argument. The resolver and the socket calls are parameters of \<open>connect_socket\<close>, which
  reports the descriptors it opened and closed.
\<close>

section \<open>NMEA sentences\<close>

definition nmea_calculate_checksum :: "string \<Rightarrow> u8" where
  "nmea_calculate_checksum sentence = foldl (\<lambda>c x. c XOR of_char x) 0 (drop 1 sentence)"

definition hex_digit :: "nat \<Rightarrow> char" where
  "hex_digit n = (if n < 10 then char_of (48 + n) else char_of (55 + n))"

definition hex02 :: "u8 \<Rightarrow> string" where
  "hex02 b = [hex_digit (unat (drop_bit 4 b)), hex_digit (unat (b AND 0x0F))]"

definition nmea_vasprintf :: "string \<Rightarrow> string \<times> int" where
  "nmea_vasprintf sentence =
     (let out = sentence @ ''*'' @ hex02 (nmea_calculate_checksum sentence) @ [CHR 0x0D, CHR 0x0A]
      in (out, int (length out)))"

definition nmea_asprintf :: "string \<Rightarrow> string \<times> int" where
  "nmea_asprintf formatted = nmea_vasprintf formatted"

section \<open>Headers and responses\<close>

definition starts_with :: "string \<Rightarrow> string \<Rightarrow> bool" where
  "starts_with a b \<longleftrightarrow> take (length b) a = b"

definition ntrip_response_ok :: "string \<Rightarrow> bool" where
  "ntrip_response_ok r \<longleftrightarrow> starts_with r ''OK'' \<or> starts_with r ''ICY 200 OK'' \<or> starts_with r ''HTTP/1.1 200 OK''"

definition ntrip_response_sourcetable_ok :: "string \<Rightarrow> bool" where
  "ntrip_response_sourcetable_ok r \<longleftrightarrow> starts_with r ''HTTP/1.1 200 OK'' \<or> starts_with r ''SOURCETABLE 200 OK''"

definition lower :: "char \<Rightarrow> char" where
  "lower c = (if CHR ''A'' \<le> c \<and> c \<le> CHR ''Z'' then char_of (of_char c + 32 :: nat) else c)"

definition is_space :: "char \<Rightarrow> bool" where
  "is_space c \<longleftrightarrow> c \<in> {CHR '' '', CHR 0x09, CHR 0x0A, CHR 0x0B, CHR 0x0C, CHR 0x0D}"

text \<open>The suffix of the text at the first occurrence, as \<open>strstr\<close> and \<open>strcasestr\<close> return it.\<close>

fun strstr_by :: "(char \<Rightarrow> char) \<Rightarrow> string \<Rightarrow> string \<Rightarrow> string option" where
  "strstr_by f s key =
     (if take (length key) (map f s) = map f key then Some s
      else case s of [] \<Rightarrow> None | _ # t \<Rightarrow> strstr_by f t key)"

definition CRLF :: string where
  "CRLF = [CHR 0x0D, CHR 0x0A]"

definition trim :: "string \<Rightarrow> string" where
  "trim v = rev (dropWhile is_space (rev (dropWhile is_space v)))"

definition extract_http_header :: "bool \<Rightarrow> string \<Rightarrow> string \<Rightarrow> string option" where
  "extract_http_header oom buffer key =
     (if length key + 2 > length buffer then None
      else case strstr_by lower buffer key of
             None \<Rightarrow> None
           | Some at \<Rightarrow>
               let start = drop (length key) at
               in case strstr_by id start CRLF of
                    None \<Rightarrow> None
                  | Some tail \<Rightarrow>
                      let v = trim (take (length start - length tail) start)
                      in if v = [] then None else if oom then None else Some v)"

section \<open>Sockets\<close>

text \<open>What the resolver and the socket calls answer for an address.\<close>

record addr_result =
  ar_socket :: int
  ar_connect :: int

definition CONNECT_SOCKET_ERROR_RESOLVE :: int where "CONNECT_SOCKET_ERROR_RESOLVE = -2"
definition CONNECT_SOCKET_ERROR_CONNECT :: int where "CONNECT_SOCKET_ERROR_CONNECT = -1"
definition CONNECT_SOCKET_ERROR_OPTS :: int where "CONNECT_SOCKET_ERROR_OPTS = -3"

text \<open>The loop over the addresses: the connected socket or \<open>-1\<close>, and the descriptors opened and closed.\<close>

fun try_addresses :: "addr_result list \<Rightarrow> int \<times> int list \<times> int list" where
  "try_addresses [] = (-1, [], [])"
| "try_addresses (a # as) =
     (if ar_socket a < 0 then (if as = [] then (ar_socket a, [], []) else try_addresses as)
      else if ar_connect a = 0 then (ar_socket a, [ar_socket a], [])
      else let (s, opened, closed) = try_addresses as in (s, ar_socket a # opened, ar_socket a # closed))"

definition connect_socket :: "int \<Rightarrow> addr_result list \<Rightarrow> int list \<Rightarrow> int \<times> int list \<times> int list" where
  "connect_socket gai addrs opts =
     (if gai < 0 then (CONNECT_SOCKET_ERROR_RESOLVE, [], [])
      else let (sock, opened, closed) = try_addresses addrs
           in if sock < 0 then (CONNECT_SOCKET_ERROR_CONNECT, opened, closed)
              else if list_all (\<lambda>e. e = 0) opts then (sock, opened, closed)
              else (CONNECT_SOCKET_ERROR_OPTS, opened, closed @ [sock]))"

definition destroy_socket :: "int \<Rightarrow> int \<times> int list" where
  "destroy_socket sock = (if sock < 0 then (sock, []) else (-1, [sock]))"

section \<open>Lemmas\<close>

lemma strstr_by_suffix:
  "strstr_by f s key = Some t \<Longrightarrow> \<exists>pre. s = pre @ t \<and> take (length key) (map f t) = map f key"
proof (induction s)
  case (Cons c s)
  show ?case
  proof (cases "take (length key) (map f (c # s)) = map f key")
    case True
    then show ?thesis using Cons.prems by (intro exI [of _ "[]"]) auto
  next
    case False
    then obtain pre where "s = pre @ t" "take (length key) (map f t) = map f key"
      using Cons.prems Cons.IH by (auto simp del: take_map)
    then show ?thesis by (intro exI [of _ "c # pre"]) simp
  qed
qed (auto split: if_splits)

section \<open>The checksum\<close>

lemma foldl_xor_acc: "foldl (\<lambda>c x. c XOR of_char x) (a :: u8) xs = a XOR foldl (\<lambda>c x. c XOR of_char x) 0 xs"
proof (induction xs rule: rev_induct)
  case (snoc x xs)
  then show ?case by (simp add: xor.assoc)
qed simp

lemma checksum_split:
  "foldl (\<lambda>c x. c XOR of_char x) (0 :: u8) (xs @ y # ys) =
   of_char y XOR foldl (\<lambda>c x. c XOR of_char x) 0 (xs @ ys)"
proof -
  have "foldl (\<lambda>c x. c XOR of_char x) (0 :: u8) (xs @ y # ys) =
      (foldl (\<lambda>c x. c XOR of_char x) 0 xs XOR of_char y) XOR foldl (\<lambda>c x. c XOR of_char x) 0 ys"
    using foldl_xor_acc [of "foldl (\<lambda>c x. c XOR of_char x) (0 :: u8) xs XOR of_char y" ys] by simp
  moreover have "foldl (\<lambda>c x. c XOR of_char x) (0 :: u8) (xs @ ys) =
      foldl (\<lambda>c x. c XOR of_char x) 0 xs XOR foldl (\<lambda>c x. c XOR of_char x) 0 ys"
    using foldl_xor_acc [of "foldl (\<lambda>c x. c XOR of_char x) (0 :: u8) xs" ys] by simp
  ultimately show ?thesis by (simp add: ac_simps)
qed

lemma len8_256: "(2 :: nat) ^ LENGTH(8) = 256"
  by simp

lemma unat_of_char: "unat (of_char c :: u8) = of_char c"
proof -
  have "unat (of_nat (of_char c) :: u8) = of_char c"
    using nat_of_char_less_256 [of c] by (simp only: unsigned_of_nat take_bit_nat_eq_self len8_256 of_nat_id)
  then show ?thesis by (simp only: of_nat_of_char)
qed

lemma of_char_u8_inj: "(of_char c :: u8) = of_char d \<longleftrightarrow> c = d"
proof
  assume a: "(of_char c :: u8) = of_char d"
  have "(of_char c :: nat) = of_char d" unfolding unat_of_char [symmetric] a ..
  then show "c = d" by (rule of_char_eqI)
qed simp

text \<open>Changing one character of a sentence, the first excepted, changes its checksum.\<close>

lemma checksum_detects:
  assumes "1 \<le> i" "i < length s" "c \<noteq> s ! i"
  shows "nmea_calculate_checksum (s[i := c]) \<noteq> nmea_calculate_checksum s"
proof -
  obtain h t where s: "s = h # t" using assms(2) by (cases s) auto
  obtain j where j: "i = Suc j" "j < length t" using assms(1,2) s by (cases i) auto
  have d: "drop 1 s = take j t @ t ! j # drop (Suc j) t"
    unfolding s using id_take_nth_drop [OF j(2)] by simp
  have u: "drop 1 (s[i := c]) = take j t @ c # drop (Suc j) t" using s j by (simp add: upd_conv_take_nth_drop)
  have n: "t ! j \<noteq> c" using assms(3) s j(1) by simp
  have xor_r: "x = z" if "x XOR y = z XOR y" for x y z :: u8
  proof -
    have "x = (x XOR y) XOR y" by (simp only: xor.assoc xor_self_eq xor.right_neutral)
    also have "\<dots> = z" unfolding that by (simp only: xor.assoc xor_self_eq xor.right_neutral)
    finally show ?thesis .
  qed
  show ?thesis unfolding nmea_calculate_checksum_def d u checksum_split
    by (rule contrapos_nn [OF n]) (drule xor_r, simp only: of_char_u8_inj)
qed

lemma checksum_detects_unat:
  "\<forall>i c. 1 \<le> i \<and> i < length s \<and> c \<noteq> s ! i \<longrightarrow>
     unat (nmea_calculate_checksum s) \<noteq> unat (nmea_calculate_checksum (s[i := c]))"
  using checksum_detects unsigned_word_eqI by metis

text \<open>The value of the two digits, as a receiver of the sentence reads them.\<close>

definition unhex :: "char \<Rightarrow> nat" where
  "unhex c = (if of_char c < (58 :: nat) then of_char c - 48 else of_char c - 55)"

lemma unhex_hex_digit: "n < 16 \<Longrightarrow> unhex (hex_digit n) = n"
  by (auto simp: unhex_def hex_digit_def)

lemma hex02_value: "16 * unhex (hex02 b ! 0) + unhex (hex02 b ! 1) = unat b"
proof -
  have a: "unat (drop_bit 4 b) = unat b div 16" by (simp add: drop_bit_eq_div unat_div)
  have "b AND 0x0F = take_bit 4 b" by (simp add: take_bit_eq_mask mask_eq_exp_minus_1)
  then have c: "unat (b AND 0x0F) = unat b mod 16" by (simp add: take_bit_eq_mod unat_mod)
  have "unat b < 256" using unsigned_less [of b, where ?'a = nat] by simp
  then show ?thesis by (simp add: hex02_def a c unhex_hex_digit)
qed

text \<open>A sentence ends with a star, the two digits of its checksum and the line end, the
  reported length is the length of the whole text, a receiver reads the checksum of the body back
  from the digits, and a body with one character changed (the leading one is not covered) does
  not match them any more.\<close>

theorem nmea_sentence_checks:
  "nmea_vasprintf s = (out, n) \<Longrightarrow>
   n = int (length s) + 5 \<and> take (length s) out = s \<and> out ! length s = CHR ''*'' \<and>
   drop (length s + 3) out = CRLF \<and>
   16 * unhex (out ! (length s + 1)) + unhex (out ! (length s + 2)) = unat (nmea_calculate_checksum s) \<and>
   (\<forall>i c. 1 \<le> i \<and> i < length s \<and> c \<noteq> s ! i \<longrightarrow>
      16 * unhex (out ! (length s + 1)) + unhex (out ! (length s + 2)) \<noteq>
        unat (nmea_calculate_checksum (s[i := c])))"
  using hex02_value [of "nmea_calculate_checksum s"] checksum_detects_unat [of s]
  by (auto simp: nmea_vasprintf_def Let_def nth_append CRLF_def hex02_def)

definition demo_sentence :: string where
  "demo_sentence = ''$PESP,RTK,GNSS,CONFIG,13,14''"

theorem nmea_sentence_checks_witness:
  "16 * unhex (fst (nmea_vasprintf demo_sentence) ! (length demo_sentence + 1)) +
     unhex (fst (nmea_vasprintf demo_sentence) ! (length demo_sentence + 2)) =
   unat (nmea_calculate_checksum demo_sentence) \<and> nmea_calculate_checksum demo_sentence = 0x73"
proof
  show "16 * unhex (fst (nmea_vasprintf demo_sentence) ! (length demo_sentence + 1)) +
     unhex (fst (nmea_vasprintf demo_sentence) ! (length demo_sentence + 2)) =
   unat (nmea_calculate_checksum demo_sentence)"
    using nmea_sentence_checks [of demo_sentence "fst (nmea_vasprintf demo_sentence)"
      "snd (nmea_vasprintf demo_sentence)", OF prod.collapse [symmetric]] by (elim conjE)
  show "nmea_calculate_checksum demo_sentence = 0x73"
    by (simp add: nmea_calculate_checksum_def demo_sentence_def)
qed

section \<open>Header extraction\<close>

lemma takeWhile_spaces: "list_all is_space (takeWhile is_space x)"
  by (induction x) auto

lemma trim_parts: "\<exists>a b. v = a @ trim v @ b \<and> list_all is_space a \<and> list_all is_space b"
proof -
  let ?w = "dropWhile is_space v"
  have 1: "v = takeWhile is_space v @ ?w" by simp
  have "rev ?w = takeWhile is_space (rev ?w) @ dropWhile is_space (rev ?w)" by simp
  then have 2: "?w = trim v @ rev (takeWhile is_space (rev ?w))"
    unfolding trim_def by (metis rev_append rev_rev_ident)
  have 3: "list_all is_space (takeWhile is_space v)" "list_all is_space (rev (takeWhile is_space (rev ?w)))"
    by (rule takeWhile_spaces, unfold list_all_iff set_rev, fold list_all_iff, rule takeWhile_spaces)
  show ?thesis using 1 2 3 by metis
qed

lemma trim_ends:
  assumes "trim v \<noteq> []"
  shows "\<not> is_space (hd (trim v))" "\<not> is_space (last (trim v))"
proof -
  let ?w = "dropWhile is_space v"
  have n: "dropWhile is_space (rev ?w) \<noteq> []" using assms by (simp add: trim_def)
  show "\<not> is_space (last (trim v))" using hd_dropWhile [OF n] n by (simp add: trim_def last_rev)
  have w: "?w \<noteq> []" using n by (metis dropWhile.simps(1) rev.simps(1))
  have "\<not> is_space (hd ?w)" using hd_dropWhile [OF w] .
  moreover have "?w = trim v @ rev (takeWhile is_space (rev ?w))"
    unfolding trim_def by (metis rev_append rev_rev_ident takeWhile_dropWhile_id)
  ultimately show "\<not> is_space (hd (trim v))" using assms by (metis hd_append2)
qed

lemma strstr_by_first:
  "strstr_by id s key = Some t \<Longrightarrow> key \<noteq> [] \<Longrightarrow> s = pre @ t \<Longrightarrow> i < length pre \<Longrightarrow>
   take (length key) (drop i s) \<noteq> key"
proof (induction s arbitrary: pre i)
  case (Cons c s)
  show ?case
  proof (cases pre)
    case Nil
    then show ?thesis using Cons.prems by simp
  next
    case (Cons d pre')
    have st: "s = pre' @ t" using Cons Cons.prems(3) by simp
    have f: "take (length key) (c # s) \<noteq> key"
    proof
      assume "take (length key) (c # s) = key"
      then have "t = c # s" using Cons.prems(1) by simp
      then show False using st by (metis append_Cons append_eq_conv_conj length_append_singleton
          length_drop less_irrefl_nat list.size(4) add_cancel_right_left impossible_Cons le_add2 length_append)
    qed
    show ?thesis
    proof (cases i)
      case 0
      then show ?thesis using f by simp
    next
      case (Suc j)
      have "strstr_by id s key = Some t" using Cons.prems(1) f by (simp add: id_def split: if_splits)
      moreover have "j < length pre'" using Cons.prems(4) Cons Suc by simp
      ultimately have "take (length key) (drop j s) \<noteq> key" by (rule Cons.IH [OF _ Cons.prems(2) st])
      then show ?thesis using Suc by simp
    qed
  qed
qed simp

text \<open>A header value that is returned is not empty, neither starts nor ends with a blank, and is
  the text that follows an occurrence of the key (compared without case) up to the first line end
  after it, with nothing but blanks cut away around it.\<close>

theorem http_header_sound:
  "extract_http_header oom buffer key = Some v \<Longrightarrow>
   v \<noteq> [] \<and> \<not> is_space (hd v) \<and> \<not> is_space (last v) \<and>
   (\<exists>pre k a b tail. buffer = pre @ k @ a @ v @ b @ CRLF @ tail \<and> map lower k = map lower key \<and>
      list_all is_space a \<and> list_all is_space b \<and>
      (\<forall>i < length (a @ v @ b). take 2 (drop i (a @ v @ b @ CRLF @ tail)) \<noteq> CRLF))"
proof -
  assume h: "extract_http_header oom buffer key = Some v"
  obtain st where st: "strstr_by lower buffer key = Some st"
    and "(case strstr_by id (drop (length key) st) CRLF of None \<Rightarrow> None
         | Some tail \<Rightarrow> let v = trim (take (length (drop (length key) st) - length tail) (drop (length key) st))
                      in if v = [] then None else if oom then None else Some v) = Some v"
    using h unfolding extract_http_header_def Let_def by (auto split: if_splits option.splits)
  then obtain t where t: "strstr_by id (drop (length key) st) CRLF = Some t"
    and v: "v = trim (take (length (drop (length key) st) - length t) (drop (length key) st))" "v \<noteq> []"
    by (auto simp: Let_def split: option.splits if_splits)
  obtain pre where pre: "buffer = pre @ st" "take (length key) (map lower st) = map lower key"
    using strstr_by_suffix [OF st] by auto
  obtain line where line: "drop (length key) st = line @ t" "take (length CRLF) t = CRLF"
    using strstr_by_suffix [OF t] by auto
  have vl: "v = trim line" using v(1) line(1) by simp
  obtain a b where ab: "line = a @ v @ b" "list_all is_space a" "list_all is_space b"
    using trim_parts [of line] vl by auto
  have tail: "t = CRLF @ drop 2 t" using line(2) append_take_drop_id [of "length CRLF" t] by (simp add: CRLF_def numeral_2_eq_2)
  have first: "\<forall>i < length line. take 2 (drop i (line @ t)) \<noteq> CRLF"
    using strstr_by_first [OF t _ line(1)] line(1) by (simp add: CRLF_def numeral_2_eq_2)
  have "buffer = pre @ take (length key) st @ a @ v @ b @ CRLF @ drop 2 t"
    using pre(1) append_take_drop_id [of "length key" st] line(1) ab(1) tail by (metis append.assoc)
  moreover have "map lower (take (length key) st) = map lower key" using pre(2) by (simp add: take_map)
  moreover have "\<forall>i < length (a @ v @ b). take 2 (drop i (a @ v @ b @ CRLF @ drop 2 t)) \<noteq> CRLF"
    using first ab(1) tail by (metis append.assoc)
  ultimately show ?thesis using ab(2,3) trim_ends [of line] v(2) vl by blast
qed

definition demo_reply :: string where
  "demo_reply = ''ICY'' @ CRLF @ ''content-length:  42 '' @ CRLF @ CRLF"

theorem http_header_sound_witness:
  "extract_http_header False demo_reply ''Content-Length:'' = Some ''42'' \<and> \<not> is_space (hd ''42'')"
proof -
  have e: "extract_http_header False demo_reply ''Content-Length:'' = Some ''42''" by code_simp
  show ?thesis using http_header_sound [OF e] e by blast
qed

section \<open>Descriptors\<close>

lemma try_addresses_balance:
  "try_addresses as = (s, opened, closed) \<Longrightarrow>
   mset opened = mset closed + (if 0 \<le> s then {#s#} else {#}) \<and>
   (0 \<le> s \<longrightarrow> (\<exists>a \<in> set as. ar_socket a = s \<and> ar_connect a = 0))"
  by (induction as arbitrary: s opened closed) (auto split: if_splits prod.splits)

text \<open>Opening a connection leaks no descriptor: what was opened and not closed again is exactly
  the returned socket, or nothing when an error is returned; a returned socket is connected to one
  of the addresses with every option set, and destroying it closes it once and for all.\<close>

theorem connect_socket_no_leak:
  "case connect_socket gai addrs opts of (r, opened, closed) \<Rightarrow>
     mset opened = mset closed + (if 0 \<le> r then {#r#} else {#}) \<and>
     (r \<in> {CONNECT_SOCKET_ERROR_RESOLVE, CONNECT_SOCKET_ERROR_CONNECT, CONNECT_SOCKET_ERROR_OPTS} \<or>
      ((\<exists>a \<in> set addrs. ar_socket a = r \<and> ar_connect a = 0) \<and> set opts \<subseteq> {0})) \<and>
     mset opened = mset (closed @ snd (destroy_socket r)) \<and>
     destroy_socket (fst (destroy_socket r)) = (fst (destroy_socket r), [])"
proof -
  obtain s op cl where t: "try_addresses addrs = (s, op, cl)" by (cases "try_addresses addrs")
  show ?thesis using try_addresses_balance [OF t]
    by (auto simp: connect_socket_def t destroy_socket_def CONNECT_SOCKET_ERROR_RESOLVE_def
        CONNECT_SOCKET_ERROR_CONNECT_def CONNECT_SOCKET_ERROR_OPTS_def list_all_iff)
qed

end
