(* ===== verification/Uart.thy ===== *)
theory Uart
  imports Data_Queue Stream_Stats Gnss_Control Ntrip_Ingest Config_Store Nmea_Util
begin

text \<open>
  The serial ports (\<open>src/main/uart.c\<close>): the task that reads the receiver and hands every chunk to the
  acknowledgement capture, to the RTCM ingest and to the event bus, the writers to the receiver and to
  the console, the event task of the console port, and the buffered receive queue.

  What the driver returns (a chunk, an error, the number of bytes written) and whether the event bus
  accepts a post are arguments. Posts and writes are logged in order.
\<close>

section \<open>State\<close>

abbreviation UART_BUFFER_SIZE :: nat where "UART_BUFFER_SIZE \<equiv> 4096"
abbreviation GNSS_PORT :: int where "GNSS_PORT \<equiv> 2"
abbreviation USBC_PORT :: int where "USBC_PORT \<equiv> 0"

datatype uart_event = Post_Read "u8 list" | Post_Write "u8 list" | Tx int "u8 list"

record uart_params =
  up_baud_rate :: u32
  up_data_bits :: u8
  up_parity :: u8
  up_stop_bits :: u8

record uart =
  uart_port :: int
  uart_log_forward :: bool
  s_event_post_drops :: u32
  s_read_errors :: u32
  ua_stats :: stream_stats
  ua_buffer :: "u8 list"
  ua_params :: "uart_params option"
  gnss_mutex_send :: bool
  usbc_mutex_send :: bool
  usbc_read_cb :: bool
  gnss_cmd_mode :: bool
  gnss_uart_rx_que :: data_queue
  ua_gnss :: gnss
  ua_server :: server
  ua_log :: "uart_event list"

definition uart_event_post_drops :: "uart \<Rightarrow> u32" where "uart_event_post_drops u = s_event_post_drops u"
definition uart_read_errors :: "uart \<Rightarrow> u32" where "uart_read_errors u = s_read_errors u"
definition set_gnss_cmd_mode :: "bool \<Rightarrow> uart \<Rightarrow> uart" where "set_gnss_cmd_mode b u = u\<lparr>gnss_cmd_mode := b\<rparr>"

section \<open>Reading the receiver\<close>

text \<open>The text of a chunk, as the acknowledgement capture reads it.\<close>

definition chars_of :: "u8 list \<Rightarrow> string" where
  "chars_of bs = map (\<lambda>b. char_of (unat b)) bs"

text \<open>What \<open>uart_read_bytes\<close> returns: an error, or the bytes of a chunk (none on a timeout).\<close>

datatype uart_read = Read_Error | Read_Bytes "u8 list"

text \<open>
  One iteration of the task. The chunk is written to the buffer, its copy is posted with no wait, and the
  terminator is written after it.
\<close>

record tick =
  tk_read :: uart_read
  tk_post_ok :: bool
  tk_ms :: u32
  tk_us :: int

definition uart_task_step :: "tick \<Rightarrow> uart \<Rightarrow> uart option" where
  "uart_task_step k u =
     (case tk_read k of
        Read_Error \<Rightarrow> Some (u\<lparr>s_read_errors := s_read_errors u + 1\<rparr>)
      | Read_Bytes bs \<Rightarrow>
          if bs = [] then Some u
          else do {
            buf \<leftarrow> mem_write (ua_buffer u) 0 bs;
            let u = u\<lparr>ua_stats := stream_stats_increment (of_nat (length bs)) 0 (ua_stats u)\<rparr>;
            let u = u\<lparr>ua_gnss := gnss_ingest_uart (chars_of bs) (ua_gnss u)\<rparr>;
            srv \<leftarrow> ntrip_server_ingest_uart (tk_ms k) (tk_us k) bs (ua_server u);
            let u = u\<lparr>ua_server := srv\<rparr>;
            let u = (if tk_post_ok k then u\<lparr>ua_log := ua_log u @ [Post_Read (take (length bs) buf)]\<rparr>
                     else u\<lparr>s_event_post_drops := s_event_post_drops u + 1\<rparr>);
            buf \<leftarrow> mem_write buf (length bs) [0];
            Some (u\<lparr>ua_buffer := buf\<rparr>)
          })"

primrec uart_task :: "tick list \<Rightarrow> uart \<Rightarrow> uart option" where
  "uart_task [] u = Some u"
| "uart_task (k # ks) u = do { u \<leftarrow> uart_task_step k u; uart_task ks u }"

section \<open>Writing\<close>

text \<open>\<open>written\<close> is the result of \<open>uart_write_bytes\<close>.\<close>

definition uart_write :: "int \<Rightarrow> u8 list \<Rightarrow> uart \<Rightarrow> int \<times> uart" where
  "uart_write written buf u =
     (if uart_port u < 0 then (0, u)
      else if buf = [] then (0, u)
      else let u = u\<lparr>ua_log := ua_log u @ [Tx (uart_port u) buf]\<rparr>
           in if written < 0 then (written, u)
              else let u = u\<lparr>ua_stats := stream_stats_increment 0 (of_nat (length buf)) (ua_stats u)\<rparr>
                   in (written, u\<lparr>ua_log := ua_log u @ [Post_Write buf]\<rparr>))"

text \<open>The length parameter of the console writer has 16 bits.\<close>

definition drv_uart_usbc_send :: "int \<Rightarrow> u8 list \<Rightarrow> uart \<Rightarrow> int \<times> uart" where
  "drv_uart_usbc_send written data u =
     (if \<not> usbc_mutex_send u then (0, u)
      else (written, u\<lparr>ua_log := ua_log u @ [Tx USBC_PORT (take (to_u16 (length data)) data)]\<rparr>))"

definition uart_log_out :: "int \<Rightarrow> u8 list \<Rightarrow> uart \<Rightarrow> int \<times> uart" where
  "uart_log_out written buf u = drv_uart_usbc_send written buf u"

definition bytes_of :: "string \<Rightarrow> u8 list" where
  "bytes_of s = map (\<lambda>c. of_char c) s"

definition uart_nmea :: "int \<Rightarrow> string \<Rightarrow> uart \<Rightarrow> int \<times> uart" where
  "uart_nmea written sentence u =
     (let nmea = fst (nmea_vasprintf sentence) in drv_uart_usbc_send written (bytes_of nmea) u)"

text \<open>The mutex of the receiver port must exist: taking a null mutex stops the program.\<close>

definition drv_uart_gnss_send :: "int \<Rightarrow> u8 list \<Rightarrow> uart \<Rightarrow> (int \<times> uart) option" where
  "drv_uart_gnss_send written data u =
     (if gnss_mutex_send u then Some (written, u\<lparr>ua_log := ua_log u @ [Tx GNSS_PORT data]\<rparr>) else None)"

text \<open>
  \<open>drv_uart_usbc_printf\<close>: the text is cut to a stack buffer of 129 bytes, and the terminator goes to
  the position the uncut length names.
\<close>

definition drv_uart_usbc_printf :: "u8 list \<Rightarrow> u8 list \<Rightarrow> uart \<Rightarrow> uart option" where
  "drv_uart_usbc_printf stack formatted u = do {
     buff \<leftarrow> mem_write stack 0 (take 127 formatted @ [0]);
     let len = length formatted;
     buff \<leftarrow> mem_write buff len [0];
     out \<leftarrow> mem_read buff 0 len;
     Some (u\<lparr>ua_log := ua_log u @ [Tx USBC_PORT out]\<rparr>)
   }"

section \<open>The event task of the console port\<close>

abbreviation MAX_RX_SZ :: nat where "MAX_RX_SZ \<equiv> 100"

datatype port_event = UART_DATA nat | UART_FIFO_OVF | UART_BUFFER_FULL | UART_OTHER

text \<open>The port: its event queue, the bytes the driver holds, and the chunks handed to the callback.\<close>

record port =
  pt_queue :: "port_event list"
  pt_rx :: "u8 list"
  pt_cb :: bool
  pt_chunks :: "u8 list list"

text \<open>One event; \<open>None\<close> while the task waits for an event, or for bytes the driver does not hold yet.\<close>

definition drv_uart_event_task :: "port \<Rightarrow> port option" where
  "drv_uart_event_task p =
     (case pt_queue p of
        [] \<Rightarrow> None
      | e # q \<Rightarrow>
          let p = p\<lparr>pt_queue := q\<rparr>
          in case e of
               UART_DATA n \<Rightarrow>
                 if \<not> pt_cb p then Some (p\<lparr>pt_rx := []\<rparr>)
                 else let n = (if n > MAX_RX_SZ then MAX_RX_SZ else n)
                      in if length (pt_rx p) < n then None
                         else Some (p\<lparr>pt_chunks := pt_chunks p @ [take n (pt_rx p)], pt_rx := drop n (pt_rx p)\<rparr>)
             | UART_FIFO_OVF \<Rightarrow> Some (p\<lparr>pt_rx := [], pt_queue := []\<rparr>)
             | UART_BUFFER_FULL \<Rightarrow> Some (p\<lparr>pt_rx := [], pt_queue := []\<rparr>)
             | UART_OTHER \<Rightarrow> Some p)"

section \<open>The buffered receive queue\<close>

abbreviation GNSS_UART_RX_BUFF_SIZE :: nat where "GNSS_UART_RX_BUFF_SIZE \<equiv> 1024"

definition drv_uart_gnss_buffer_data :: "u8 list \<Rightarrow> uart \<Rightarrow> uart option" where
  "drv_uart_gnss_buffer_data data u =
     map_option (\<lambda>(_, q). u\<lparr>gnss_uart_rx_que := q\<rparr>) (data_que_packet_in data 0 (gnss_uart_rx_que u))"

definition drv_uart_gnss_enable_buffer_cb :: "bool \<Rightarrow> uart \<Rightarrow> uart" where
  "drv_uart_gnss_enable_buffer_cb malloc_ok u =
     u\<lparr>gnss_uart_rx_que := data_que_create malloc_ok GNSS_UART_RX_BUFF_SIZE (gnss_uart_rx_que u)\<rparr>"

definition drv_uart_gnss_buffered_rx_len :: "uart \<Rightarrow> nat" where
  "drv_uart_gnss_buffered_rx_len u = data_que_size (gnss_uart_rx_que u)"

definition drv_uart_gnss_recv_with_timeout :: "nat \<Rightarrow> uart \<Rightarrow> (u8 list \<times> uart) option" where
  "drv_uart_gnss_recv_with_timeout len u =
     map_option (\<lambda>(out, q). (out, u\<lparr>gnss_uart_rx_que := q\<rparr>)) (data_que_packet_out len [] (gnss_uart_rx_que u))"

text \<open>The blocking read: \<open>arr k\<close> is what the driver buffers during the \<open>k\<close>-th wait of a tick.\<close>

partial_function (option) drv_uart_gnss_recv :: "(nat \<Rightarrow> u8 list) \<Rightarrow> nat \<Rightarrow> nat \<Rightarrow> uart \<Rightarrow> (u8 list \<times> uart) option" where
  "drv_uart_gnss_recv arr len k u =
     (if data_que_size (gnss_uart_rx_que u) = 0
      then Option.bind (drv_uart_gnss_buffer_data (arr k) u) (\<lambda>u. drv_uart_gnss_recv arr len (k + 1) u)
      else drv_uart_gnss_recv_with_timeout len u)"

definition drv_uart_gnss_flush :: "uart \<Rightarrow> uart" where
  "drv_uart_gnss_flush u = u\<lparr>gnss_uart_rx_que := snd (data_que_cleanup (gnss_uart_rx_que u))\<rparr>"

definition drv_uart_gnss_set_baudrate :: "esp_err \<Rightarrow> u32 \<Rightarrow> esp_err \<times> u32 option" where
  "drv_uart_gnss_set_baudrate res baud_rate =
     (if baud_rate = 0 then (ESP_FAIL, None) else (res, Some baud_rate))"

section \<open>Start\<close>

definition drv_uart_usbc_init :: "uart \<Rightarrow> uart" where
  "drv_uart_usbc_init u = u\<lparr>usbc_mutex_send := True\<rparr>"

definition drv_uart_usbc_read_set_cb :: "bool \<Rightarrow> uart \<Rightarrow> uart" where
  "drv_uart_usbc_read_set_cb cb u = u\<lparr>usbc_read_cb := cb\<rparr>"

text \<open>\<open>uart_init\<close>: \<open>None\<close> when one of the three driver calls fails, which stops the program.\<close>

definition uart_init :: "'s nvs \<Rightarrow> 's \<Rightarrow> bool \<times> bool \<times> bool \<Rightarrow> uart \<Rightarrow> uart option" where
  "uart_init nvs s ok u =
     (let u = u\<lparr>uart_log_forward := config_get_bool1 nvs (CONF_ITEM ''uart_log_fwd'') s, uart_port := GNSS_PORT\<rparr>;
          prm = \<lparr>up_baud_rate = config_get_u32 nvs (CONF_ITEM ''uart_baud_rate'') s,
                 up_data_bits = config_get_u8 nvs (CONF_ITEM ''uart_data_bits'') s,
                 up_parity = config_get_u8 nvs (CONF_ITEM ''uart_parity'') s,
                 up_stop_bits = config_get_u8 nvs (CONF_ITEM ''uart_stop_bits'') s\<rparr>
      in if \<not> fst ok then None
         else if \<not> fst (snd ok) then None
         else if \<not> snd (snd ok) then None
         else let u = u\<lparr>ua_params := Some prm, ua_stats := hd (stream_stats_new 0 []), gnss_mutex_send := True\<rparr>;
                  u = drv_uart_usbc_init u
              in Some (drv_uart_usbc_read_set_cb True u))"

section \<open>From the receiver to the ring\<close>

definition bytes_read :: "tick \<Rightarrow> u8 list" where
  "bytes_read k = (case tk_read k of Read_Error \<Rightarrow> [] | Read_Bytes bs \<Rightarrow> bs)"

definition stream_of :: "tick list \<Rightarrow> u8 list" where
  "stream_of ks = concat (map bytes_read ks)"

text \<open>The chunks the event bus takes, and how many reads failed or were not delivered.\<close>

definition posts_of :: "tick list \<Rightarrow> uart_event list" where
  "posts_of ks = map (\<lambda>k. Post_Read (bytes_read k)) (filter (\<lambda>k. bytes_read k \<noteq> [] \<and> tk_post_ok k) ks)"

definition drops_of :: "tick list \<Rightarrow> nat" where
  "drops_of ks = length (filter (\<lambda>k. bytes_read k \<noteq> [] \<and> \<not> tk_post_ok k) ks)"

definition errors_of :: "tick list \<Rightarrow> nat" where
  "errors_of ks = length (filter (\<lambda>k. tk_read k = Read_Error) ks)"

definition uart_ok :: "uart \<Rightarrow> frame_log \<Rightarrow> bool" where
  "uart_ok u L \<longleftrightarrow> g_ring_mutex (ua_server u) \<and> parser_ok (g_rtcm_parser (ua_server u)) \<and>
     ring_holds (g_frame_ring (ua_server u)) L \<and> length (ua_buffer u) = UART_BUFFER_SIZE"

lemma held_waits:
  assumes "parser_ok (g_rtcm_parser s)" shows "sc_frames (rtcm_scan (held s)) = []" "sc_rest (rtcm_scan (held s)) = held s"
  using rtcm_scan_waiting [OF parser_ok_waits [OF assms]] rtcm_scan_waiting [OF parser_ok_waits [OF parser_init_ok(1)]]
    parser_init_ok
  by (auto simp: held_def sc_defs)

text \<open>What a run has done to the counters, the log and the ring, relative to its start.\<close>

definition uart_after :: "tick list \<Rightarrow> uart \<Rightarrow> frame_log \<Rightarrow> uart \<Rightarrow> bool" where
  "uart_after ks u L u' \<longleftrightarrow>
     (\<exists>L'. uart_ok u' (L @ L') \<and> map fst L' = sc_frames (rtcm_scan (held (ua_server u) @ stream_of ks))) \<and>
     held (ua_server u') = sc_rest (rtcm_scan (held (ua_server u) @ stream_of ks)) \<and>
     st_total_in (ua_stats u') = st_total_in (ua_stats u) + of_nat (length (stream_of ks)) \<and>
     s_read_errors u' = s_read_errors u + of_nat (errors_of ks) \<and>
     s_event_post_drops u' = s_event_post_drops u + of_nat (drops_of ks) \<and>
     ua_log u' = ua_log u @ posts_of ks"

lemma uart_step_after:
  assumes "uart_ok u L" "length (bytes_read k) < UART_BUFFER_SIZE"
  shows "\<exists>u'. uart_task_step k u = Some u' \<and> uart_after [k] u L u'"
proof (cases "bytes_read k = []")
  case True
  note w = held_waits [of "ua_server u"]
  show ?thesis
  proof (cases "tk_read k")
    case Read_Error
    with assms w show ?thesis
      by (auto simp: uart_task_step_def uart_after_def uart_ok_def stream_of_def errors_of_def drops_of_def
        posts_of_def bytes_read_def intro!: exI [of _ "[]"])
  next
    case (Read_Bytes bs)
    with assms w True show ?thesis
      by (auto simp: uart_task_step_def uart_after_def uart_ok_def stream_of_def errors_of_def drops_of_def
        posts_of_def bytes_read_def intro!: exI [of _ "[]"])
  qed
next
  case False
  then obtain bs where b: "tk_read k = Read_Bytes bs" "bs \<noteq> []" "length bs < 4096"
    using assms(2) by (cases "tk_read k") (auto simp: bytes_read_def)
  let ?S = "rtcm_scan (held (ua_server u) @ bs)"
  obtain s' where s: "ntrip_server_ingest_uart (tk_ms k) (tk_us k) bs (ua_server u) = Some s'"
    "parser_ok (g_rtcm_parser s')" "ring_holds (g_frame_ring s') (L @ map (\<lambda>f. (f, tk_ms k)) (sc_frames ?S))"
    "pending (g_rtcm_parser s') = sc_rest ?S" "g_ring_mutex s'" "\<not> s_ingest_reset_req s'"
    using ingest_effect [of "ua_server u" bs L "tk_ms k" "tk_us k"] assms(1) b(2) by (auto simp: uart_ok_def)
  have m: "map fst (map (\<lambda>f. (f, tk_ms k)) (sc_frames ?S)) = sc_frames ?S" by (simp add: comp_def)
  have h: "held s' = sc_rest ?S" using s(4,6) by (simp add: held_def)
  from assms(1) have l: "length (ua_buffer u) = 4096" by (simp add: uart_ok_def)
  show ?thesis using b s(1,2,3,5) h l m
    by (auto simp: uart_task_step_def uart_after_def uart_ok_def stream_of_def errors_of_def drops_of_def
      posts_of_def bytes_read_def stream_stats_increment_def Let_def
      intro!: exI [of _ "map (\<lambda>f. (f, tk_ms k)) (sc_frames ?S)"])
qed

lemma run_parts:
  "stream_of (k # ks) = stream_of [k] @ stream_of ks" "posts_of (k # ks) = posts_of [k] @ posts_of ks"
  "drops_of (k # ks) = drops_of [k] + drops_of ks" "errors_of (k # ks) = errors_of [k] + errors_of ks"
  by (simp_all add: stream_of_def posts_of_def drops_of_def errors_of_def)

lemma uart_after_trans:
  assumes a: "uart_after [k] u L u1" and b: "\<And>L1. uart_ok u1 L1 \<Longrightarrow> uart_after ks u1 L1 u2"
  shows "uart_after (k # ks) u L u2"
proof -
  from a obtain L1 where L1: "uart_ok u1 (L @ L1)"
    "map fst L1 = sc_frames (rtcm_scan (held (ua_server u) @ stream_of [k]))" by (auto simp: uart_after_def)
  from b [OF L1(1)] obtain L2 where L2: "uart_ok u2 ((L @ L1) @ L2)"
    "map fst L2 = sc_frames (rtcm_scan (held (ua_server u1) @ stream_of ks))" by (auto simp: uart_after_def)
  have h1: "held (ua_server u1) = sc_rest (rtcm_scan (held (ua_server u) @ stream_of [k]))" using a by (simp add: uart_after_def)
  have r: "held (ua_server u) @ stream_of (k # ks) = (held (ua_server u) @ stream_of [k]) @ stream_of ks"
    by (subst run_parts(1)) simp
  have j: "sc_frames (rtcm_scan (held (ua_server u) @ stream_of (k # ks))) = map fst (L1 @ L2)"
    "sc_rest (rtcm_scan (held (ua_server u) @ stream_of (k # ks))) =
       sc_rest (rtcm_scan (held (ua_server u1) @ stream_of ks))"
    unfolding r rtcm_scan_append [of "held (ua_server u) @ stream_of [k]"] h1 [symmetric]
    by (simp_all add: sc_join_def L1(2) L2(2))
  have "\<exists>L'. uart_ok u2 (L @ L') \<and> map fst L' = sc_frames (rtcm_scan (held (ua_server u) @ stream_of (k # ks)))"
    using L2(1) j(1) by (intro exI [of _ "L1 @ L2"]) simp
  with a b [OF L1(1)] j(2) show ?thesis
    unfolding uart_after_def
    by (subst run_parts(1), subst run_parts(2), subst run_parts(3), subst run_parts(4)) (simp add: add.assoc)
qed

lemma uart_task_after:
  "uart_ok u L \<Longrightarrow> \<forall>k \<in> set ks. length (bytes_read k) < UART_BUFFER_SIZE \<Longrightarrow>
   \<exists>u'. uart_task ks u = Some u' \<and> uart_after ks u L u'"
proof (induction ks arbitrary: u L)
  case Nil
  then show ?case using held_waits [of "ua_server u"]
    by (auto simp: uart_after_def stream_of_def posts_of_def drops_of_def errors_of_def uart_ok_def intro!: exI [of _ "[]"])
next
  case (Cons k ks)
  then obtain u1 where u1: "uart_task_step k u = Some u1" "uart_after [k] u L u1"
    using uart_step_after [of u L k] by auto
  have ok: "\<exists>u2. uart_task ks u1 = Some u2 \<and> uart_after ks u1 L1 u2" if "uart_ok u1 L1" for L1
    using Cons.IH [OF that] Cons.prems(2) by simp
  obtain L1 where "uart_ok u1 (L @ L1)" using u1(2) by (auto simp: uart_after_def)
  from ok [OF this] obtain u2 where u2: "uart_task ks u1 = Some u2" by blast
  have "uart_after ks u1 L1 u2" if "uart_ok u1 L1" for L1 using ok [OF that] u2 by simp
  then have "uart_after (k # ks) u L u2" by (rule uart_after_trans [OF u1(2)])
  with u1(1) u2 show ?case by simp
qed

text \<open>C13: The bytes of the receiver reach the frame ring. Whatever way the driver cuts the stream into
  chunks of at most 4095 bytes, between read errors and timeouts, the task never writes outside its
  buffer, and the ring's log grows by exactly the CRC-valid frames of the held bytes followed by the whole
  stream, in order: a frame cut across reads is not lost, and neither a refused post nor a read error
  costs a frame. Every refused post and every read error is counted, the event bus gets the chunks it
  accepted unchanged and in order, and the statistics count every byte.\<close>

theorem uart_stream_reaches_ring:
  assumes "uart_ok u L" and "\<forall>k \<in> set ks. length (bytes_read k) < UART_BUFFER_SIZE"
  shows "\<exists>u' L'. uart_task ks u = Some u' \<and> uart_ok u' (L @ L') \<and>
    map fst L' = sc_frames (rtcm_scan (held (ua_server u) @ stream_of ks)) \<and>
    held (ua_server u') = sc_rest (rtcm_scan (held (ua_server u) @ stream_of ks)) \<and>
    ua_log u' = ua_log u @ posts_of ks \<and>
    s_event_post_drops u' = s_event_post_drops u + of_nat (drops_of ks) \<and>
    s_read_errors u' = s_read_errors u + of_nat (errors_of ks) \<and>
    st_total_in (ua_stats u') = st_total_in (ua_stats u) + of_nat (length (stream_of ks))"
  using uart_task_after [OF assms] unfolding uart_after_def by blast

text \<open>The static state of the ports before the start, with the receiver control and the server they feed.\<close>

definition uart_zero :: "gnss \<Rightarrow> server \<Rightarrow> uart" where
  "uart_zero g srv = \<lparr>uart_port = -1, uart_log_forward = False, s_event_post_drops = 0, s_read_errors = 0,
     ua_stats = hd (stream_stats_new 0 []), ua_buffer = replicate UART_BUFFER_SIZE 0, ua_params = None,
     gnss_mutex_send = False, usbc_mutex_send = False, usbc_read_cb = False, gnss_cmd_mode = False,
     gnss_uart_rx_que = dq_zero, ua_gnss = g, ua_server = srv, ua_log = []\<rparr>"

lemma uart_zero_ok: "uart_ok (uart_zero g (ntrip_server_ingest_init True (server_boot n))) []"
  by (simp add: uart_ok_def uart_zero_def ntrip_server_ingest_init_def server_boot_def parser_init_ok ring_init_holds)

definition demo_ticks :: "tick list" where
  "demo_ticks = [\<lparr>tk_read = Read_Bytes [0xD3, 0], tk_post_ok = False, tk_ms = 1, tk_us = 1\<rparr>,
     \<lparr>tk_read = Read_Error, tk_post_ok = True, tk_ms = 2, tk_us = 2\<rparr>,
     \<lparr>tk_read = Read_Bytes [1, 2], tk_post_ok = True, tk_ms = 3, tk_us = 3\<rparr>]"

definition demo_uart :: uart where
  "demo_uart = uart_zero demo_gnss (ntrip_server_ingest_init True (server_boot 0))"

theorem uart_stream_reaches_ring_witness:
  "\<exists>u' L'. uart_task demo_ticks demo_uart = Some u' \<and> uart_ok u' ([] @ L') \<and>
    map fst L' = sc_frames (rtcm_scan (held (ua_server demo_uart) @ stream_of demo_ticks)) \<and>
    held (ua_server u') = sc_rest (rtcm_scan (held (ua_server demo_uart) @ stream_of demo_ticks)) \<and>
    ua_log u' = ua_log demo_uart @ posts_of demo_ticks \<and>
    s_event_post_drops u' = s_event_post_drops demo_uart + of_nat (drops_of demo_ticks) \<and>
    s_read_errors u' = s_read_errors demo_uart + of_nat (errors_of demo_ticks) \<and>
    st_total_in (ua_stats u') = st_total_in (ua_stats demo_uart) + of_nat (length (stream_of demo_ticks))"
  by (rule uart_stream_reaches_ring) (simp_all add: demo_uart_def uart_zero_ok demo_ticks_def bytes_read_def)

section \<open>The console and the buffered queue\<close>

text \<open>Before the console port exists, nothing is written to it.\<close>

lemma usbc_send_early: "\<not> usbc_mutex_send u \<Longrightarrow> drv_uart_usbc_send w d u = (0, u)"
  by (simp add: drv_uart_usbc_send_def)

text \<open>A formatted text of more than 128 bytes makes \<open>drv_uart_usbc_printf\<close> write outside its buffer.\<close>

theorem usbc_printf_bound:
  assumes "length stack = 129"
  shows "drv_uart_usbc_printf stack formatted u = None \<longleftrightarrow> 128 < length formatted"
  using assms by (auto simp: drv_uart_usbc_printf_def mem_write_def mem_read_def Let_def)

text \<open>Chunks handed to the console callback have at most 100 bytes and keep the order of the bytes.\<close>

lemma event_task_data:
  assumes "drv_uart_event_task p = Some p'" "pt_queue p = UART_DATA n # q" "pt_cb p"
  shows "concat (pt_chunks p') @ pt_rx p' = concat (pt_chunks p) @ pt_rx p \<and> length (last (pt_chunks p')) = min n MAX_RX_SZ"
  using assms by (auto simp: drv_uart_event_task_def Let_def split: if_splits)

text \<open>The blocking read returns once bytes arrive, with the oldest of them.\<close>

lemma recv_empty_step:
  assumes "dq_rep (gnss_uart_rx_que u) []"
  shows "\<exists>q. data_que_packet_in bs 0 (gnss_uart_rx_que u) =
      Some (min (length bs) (dq_size (gnss_uart_rx_que u) - 1), q) \<and>
    dq_rep q (take (dq_size (gnss_uart_rx_que u) - 1) bs) \<and> dq_size q = dq_size (gnss_uart_rx_que u)"
  using packet_in_rep [OF assms, of bs 0] by simp

lemma recv_returns_aux:
  "dq_rep (gnss_uart_rx_que u) [] \<Longrightarrow> 1 < dq_size (gnss_uart_rx_que u) \<Longrightarrow> \<forall>j<n. arr (k + j) = [] \<Longrightarrow> arr (k + n) \<noteq> [] \<Longrightarrow>
   \<exists>u'. drv_uart_gnss_recv arr len k u =
     Some (take len (take (dq_size (gnss_uart_rx_que u) - 1) (arr (k + n))), u')"
proof (induction n arbitrary: k u)
  case 0
  obtain q where q: "data_que_packet_in (arr k) 0 (gnss_uart_rx_que u) =
      Some (min (length (arr k)) (dq_size (gnss_uart_rx_que u) - 1), q)"
    "dq_rep q (take (dq_size (gnss_uart_rx_que u) - 1) (arr k))" "dq_size q = dq_size (gnss_uart_rx_que u)"
    using recv_empty_step [OF "0.prems"(1)] by blast
  have "data_que_size q \<noteq> 0" using data_que_size_rep [OF q(2)] "0.prems"(2,4) by (simp add: min_def)
  moreover obtain q' where "data_que_packet_out len [] q = Some (take len (take (dq_size (gnss_uart_rx_que u) - 1) (arr k)), q')"
    using dq.get_law [OF q(2), of len] by blast
  ultimately have "drv_uart_gnss_recv arr len (k + 1) (u\<lparr>gnss_uart_rx_que := q\<rparr>) =
      Some (take len (take (dq_size (gnss_uart_rx_que u) - 1) (arr k)), u\<lparr>gnss_uart_rx_que := q'\<rparr>)"
    by (subst drv_uart_gnss_recv.simps) (simp add: drv_uart_gnss_recv_with_timeout_def)
  then show ?case using q(1) data_que_size_rep [OF "0.prems"(1)]
    by (subst drv_uart_gnss_recv.simps) (simp add: drv_uart_gnss_buffer_data_def)
next
  case (Suc n)
  have e: "arr k = []" using Suc.prems(3) by (metis add.right_neutral zero_less_Suc)
  have "drv_uart_gnss_recv arr len k u = drv_uart_gnss_recv arr len (k + 1) u"
    using data_que_size_rep [OF Suc.prems(1)] e
    by (subst drv_uart_gnss_recv.simps) (simp add: drv_uart_gnss_buffer_data_def)
  moreover have "\<forall>j<n. arr (k + 1 + j) = []"
  proof (intro allI impI)
    fix j assume "j < n"
    then have "Suc j < Suc n" by simp
    then have "arr (k + Suc j) = []" using Suc.prems(3) by blast
    then show "arr (k + 1 + j) = []" by simp
  qed
  ultimately show ?case using Suc.IH [OF Suc.prems(1,2), of "k + 1"] Suc.prems(4) by simp
qed

text \<open>The blocking read of the buffered queue returns as soon as the driver has buffered something: it gives
  the oldest of the bytes that arrived first, at most the number asked for.\<close>

theorem gnss_recv_returns:
  assumes "dq_rep (gnss_uart_rx_que u) []" and "1 < dq_size (gnss_uart_rx_que u)" and "arr n \<noteq> []"
  shows "\<exists>m u'. m \<le> n \<and> arr m \<noteq> [] \<and> drv_uart_gnss_recv arr len 0 u =
     Some (take len (take (dq_size (gnss_uart_rx_que u) - 1) (arr m)), u')"
proof -
  define m where "m = (LEAST m. arr m \<noteq> [])"
  have "arr m \<noteq> []" "m \<le> n" unfolding m_def using assms(3) by (rule LeastI, rule Least_le)
  moreover have "\<forall>j<m. arr (0 + j) = []" unfolding m_def using not_less_Least by fastforce
  ultimately show ?thesis using recv_returns_aux [OF assms(1,2), of m arr 0 len] by auto
qed

end
