(* ===== verification/Text_Format.thy ===== *)
theory Text_Format
  imports Prelude "HOL-Library.Char_ord"
begin

text \<open>
  Decimal numbers in text: what the \<open>%u\<close> and \<open>%d\<close> conversions of the C library print, and what
  its \<open>%d\<close> reads. Shared by the components that build keys, JSON or compare versions.
\<close>

section \<open>Printing\<close>

definition digit_char :: "nat \<Rightarrow> char" where
  "digit_char d = char_of (48 + d)"

fun dec :: "nat \<Rightarrow> string" where
  "dec n = (if n < 10 then [digit_char n] else dec (n div 10) @ [digit_char (n mod 10)])"

declare dec.simps [simp del]

definition dec_int :: "int \<Rightarrow> string" where
  "dec_int i = (if i < 0 then CHR ''-'' # dec (nat (- i)) else dec (nat i))"

section \<open>Reading\<close>

definition is_digit :: "char \<Rightarrow> bool" where
  "is_digit c \<longleftrightarrow> CHR ''0'' \<le> c \<and> c \<le> CHR ''9''"

definition digits_val :: "string \<Rightarrow> int" where
  "digits_val ds = foldl (\<lambda>n c. 10 * n + (of_char c - 48)) 0 ds"

lemma of_char_digit: "d < 10 \<Longrightarrow> (of_char (digit_char d) :: nat) = 48 + d"
  by (simp add: digit_char_def)

lemma of_char_digit_int: "d < 10 \<Longrightarrow> (of_char (digit_char d) :: int) = 48 + int d"
  using of_char_digit [of d] by (metis of_nat_add of_nat_numeral of_nat_of_char)

lemma is_digit_char [simp]: "d < 10 \<Longrightarrow> is_digit (digit_char d)"
  by (simp add: is_digit_def less_eq_char_def of_char_digit)

lemma dec_digits: "list_all is_digit (dec n)"
  by (induction n rule: dec.induct) (subst dec.simps, simp)

lemma dec_nonempty [simp]: "dec n \<noteq> []"
  by (subst dec.simps) simp

lemma digits_val_dec [simp]: "digits_val (dec n) = int n"
proof (induction n rule: dec.induct)
  case (1 n)
  show ?case
  proof (cases "n < 10")
    case True
    then show ?thesis by (simp add: dec.simps [of n] digits_val_def of_char_digit_int)
  next
    case False
    then have "digits_val (dec n) = 10 * int (n div 10) + int (n mod 10)"
      using "1.IH" by (simp add: dec.simps [of n] digits_val_def of_char_digit_int)
    also have "\<dots> = int n" by (metis mult.commute of_nat_add of_nat_mult of_nat_numeral div_mult_mod_eq)
    finally show ?thesis .
  qed
qed

text \<open>Printing is injective: it is read back.\<close>

lemma dec_inj: "dec m = dec n \<longleftrightarrow> m = n"
  using digits_val_dec by (metis of_nat_eq_iff)

lemma takeWhile_dec: "s = [] \<or> \<not> is_digit (hd s) \<Longrightarrow> takeWhile is_digit (dec n @ s) = dec n"
  using dec_digits [of n] by (cases s) (auto simp: list_all_iff takeWhile_append)

section \<open>Bounded printing\<close>

text \<open>
  \<open>snprintf\<close> returns the length of the whole text and stores as much of it as fits with its
  terminator; \<open>strlcpy\<close> stores the same. A buffer of text is its content up to the terminator.
\<close>

definition snprintf_n :: "string \<Rightarrow> nat" where
  "snprintf_n text = length text"

definition snprintf_buf :: "nat \<Rightarrow> string \<Rightarrow> string" where
  "snprintf_buf cap text = take (cap - 1) text"

lemma snprintf_fits [simp]: "length text < cap \<Longrightarrow> snprintf_buf cap text = text"
  by (simp add: snprintf_buf_def)

lemma snprintf_buf_less: "0 < cap \<Longrightarrow> length (snprintf_buf cap text) < cap"
  by (auto simp: snprintf_buf_def)

text \<open>The number of digits.\<close>

lemma dec_length: "n < 10 ^ k \<Longrightarrow> 0 < k \<Longrightarrow> length (dec n) \<le> k"
proof (induction k arbitrary: n)
  case (Suc k)
  show ?case
  proof (cases "n < 10")
    case True
    then show ?thesis by (simp add: dec.simps [of n])
  next
    case False
    have "n div 10 < 10 ^ k" using Suc.prems(1) by (simp add: div_less_iff_less_mult mult.commute)
    moreover have "0 < k" using False Suc.prems(1) by (cases k) auto
    ultimately show ?thesis using Suc.IH [of "n div 10"] False by (simp add: dec.simps [of n])
  qed
qed simp

lemma dec_length_u64: "length (dec (unat (w :: u64))) \<le> 20"
  by (rule dec_length) (use unsigned_less [of w, where ?'a = nat] in simp_all)

lemma dec_length_u32: "length (dec (unat (w :: u32))) \<le> 10"
  by (rule dec_length) (use unsigned_less [of w, where ?'a = nat] in simp_all)

lemma dec_unat_inj [simp]: "dec (unat (v :: 'a :: len word)) = dec (unat w) \<longleftrightarrow> v = w"
  by (simp add: dec_inj unsigned_word_eqI [of v w] word_unat_eq_iff)

lemma digit_not [simp]: "\<not> is_digit CHR '',''" "\<not> is_digit CHR ''}''" "\<not> is_digit CHR ''.''" "\<not> is_digit CHR ''\"''"
  by (simp_all add: is_digit_def less_eq_char_def)

lemma dec_no: "\<not> is_digit c \<Longrightarrow> c \<notin> set (dec n)"
  using dec_digits [of n] by (auto simp: list_all_iff)

text \<open>Text between separators determines its parts.\<close>

lemma append_sep_eq:
  assumes "c \<notin> set a" "c \<notin> set b" shows "a @ c # s = b @ c # t \<longleftrightarrow> a = b \<and> s = t"
proof
  assume e: "a @ c # s = b @ c # t"
  have "takeWhile (\<lambda>x. x \<noteq> c) (a @ c # s) = a" "takeWhile (\<lambda>x. x \<noteq> c) (b @ c # t) = b"
    using assms by (auto simp: takeWhile_append)
  then have "a = b" using e by metis
  then show "a = b \<and> s = t" using e by simp
qed simp

end
