(* ===== verification/Ntrip_Task.thy ===== *)
theory Ntrip_Task
  imports Tx_Core Ntrip_Ingest Nmea_Util Config_Store Text_Format
begin

text \<open>
  The task of a caster connection (\<open>src/main/interface/ntrip_server.c\<close>): the start-up of an instance,
  one iteration of its loop (waiting, dialling, the handshake, the session that drains the frame ring,
  disconnecting), and the start of all instances. What the other tasks and the network do while an
  iteration runs is an argument: the resolver and the sockets, the answers of \<open>write\<close> and \<open>read\<close>, and
  for each wake-up of the session the time, the frames pushed to the ring before each poll, the
  reconnect generation and the probe of the socket. Log lines and NMEA notes are not modelled.
\<close>

section \<open>Keys and names\<close>

definition build_key :: "nat \<Rightarrow> string \<Rightarrow> string \<Rightarrow> string" where
  "build_key dstsz base sfx = snprintf_buf dstsz (base @ sfx)"

definition instance_suffix :: "nat \<Rightarrow> string" where
  "instance_suffix i = (if i > 0 then snprintf_buf 4 (''_'' @ dec i) else [])"

section \<open>Start-up of an instance\<close>

text \<open>\<open>None\<close>: the instance was aborted, that is deregistered and freed.\<close>

record init_env =
  n_ev :: bool
  n_sleep :: bool
  n_led :: bool
  n_stats :: bool
  n_retry_oom :: bool

definition ntrip_server_init_task_context ::
  "init_env \<Rightarrow> 's nvs \<Rightarrow> 's \<Rightarrow> handle \<Rightarrow> server \<Rightarrow> server" where
  "ntrip_server_init_task_context n nvs st h s =
     (case g_heap s h of None \<Rightarrow> s
      | Some inst \<Rightarrow>
          if \<not> n_ev n then ntrip_server_abort_task_init h s
          else let inst = inst\<lparr>i_ev := Some \<lparr>caster_ready = False, data_ready = False, data_sent = False\<rparr>\<rparr> in
          if \<not> n_sleep n then ntrip_server_abort_task_init h (s\<lparr>g_heap := (g_heap s)(h := Some inst)\<rparr>)
          else let color = config_get_color nvs (CONF_ITEM (build_key 64 ''ntr_srv_color'' (i_suffix inst))) st;
                   inst = inst\<lparr>i_task_sleep := True,
                     i_led_active := (if color \<noteq> 0 \<and> n_led n then Some False else None),
                     i_stats := n_stats n, i_retry := retry_init (n_retry_oom n) True 5 2000 0\<rparr>
               in s\<lparr>g_heap := (g_heap s)(h := Some inst)\<rparr>)"

section \<open>Waiting and configuration\<close>

text \<open>
  The delay, and the instance after it; \<open>None\<close> while no UART data arrives. A wait that ends clears
  the flag it waited for.
\<close>

definition ntrip_server_wait_for_start :: "bool \<Rightarrow> ntrip_instance \<Rightarrow> int \<times> ntrip_instance option" where
  "ntrip_server_wait_for_start data inst =
     (let (d, inst) = (case i_retry inst of None \<Rightarrow> (2000, inst)
                       | Some r \<Rightarrow> let (_, d, r) = retry_delay (Some r) in (d, inst\<lparr>i_retry := r\<rparr>))
      in (d, map_option (\<lambda>inst. if i_task_sleep inst then inst\<lparr>i_sleep_running := True\<rparr> else inst)
            (case i_ev inst of None \<Rightarrow> Some inst
             | Some ev \<Rightarrow> if data_ready ev then Some inst
                           else if data then Some (inst\<lparr>i_ev := Some (ev\<lparr>data_ready := False\<rparr>)\<rparr>) else None)))"

record caster_cfg =
  cc_host :: "string option"
  cc_port :: u16
  cc_pwd :: "string option"
  cc_mp :: "string option"

definition cfg_str :: "(string \<Rightarrow> bool) \<Rightarrow> 's nvs \<Rightarrow> 's \<Rightarrow> string \<Rightarrow> string option" where
  "cfg_str oom nvs st key =
     (case snd (config_get_str_blob_alloc (oom key) nvs (CONF_ITEM key) st) of Some (NStr v) \<Rightarrow> Some v | _ \<Rightarrow> None)"

definition ntrip_server_load_config_from_storage ::
  "(string \<Rightarrow> bool) \<Rightarrow> 's nvs \<Rightarrow> 's \<Rightarrow> ntrip_instance \<Rightarrow> caster_cfg" where
  "ntrip_server_load_config_from_storage oom nvs st inst =
     \<lparr>cc_host = cfg_str oom nvs st (build_key 64 ''ntr_srv_host'' (i_suffix inst)),
      cc_port = ucast (snd (config_get_primitive nvs (CONF_ITEM (build_key 64 ''ntr_srv_port'' (i_suffix inst))) st)),
      cc_pwd = cfg_str oom nvs st (build_key 64 ''ntr_srv_pass'' (i_suffix inst)),
      cc_mp = cfg_str oom nvs st (build_key 64 ''ntr_srv_mp'' (i_suffix inst))\<rparr>"

section \<open>The handshake\<close>

abbreviation BUFFER_SIZE :: nat where "BUFFER_SIZE \<equiv> 512"

record dial =
  d_gai :: int
  d_addrs :: "addr_result list"
  d_opts :: "int list"
  d_nomem :: bool
  d_version :: string
  d_write :: "nat \<Rightarrow> nat \<Rightarrow> int"
  d_reply :: "string option"
  d_oom :: bool
  d_nonblock :: bool

definition source_request :: "string \<Rightarrow> caster_cfg \<Rightarrow> string" where
  "source_request version c =
     (let opt = (\<lambda>x. case x of Some v \<Rightarrow> v | None \<Rightarrow> []) in
      ''SOURCE '' @ opt (cc_pwd c) @ '' /'' @ opt (cc_mp c) @ CRLF @
      ''Source-Agent: NTRIP RTKdata_Server/'' @ version @ CRLF @ CRLF)"

text \<open>The write loop, from an offset; a closed descriptor refuses every write.\<close>

function write_loop :: "(nat \<Rightarrow> nat \<Rightarrow> int) \<Rightarrow> nat \<Rightarrow> nat \<Rightarrow> nat \<Rightarrow> nat" where
  "write_loop wr k off len =
     (if off < len
      then let werr = wr k (len - off) in if werr \<le> 0 then off else write_loop wr (k + 1) (off + nat werr) len
      else off)"
  by pat_completeness auto
termination by (relation "measure (\<lambda>(wr, k, off, len). len - off)") auto

declare write_loop.simps [simp del]

definition sock_write :: "dial \<Rightarrow> int \<Rightarrow> nat \<Rightarrow> nat \<Rightarrow> int" where
  "sock_write d sock k n = (if sock < 0 then -1 else d_write d k n)"

datatype hs_result = HS_RESOLVE | HS_CONNECT | HS_NOMEM | HS_SEND | HS_RECV | HS_STATUS | HS_NONBLOCK | HS_OK

text \<open>The socket, what was opened and closed, and the outcome.\<close>

definition ntrip_handshake :: "dial \<Rightarrow> caster_cfg \<Rightarrow> (int \<times> int list \<times> int list) \<times> hs_result" where
  "ntrip_handshake d c =
     (let (sock, opened, closed) = connect_socket (d_gai d) (d_addrs d) (d_opts d);
          r = (sock, opened, closed)
      in (r,
        if sock = CONNECT_SOCKET_ERROR_RESOLVE then HS_RESOLVE
        else if sock = CONNECT_SOCKET_ERROR_CONNECT then HS_CONNECT
        else if d_nomem d then HS_NOMEM
        else let req = snprintf_buf BUFFER_SIZE (source_request (d_version d) c);
                 off = write_loop (sock_write d sock) 0 0 (length req)
             in if off \<noteq> length req then HS_SEND
                else case d_reply d of
                       None \<Rightarrow> HS_RECV
                     | Some rep \<Rightarrow>
                         if rep = [] then HS_RECV
                         else case extract_http_header (d_oom d) (takeWhile (\<lambda>c. c \<noteq> CHR 0x00) (take (BUFFER_SIZE - 1) rep)) [] of
                                None \<Rightarrow> HS_STATUS
                              | Some status \<Rightarrow>
                                  if \<not> ntrip_response_ok status then HS_STATUS
                                  else if \<not> d_nonblock d then HS_NONBLOCK else HS_OK))"

section \<open>The session\<close>

abbreviation NTRIP_DRAIN_MAX_SPINS :: nat where "NTRIP_DRAIN_MAX_SPINS \<equiv> 64"
abbreviation NTRIP_TX_MAX_SENDS_PER_POLL :: int where "NTRIP_TX_MAX_SENDS_PER_POLL \<equiv> 2"
abbreviation NTRIP_TX_STALE_DROP_MS :: u32 where "NTRIP_TX_STALE_DROP_MS \<equiv> 2000"
abbreviation NTRIP_TX_PROGRESS_TIMEOUT_MS :: u32 where "NTRIP_TX_PROGRESS_TIMEOUT_MS \<equiv> 5000"
abbreviation NTRIP_TX_FRAME_DEADLINE_MS :: u32 where "NTRIP_TX_FRAME_DEADLINE_MS \<equiv> 10000"
abbreviation NTRIP_PROBE_INTERVAL_MS :: u32 where "NTRIP_PROBE_INTERVAL_MS \<equiv> 2000"

text \<open>The send callback, with the positive results reported to the supervisor and the statistics.\<close>

definition ntrip_server_sock_send :: "'w send_fn \<Rightarrow> ('w \<times> int list) send_fn" where
  "ntrip_server_sock_send send wn buf =
     (let (n, err, w) = send (fst wn) buf in (n, err, w, if n > 0 then snd wn @ [n] else snd wn))"

text \<open>What \<open>recv\<close> returns, and the error number: the connection is still there.\<close>

definition ntrip_server_probe_socket :: "int \<Rightarrow> int \<Rightarrow> bool" where
  "ntrip_server_probe_socket r err =
     (if r = 0 then False else if r < 0 \<and> err \<noteq> EWOULDBLOCK \<and> err \<noteq> EAGAIN then False else True)"

record wake =
  wk_gen :: u32
  wk_now :: u32
  wk_pushed :: "nat \<Rightarrow> (u8 list \<times> u32) list"
  wk_later :: u32
  wk_recv :: "int \<times> int"

record 'w session =
  ss_tx :: ntrip_tx
  ss_ring :: ntrip_ring
  ss_retry :: "retry_delay_t option"
  ss_made :: bool
  ss_probe_ms :: u32
  ss_world :: "'w \<times> int list"

text \<open>What the UART task pushes to the ring, in order.\<close>

fun push_all :: "ntrip_ring \<Rightarrow> (u8 list \<times> u32) list \<Rightarrow> ntrip_ring option" where
  "push_all r [] = Some r"
| "push_all r ((f, t) # fs) = do { r \<leftarrow> ntrip_ring_push r f (length f) t; push_all r fs }"

definition drain_poll :: "'w send_fn \<Rightarrow> u32 \<Rightarrow> (u8 list \<times> u32) list \<Rightarrow> 'w session \<Rightarrow> (poll_result \<times> 'w session) option" where
  "drain_poll send now fs s = do {
     ring \<leftarrow> push_all (ss_ring s) fs;
     (pr, tx, w) \<leftarrow> ntrip_tx_poll (ss_tx s) ring now NTRIP_TX_MAX_SENDS_PER_POLL NTRIP_TX_STALE_DROP_MS
                      (ntrip_server_sock_send send) (ss_world s);
     let first = (t_accepted_to_lwip tx > t_accepted_to_lwip (ss_tx s) \<and> \<not> ss_made s);
     Some (pr, s\<lparr>ss_tx := tx, ss_ring := ring, ss_world := w, ss_made := (ss_made s \<or> first),
                 ss_retry := (if first then retry_reset (ss_retry s) else ss_retry s)\<rparr>)
   }"

primrec drain :: "nat \<Rightarrow> nat \<Rightarrow> 'w send_fn \<Rightarrow> wake \<Rightarrow> 'w session \<Rightarrow> (poll_result \<times> 'w session) option" where
  "drain 0 i send k s = Some (POLL_PROGRESS, s)"
| "drain (Suc n) i send k s = do {
     (pr, s) \<leftarrow> drain_poll send (wk_now k) (wk_pushed k i) s;
     if pr = POLL_PROGRESS \<and> n > 0 then drain n (i + 1) send k s else Some (pr, s)
   }"

datatype end_reason = END_RECONNECT | END_SEND_ERROR | END_STALLED | END_OVERDUE | END_PROBE

text \<open>One wake-up after the check of the generation: \<open>Some\<close> reason when the loop ends.\<close>

definition session_wake :: "'w send_fn \<Rightarrow> wake \<Rightarrow> 'w session \<Rightarrow> (end_reason option \<times> 'w session) option" where
  "session_wake send k s = do {
     (pr, s) \<leftarrow> drain NTRIP_DRAIN_MAX_SPINS 0 send k s;
     if pr = POLL_ERROR then Some (Some END_SEND_ERROR, s)
     else if ntrip_tx_stalled (ss_tx s) (wk_now k) NTRIP_TX_PROGRESS_TIMEOUT_MS then Some (Some END_STALLED, s)
     else if ntrip_tx_frame_overdue (ss_tx s) (wk_now k) NTRIP_TX_FRAME_DEADLINE_MS then Some (Some END_OVERDUE, s)
     else if wk_later k - ss_probe_ms s \<ge> NTRIP_PROBE_INTERVAL_MS
     then Some (if ntrip_server_probe_socket (fst (wk_recv k)) (snd (wk_recv k)) then None else Some END_PROBE,
                s\<lparr>ss_probe_ms := wk_later k\<rparr>)
     else Some (None, s)
   }"

fun ntrip_session :: "'w send_fn \<Rightarrow> u32 \<Rightarrow> wake list \<Rightarrow> 'w session \<Rightarrow> (end_reason option \<times> 'w session) option" where
  "ntrip_session send conn_gen [] s = Some (None, s)"
| "ntrip_session send conn_gen (k # ks) s =
     (if wk_gen k \<noteq> conn_gen then Some (Some END_RECONNECT, s)
      else do {
        (e, s) \<leftarrow> session_wake send k s;
        case e of Some r \<Rightarrow> Some (Some r, s) | None \<Rightarrow> ntrip_session send conn_gen ks s
      })"

section \<open>An iteration of the task\<close>

definition ntrip_server_handle_disconnect :: "ntrip_instance \<Rightarrow> ntrip_instance" where
  "ntrip_server_handle_disconnect inst =
     inst\<lparr>i_ev := map_option (\<lambda>ev. ev\<lparr>caster_ready := False, data_sent := False\<rparr>) (i_ev inst),
          i_led_active := map_option (\<lambda>_. False) (i_led_active inst)\<rparr>"

definition ntrip_server_cleanup_iteration :: "ntrip_instance \<Rightarrow> ntrip_instance \<times> int list" where
  "ntrip_server_cleanup_iteration inst = 
     (let inst = (if i_task_sleep inst then inst\<lparr>i_sleep_running := False\<rparr> else inst);
          (sock, closed) = destroy_socket (i_sock inst)
      in (inst\<lparr>i_sock := sock\<rparr>, closed))"

datatype phase = PH_WAITING | PH_FAILED hs_result | PH_RUNNING | PH_ENDED end_reason

record 'w iter_env =
  v_send :: "'w send_fn"
  v_data :: bool
  v_cfg :: caster_cfg
  v_gen :: u32
  v_dial :: dial
  v_reset_ms :: u32
  v_probe_ms :: u32
  v_wakes :: "wake list"

record 'w iter =
  it_phase :: phase
  it_inst :: ntrip_instance
  it_ring :: ntrip_ring
  it_world :: "'w \<times> int list"
  it_opened :: "int list"
  it_closed :: "int list"
  it_delay :: int

definition connected :: "u32 \<Rightarrow> ntrip_ring \<Rightarrow> ntrip_instance \<Rightarrow> ntrip_instance" where
  "connected now ring inst =
     inst\<lparr>i_tx := ntrip_tx_reset_conn (i_tx inst) ring now, i_notified := 0,
          i_ev := map_option (\<lambda>ev. ev\<lparr>caster_ready := True\<rparr>) (i_ev inst),
          i_led_active := map_option (\<lambda>_. True) (i_led_active inst)\<rparr>"

definition after_session :: "ntrip_tx \<Rightarrow> retry_delay_t option \<Rightarrow> ntrip_instance \<Rightarrow> ntrip_instance" where
  "after_session tx retry inst =
     inst\<lparr>i_tx := (ntrip_tx_abort tx)\<lparr>t_reconnects := t_reconnects tx + 1\<rparr>, i_retry := retry\<rparr>"

definition ntrip_server_iteration ::
  "'w iter_env \<Rightarrow> ntrip_ring \<Rightarrow> 'w \<times> int list \<Rightarrow> ntrip_instance \<Rightarrow> 'w iter option" where
  "ntrip_server_iteration v ring w inst =
     (let (delay, started) = ntrip_server_wait_for_start (v_data v) inst in
      case started of
        None \<Rightarrow> Some \<lparr>it_phase = PH_WAITING, it_inst = inst\<lparr>i_retry := snd (snd (retry_delay (i_retry inst)))\<rparr>, it_ring = ring,
                       it_world = w, it_opened = [], it_closed = [], it_delay = delay\<rparr>
      | Some inst \<Rightarrow>
          let ((sock, opened, closed), hs) = ntrip_handshake (v_dial v) (v_cfg v);
              inst = inst\<lparr>i_sock := sock\<rparr>
          in if hs \<noteq> HS_OK
             then let (inst, cl) = ntrip_server_cleanup_iteration inst
                  in Some \<lparr>it_phase = PH_FAILED hs, it_inst = inst, it_ring = ring, it_world = w, it_opened = opened,
                           it_closed = closed @ cl, it_delay = delay\<rparr>
             else let inst = connected (v_reset_ms v) ring inst
                  in do {
                    (e, s) \<leftarrow> ntrip_session (v_send v) (v_gen v) (v_wakes v)
                      \<lparr>ss_tx = i_tx inst, ss_ring = ring, ss_retry = i_retry inst, ss_made = False,
                       ss_probe_ms = v_probe_ms v, ss_world = w\<rparr>;
                    case e of
                      None \<Rightarrow> Some \<lparr>it_phase = PH_RUNNING, it_inst = inst\<lparr>i_tx := ss_tx s, i_retry := ss_retry s\<rparr>,
                                     it_ring = ss_ring s, it_world = ss_world s, it_opened = opened, it_closed = closed,
                                     it_delay = delay\<rparr>
                    | Some r \<Rightarrow>
                        let inst = ntrip_server_handle_disconnect (after_session (ss_tx s) (ss_retry s) inst);
                            (inst, cl) = ntrip_server_cleanup_iteration inst
                        in Some \<lparr>it_phase = PH_ENDED r, it_inst = inst, it_ring = ss_ring s, it_world = ss_world s,
                                 it_opened = opened, it_closed = closed @ cl, it_delay = delay\<rparr>
                  })"

section \<open>Start of all instances\<close>

text \<open>\<open>n_alloc\<close> gives the handle of a new instance, if there is memory; \<open>n_task\<close> whether its task starts.\<close>

record start_env =
  n_alloc :: "nat \<Rightarrow> handle option"
  n_task :: "nat \<Rightarrow> bool"

definition new_instance :: "nat \<Rightarrow> ntrip_instance" where
  "new_instance i = \<lparr>i_suffix = instance_suffix i, i_index = int i, i_ev = None, i_task_server = False, i_notified = 0,
     i_task_sleep = False, i_sleep_running = False, i_led_active = None, i_stats = False, i_retry = None, i_sock = -1, i_data_keep_alive = 0,
     i_tx = ntrip_tx_init, i_reconnect_gen = 0\<rparr>"

definition start_instance :: "start_env \<Rightarrow> 's nvs \<Rightarrow> 's \<Rightarrow> nat \<Rightarrow> server \<Rightarrow> server" where
  "start_instance n nvs st i s =
     (if \<not> config_get_bool1 nvs (CONF_ITEM (build_key 64 ''ntr_srv_actv'' (instance_suffix i))) st then s
      else case n_alloc n i of None \<Rightarrow> s
           | Some h \<Rightarrow>
               let (registered, s) = register_instance h (s\<lparr>g_heap := (g_heap s)(h := Some (new_instance i))\<rparr>)
               in if \<not> registered then s\<lparr>g_heap := (g_heap s)(h := None)\<rparr>
                  else if n_task n i then s\<lparr>g_heap := (g_heap s)(h := Some ((new_instance i)\<lparr>i_task_server := True\<rparr>))\<rparr>
                  else let s = ntrip_server_deregister_instance h s in s\<lparr>g_heap := (g_heap s)(h := None)\<rparr>)"

definition ntrip_server_init :: "bool \<Rightarrow> bool \<Rightarrow> start_env \<Rightarrow> 's nvs \<Rightarrow> 's \<Rightarrow> server \<Rightarrow> server" where
  "ntrip_server_init mutex ring_mutex n nvs st s =
     (if \<not> g_instances_mutex s \<and> \<not> mutex then s
      else let s = ntrip_server_ingest_init ring_mutex (s\<lparr>g_instances_mutex := True\<rparr>)
           in if \<not> g_ring_mutex s then s
              else fold (start_instance n nvs st) [0..<MAX_NTRIP_SERVERS] s)"

section \<open>The session as steps of the sender machine\<close>

abbreviation task_step where
  "task_step send wire \<equiv> tx_step (ntrip_server_sock_send send) (\<lambda>wn. wire (fst wn))"

lemma sock_send_stream: "stream_socket send wire \<Longrightarrow> stream_socket (ntrip_server_sock_send send) (\<lambda>wn. wire (fst wn))"
  unfolding stream_socket_def ntrip_server_sock_send_def
  by (auto split: prod.splits)

definition agrees :: "('w \<times> int list) tx_state \<Rightarrow> 'w session \<Rightarrow> bool" where
  "agrees s ss \<longleftrightarrow> x_tx s = ss_tx ss \<and> x_ring s = ss_ring ss \<and> x_world s = ss_world ss"

text \<open>A session state reached by the machine from a connection, with the log it has seen.\<close>

definition session_reached ::
  "'w send_fn \<Rightarrow> ('w \<Rightarrow> u8 list) \<Rightarrow> nat \<Rightarrow> frame_log \<Rightarrow> bool \<Rightarrow> 'w session \<Rightarrow> bool" where
  "session_reached send wire start L open' ss \<longleftrightarrow>
     (\<exists>s. reach tx_start (task_step send wire) s \<and> agrees s ss \<and> x_log s = L \<and> x_start s = start \<and> (open' \<longrightarrow> x_open s))"

lemma push_all_reached:
  assumes "stream_socket send wire" "reach tx_start (task_step send wire) s" "list_all (\<lambda>(f, t). frame_len_ok f) fs"
    "length (x_log s) + length fs < 2 ^ 32"
  shows "\<exists>r. push_all (x_ring s) fs = Some r \<and>
    reach tx_start (task_step send wire) (s\<lparr>x_log := x_log s @ fs, x_ring := r\<rparr>)"
  using assms(2-4)
proof (induction fs arbitrary: s)
  case (Cons ft fs)
  obtain f t where ft: "ft = (f, t)" by (cases ft)
  have f: "frame_len_ok f" using Cons.prems(2) ft by simp
  have "ring_holds (x_ring s) (x_log s)"
    using tx_reach_inv [OF sock_send_stream [OF assms(1)] Cons.prems(1)] Cons.prems(3) by auto
  then obtain r where r: "ntrip_ring_push (x_ring s) f (length f) t = Some r" using ring_push_holds [OF _ f] by metis
  let ?s = "s\<lparr>x_log := x_log s @ [(f, t)], x_ring := r\<rparr>"
  have "reach tx_start (task_step send wire) ?s" by (rule reach.move [OF Cons.prems(1) tx_step.push [OF f r]])
  from Cons.IH [OF this] Cons.prems(2,3) ft r show ?case by auto
qed simp

lemma drain_poll_reached:
  assumes "stream_socket send wire" "session_reached send wire start L True ss" "list_all (\<lambda>(f, t). frame_len_ok f) fs"
    "length L + length fs < 2 ^ 32"
  shows "\<exists>pr ss'. drain_poll send now fs ss = Some (pr, ss') \<and> session_reached send wire start (L @ fs) (pr \<noteq> POLL_ERROR) ss'"
proof -
  obtain s where s: "reach tx_start (task_step send wire) s" "agrees s ss" "x_log s = L" "x_start s = start" "x_open s"
    using assms(2) by (auto simp: session_reached_def)
  obtain r where r: "push_all (x_ring s) fs = Some r"
    "reach tx_start (task_step send wire) (s\<lparr>x_log := x_log s @ fs, x_ring := r\<rparr>)" (is "reach _ _ ?t")
    using push_all_reached [OF assms(1) s(1) assms(3)] assms(4) s(3) by blast
  obtain k where k: "ring_holds r (L @ fs)" "sender_ok (L @ fs) (x_tx s) k"
    using tx_reach_inv [OF sock_send_stream [OF assms(1)] r(2)] assms(4) s(3) by auto
  obtain res tx w where p: "ntrip_tx_poll (x_tx s) r now NTRIP_TX_MAX_SENDS_PER_POLL NTRIP_TX_STALE_DROP_MS
      (ntrip_server_sock_send send) (x_world s) = Some (res, tx, w)"
    using ntrip_tx_poll_ok [OF k(1) _ sock_send_stream [OF assms(1)] k(2)] assms(4) by (metis length_append)
  have "reach tx_start (task_step send wire) (?t\<lparr>x_tx := tx, x_world := w, x_open := (res \<noteq> POLL_ERROR)\<rparr>)"
    by (rule reach.move [OF r(2) tx_step.poll]) (use s(5) p in simp_all)
  then show ?thesis using s(2-4) r(1) p
    by (auto simp: drain_poll_def agrees_def session_reached_def Let_def
        intro!: exI [of _ "?t\<lparr>x_tx := tx, x_world := w, x_open := (res \<noteq> POLL_ERROR)\<rparr>"])
qed

definition frames_ok :: "wake list \<Rightarrow> bool" where
  "frames_ok ks \<longleftrightarrow> (\<forall>k \<in> set ks. \<forall>i. list_all (\<lambda>(f, t). frame_len_ok f) (wk_pushed k i))"

definition wake_frames :: "nat \<Rightarrow> nat \<Rightarrow> wake \<Rightarrow> nat" where
  "wake_frames n i k = sum_list (map (\<lambda>j. length (wk_pushed k j)) [i..<i + n])"

lemma wake_frames_Suc: "wake_frames (Suc n) i k = length (wk_pushed k i) + wake_frames n (Suc i) k"
  by (simp add: wake_frames_def upt_conv_Cons del: upt_Suc)

lemma drain_reached:
  assumes "stream_socket send wire" "\<forall>i. list_all (\<lambda>(f, t). frame_len_ok f) (wk_pushed k i)"
  shows "session_reached send wire start L True ss \<Longrightarrow> length L + wake_frames n i k < 2 ^ 32 \<Longrightarrow>
    \<exists>pr ss' M. drain n i send k ss = Some (pr, ss') \<and> length M \<le> wake_frames n i k \<and>
      session_reached send wire start (L @ M) (pr \<noteq> POLL_ERROR) ss'"
proof (induction n arbitrary: i L ss)
  case 0
  then show ?case by (auto intro!: exI [of _ "[]"])
next
  case (Suc n)
  obtain pr ss1 where p: "drain_poll send (wk_now k) (wk_pushed k i) ss = Some (pr, ss1)"
    "session_reached send wire start (L @ wk_pushed k i) (pr \<noteq> POLL_ERROR) ss1"
    using drain_poll_reached [OF assms(1) Suc.prems(1), of "wk_pushed k i" "wk_now k"] assms(2) Suc.prems(2)
    by (auto simp: wake_frames_Suc)
  show ?case
  proof (cases "pr = POLL_PROGRESS \<and> n > 0")
    case True
    then have "\<exists>pr ss' M. drain n (i + 1) send k ss1 = Some (pr, ss') \<and> length M \<le> wake_frames n (i + 1) k \<and>
      session_reached send wire start ((L @ wk_pushed k i) @ M) (pr \<noteq> POLL_ERROR) ss'"
      using p(2) Suc.prems(2) by (intro Suc.IH) (simp_all add: wake_frames_Suc)
    then obtain pr' ss' M where "drain n (i + 1) send k ss1 = Some (pr', ss')" "length M \<le> wake_frames n (i + 1) k"
      "session_reached send wire start (L @ wk_pushed k i @ M) (pr' \<noteq> POLL_ERROR) ss'" by auto
    then show ?thesis using True p(1) by (intro exI [of _ pr'] exI [of _ ss'] exI [of _ "wk_pushed k i @ M"]) (simp add: wake_frames_Suc)
  next
    case False
    then show ?thesis using p by (intro exI [of _ pr] exI [of _ ss1] exI [of _ "wk_pushed k i"]) (simp add: wake_frames_Suc)
  qed
qed

lemma session_reached_probe [simp]: "session_reached send wire start L b (ss\<lparr>ss_probe_ms := t\<rparr>) = session_reached send wire start L b ss"
  by (simp add: session_reached_def agrees_def)

definition session_frames :: "wake list \<Rightarrow> nat" where
  "session_frames ks = sum_list (map (wake_frames NTRIP_DRAIN_MAX_SPINS 0) ks)"

lemma session_wake_reached:
  assumes "stream_socket send wire" "\<forall>i. list_all (\<lambda>(f, t). frame_len_ok f) (wk_pushed k i)"
    "session_reached send wire start L True ss" "length L + wake_frames NTRIP_DRAIN_MAX_SPINS 0 k < 2 ^ 32"
  shows "\<exists>e ss' M. session_wake send k ss = Some (e, ss') \<and> length M \<le> wake_frames NTRIP_DRAIN_MAX_SPINS 0 k \<and>
    session_reached send wire start (L @ M) (e \<noteq> Some END_SEND_ERROR) ss'"
proof -
  obtain pr ss' M where "drain NTRIP_DRAIN_MAX_SPINS 0 send k ss = Some (pr, ss')"
    "length M \<le> wake_frames NTRIP_DRAIN_MAX_SPINS 0 k" "session_reached send wire start (L @ M) (pr \<noteq> POLL_ERROR) ss'"
    using drain_reached [OF assms] by blast
  then show ?thesis
    by (auto simp: session_wake_def simp del: drain.simps intro!: exI [of _ M])
qed

lemma session_all_reached:
  assumes "stream_socket send wire"
  shows "frames_ok ks \<Longrightarrow> session_reached send wire start L True ss \<Longrightarrow> length L + session_frames ks < 2 ^ 32 \<Longrightarrow>
    \<exists>e ss' M. ntrip_session send gen ks ss = Some (e, ss') \<and> length M \<le> session_frames ks \<and>
      session_reached send wire start (L @ M) (e \<noteq> Some END_SEND_ERROR) ss'"
proof (induction ks arbitrary: L ss)
  case Nil
  then show ?case by (auto intro!: exI [of _ "[]"])
next
  case (Cons k ks)
  show ?case
  proof (cases "wk_gen k = gen")
    case False
    then show ?thesis using Cons.prems by (auto intro!: exI [of _ "[]"])
  next
    case True
    have b: "length L + wake_frames NTRIP_DRAIN_MAX_SPINS 0 k < 2 ^ 32" using Cons.prems(3) by (simp add: session_frames_def)
    obtain e ss1 M where w: "session_wake send k ss = Some (e, ss1)" "length M \<le> wake_frames NTRIP_DRAIN_MAX_SPINS 0 k"
      "session_reached send wire start (L @ M) (e \<noteq> Some END_SEND_ERROR) ss1"
      using session_wake_reached [OF assms _ Cons.prems(2) b] Cons.prems(1) by (auto simp: frames_ok_def)
    show ?thesis
    proof (cases e)
      case (Some r)
      then show ?thesis using True w by (intro exI [of _ e] exI [of _ ss1] exI [of _ M]) (simp add: session_frames_def)
    next
      case None
      then have "\<exists>e ss' N. ntrip_session send gen ks ss1 = Some (e, ss') \<and> length N \<le> session_frames ks \<and>
        session_reached send wire start ((L @ M) @ N) (e \<noteq> Some END_SEND_ERROR) ss'"
        using w Cons.prems by (intro Cons.IH) (auto simp: frames_ok_def session_frames_def)
      then obtain e' ss' N where "ntrip_session send gen ks ss1 = Some (e', ss')" "length N \<le> session_frames ks"
        "session_reached send wire start (L @ M @ N) (e' \<noteq> Some END_SEND_ERROR) ss'" by auto
      then show ?thesis using True None w
        by (intro exI [of _ e'] exI [of _ ss'] exI [of _ "M @ N"]) (simp add: session_frames_def)
    qed
  qed
qed

section \<open>What is reported, and when the back-off resets\<close>

lemma copy_loop_accepted:
  "tx_copy_loop tx r now stale = Some (b, tx') \<Longrightarrow> t_accepted_to_lwip tx' = t_accepted_to_lwip tx"
proof (induction tx r now stale rule: tx_copy_loop.induct)
  case (1 tx r now stale)
  show ?case using "1.prems" "1.IH"
    by (subst (asm) tx_copy_loop.simps) (auto simp: Let_def split: if_splits bind_splits)
qed

lemma copy_next_accepted:
  "tx_copy_next tx r now stale = Some (b, tx') \<Longrightarrow> t_accepted_to_lwip tx' = t_accepted_to_lwip tx"
  by (auto simp: tx_copy_next_def tx_catch_up_def Let_def dest!: copy_loop_accepted split: if_splits bind_splits)

text \<open>New notes are positive; they count what the stack accepted and what went on the wire.\<close>

definition noted :: "('w \<Rightarrow> u8 list) \<Rightarrow> 'w \<times> int list \<Rightarrow> 'w \<times> int list \<Rightarrow> int list \<Rightarrow> bool" where
  "noted wire w w' new \<longleftrightarrow> snd w' = snd w @ new \<and> list_all (\<lambda>n. 0 < n) new \<and>
     int (length (wire (fst w'))) = int (length (wire (fst w))) + sum_list new"

lemma noted_refl [simp]: "noted wire w w []"
  by (simp add: noted_def)

lemma noted_trans: "noted wire w w' a \<Longrightarrow> noted wire w' w'' b \<Longrightarrow> noted wire w w'' (a @ b)"
  by (simp add: noted_def)

lemma send_noted:
  assumes "stream_socket send wire" "ntrip_server_sock_send send w buf = (n, err, w')"
  shows "noted wire w w' (if n > 0 then [n] else [])"
proof -
  obtain x where x: "send (fst w) buf = (n, err, x)" "w' = (x, if n > 0 then snd w @ [n] else snd w)"
    using assms(2) by (auto simp: ntrip_server_sock_send_def split: prod.splits)
  have "n \<le> int (length buf)" "wire x = wire (fst w) @ take (nat n) buf"
    using assms(1) x(1) unfolding stream_socket_def by (metis (mono_tags, lifting) case_prod_conv)+
  then show ?thesis using x(2) by (auto simp: noted_def)
qed

lemma after_send_accepted:
  "tx_after_send tx now n err = (r, tx') \<Longrightarrow>
   t_accepted_to_lwip tx' = t_accepted_to_lwip tx + of_int (if n > 0 then n else 0)"
  by (auto simp: tx_after_send_def ntrip_tx_abort_def Let_def split: if_splits)

lemma poll_rounds_noted:
  assumes "stream_socket send wire"
  shows "tx_poll_rounds n res tx r now stale (ntrip_server_sock_send send) w = Some (res', tx', w') \<Longrightarrow>
    \<exists>new. noted wire w w' new \<and> t_accepted_to_lwip tx' = t_accepted_to_lwip tx + of_int (sum_list new)"
proof (induction n arbitrary: res tx w)
  case 0
  then show ?case by (auto intro!: exI [of _ "[]"])
next
  case (Suc n)
  obtain ready tx1 where c: "(if t_current_off tx \<ge> t_current_len tx then tx_copy_next tx r now stale else Some (True, tx)) = Some (ready, tx1)"
    using Suc.prems by (cases "if t_current_off tx \<ge> t_current_len tx then tx_copy_next tx r now stale else Some (True, tx)") auto
  have a: "t_accepted_to_lwip tx1 = t_accepted_to_lwip tx" using c copy_next_accepted by (auto split: if_splits)
  show ?case
  proof (cases ready)
    case False
    then show ?thesis using Suc.prems c a by (auto intro!: exI [of _ "[]"])
  next
    case True
    obtain buf where b: "mem_read (t_current tx1) (t_current_off tx1) (to_size (int (t_current_len tx1) - int (t_current_off tx1))) = Some buf"
      using Suc.prems c True by (auto split: bind_splits)
    obtain k err w1 where k: "ntrip_server_sock_send send w buf = (k, err, w1)" by (cases "ntrip_server_sock_send send w buf")
    obtain x tx2 where x: "tx_after_send tx1 now k err = (x, tx2)" by (cases "tx_after_send tx1 now k err")
    note n1 = send_noted [OF assms k] and a1 = after_send_accepted [OF x]
    show ?thesis
    proof (cases x)
      case (Some y)
      then have "tx' = tx2" "w' = w1" using Suc.prems c True b k x by (auto simp: Let_def)
      then show ?thesis using n1 a a1 by (intro exI [of _ "if k > 0 then [k] else []"]) auto
    next
      case None
      then have "tx_poll_rounds n POLL_PROGRESS tx2 r now stale (ntrip_server_sock_send send) w1 = Some (res', tx', w')"
        using Suc.prems c True b k x by (auto simp: Let_def)
      from Suc.IH [OF this] obtain new where "noted wire w1 w' new"
        "t_accepted_to_lwip tx' = t_accepted_to_lwip tx2 + of_int (sum_list new)" by blast
      then show ?thesis using noted_trans [OF n1] a a1 by (intro exI [of _ "(if k > 0 then [k] else []) @ new"]) auto
    qed
  qed
qed

text \<open>How a session moves on: notes grow, and the back-off is untouched or reset after a note.\<close>

definition moved :: "('w \<Rightarrow> u8 list) \<Rightarrow> 'w session \<Rightarrow> 'w session \<Rightarrow> bool" where
  "moved wire s s' \<longleftrightarrow> (\<exists>new. noted wire (ss_world s) (ss_world s') new \<and>
     (ss_retry s' = ss_retry s \<or> new \<noteq> [] \<and> ss_retry s' = retry_reset (ss_retry s)))"

lemma moved_refl: "moved wire s s"
  by (auto simp: moved_def intro!: exI [of _ "[]"])

lemma reset_reset [simp]: "retry_reset (retry_reset r) = retry_reset r"
  by (cases r) (simp_all add: retry_reset_def)

lemma moved_trans: "moved wire a b \<Longrightarrow> moved wire b c \<Longrightarrow> moved wire a c"
  unfolding moved_def using noted_trans by fastforce

lemma moved_probe: "moved wire s t \<Longrightarrow> moved wire s (t\<lparr>ss_probe_ms := p\<rparr>)"
  by (simp add: moved_def)

lemma drain_poll_moved:
  assumes "stream_socket send wire" "drain_poll send now fs s = Some (pr, s')" shows "moved wire s s'"
proof -
  obtain ring tx w where p: "ntrip_tx_poll (ss_tx s) ring now NTRIP_TX_MAX_SENDS_PER_POLL NTRIP_TX_STALE_DROP_MS
      (ntrip_server_sock_send send) (ss_world s) = Some (pr, tx, w)"
    "ss_world s' = w" "ss_retry s' = (if t_accepted_to_lwip tx > t_accepted_to_lwip (ss_tx s) \<and> \<not> ss_made s then retry_reset (ss_retry s) else ss_retry s)"
    using assms(2) by (auto simp: drain_poll_def Let_def split: bind_splits prod.splits)
  obtain new where "noted wire (ss_world s) w new" "t_accepted_to_lwip tx = t_accepted_to_lwip (ss_tx s) + of_int (sum_list new)"
    using poll_rounds_noted [OF assms(1)] p(1) unfolding ntrip_tx_poll_def by blast
  then show ?thesis using p(2,3) by (auto simp: moved_def intro!: exI [of _ new])
qed

lemma drain_moved:
  "stream_socket send wire \<Longrightarrow> drain n i send k s = Some (pr, s') \<Longrightarrow> moved wire s s'"
proof (induction n arbitrary: i s)
  case (Suc n)
  obtain pr1 s1 where d: "drain_poll send (wk_now k) (wk_pushed k i) s = Some (pr1, s1)"
    using Suc.prems(2) by (auto split: bind_splits)
  note m = drain_poll_moved [OF Suc.prems(1) d]
  show ?case using Suc.IH [OF Suc.prems(1), of "i + 1" s1] Suc.prems(2) d m moved_trans [OF m] by (auto split: if_splits)
qed (simp add: moved_refl)

lemma session_moved:
  "stream_socket send wire \<Longrightarrow> ntrip_session send gen ks s = Some (e, s') \<Longrightarrow> moved wire s s'"
proof (induction ks arbitrary: s)
  case (Cons k ks)
  show ?case
  proof (cases "wk_gen k = gen")
    case True
    obtain e1 s1 where w: "session_wake send k s = Some (e1, s1)" using Cons.prems(2) True by (auto split: bind_splits)
    obtain pr s2 where d: "drain NTRIP_DRAIN_MAX_SPINS 0 send k s = Some (pr, s2)" "s1 = s2 \<or> s1 = s2\<lparr>ss_probe_ms := wk_later k\<rparr>"
      using w by (auto simp: session_wake_def simp del: drain.simps split: bind_splits if_splits)
    have m: "moved wire s s1" using drain_moved [OF Cons.prems(1) d(1)] d(2) moved_probe by auto
    show ?thesis using Cons.prems(2) Cons.IH [OF Cons.prems(1), of s1] True w m moved_trans [OF m] by (auto split: option.splits)
  next
    case False
    then show ?thesis using Cons.prems(2) by (simp add: moved_refl)
  qed
qed (simp add: moved_refl)

lemma session_started:
  assumes "reach tx_start (task_step send wire) s" "wire (fst w) = []"
  shows "session_reached send wire (length (x_log s)) (x_log s) True
    \<lparr>ss_tx = ntrip_tx_reset_conn (x_tx s) (x_ring s) now, ss_ring = x_ring s, ss_retry = retry, ss_made = False,
     ss_probe_ms = pm, ss_world = w\<rparr>"
proof -
  have "reach tx_start (task_step send wire) (s\<lparr>x_tx := ntrip_tx_reset_conn (x_tx s) (x_ring s) now, x_world := w,
      x_start := length (x_log s), x_open := True\<rparr>)"
    by (rule reach.move [OF assms(1) tx_step.connect]) (simp add: assms(2))
  then show ?thesis by (force simp: session_reached_def agrees_def)
qed

section \<open>Properties of a connection\<close>

text \<open>C6: A session sends whole frames and nothing else. For every behaviour of the network and of the
  other tasks, a session that starts on a fresh connection runs without leaving a buffer. While it
  lasts, and when it ends for any reason but a send error, the connection carries whole frames that
  were pushed to the ring during the session, in order, then the first bytes of the current frame.
  Every byte on the connection, and no other, was reported to the supervisor and the statistics, and
  the reconnect back-off is reset only after the stack accepted bytes.\<close>

theorem session_whole_frames:
  assumes "stream_socket send wire" and "reach tx_start (task_step send wire) s" and "frames_ok ks"
    and "length (x_log s) + session_frames ks < 2 ^ 32" and "wire (fst w) = []"
  shows "\<exists>e ss pushed. ntrip_session send gen ks
      \<lparr>ss_tx = ntrip_tx_reset_conn (x_tx s) (x_ring s) now, ss_ring = x_ring s, ss_retry = retry, ss_made = False,
       ss_probe_ms = pm, ss_world = w\<rparr> = Some (e, ss) \<and>
    ring_holds (ss_ring ss) (x_log s @ pushed) \<and>
    (e \<noteq> Some END_SEND_ERROR \<longrightarrow> (\<exists>fs. subseq (fs @ tx_current (ss_tx ss)) pushed \<and>
       wire (fst (ss_world ss)) = concat (map fst fs) @ tx_partial (ss_tx ss))) \<and>
    (\<exists>new. snd (ss_world ss) = snd w @ new \<and> int (length (wire (fst (ss_world ss)))) = sum_list new \<and>
       (ss_retry ss = retry \<or> new \<noteq> [] \<and> ss_retry ss = retry_reset retry))"
proof -
  let ?s0 = "\<lparr>ss_tx = ntrip_tx_reset_conn (x_tx s) (x_ring s) now, ss_ring = x_ring s, ss_retry = retry, ss_made = False,
       ss_probe_ms = pm, ss_world = w\<rparr>"
  obtain e ss M where m: "ntrip_session send gen ks ?s0 = Some (e, ss)" "length M \<le> session_frames ks"
    "session_reached send wire (length (x_log s)) (x_log s @ M) (e \<noteq> Some END_SEND_ERROR) ss"
    using session_all_reached [OF assms(1,3) session_started [OF assms(2,5)] assms(4)] by metis
  obtain t where t: "reach tx_start (task_step send wire) t" "agrees t ss" "x_log t = x_log s @ M"
    "x_start t = length (x_log s)" "e \<noteq> Some END_SEND_ERROR \<longrightarrow> x_open t"
    using m(3) by (auto simp: session_reached_def)
  obtain k where k: "ring_holds (x_ring t) (x_log t)" "k \<le> length (x_log t)"
    "x_open t \<longrightarrow> on_wire (x_log t) (x_start t) k (x_tx t) (wire (fst (x_world t)))"
    using tx_reach_inv [OF sock_send_stream [OF assms(1)] t(1)] m(2) assms(4) t(3) by auto
  have fs: "\<exists>fs. subseq (fs @ tx_current (ss_tx ss)) M \<and> wire (fst (ss_world ss)) = concat (map fst fs) @ tx_partial (ss_tx ss)"
    if "e \<noteq> Some END_SEND_ERROR"
  proof -
    have o: "on_wire (x_log s @ M) (length (x_log s)) k (ss_tx ss) (wire (fst (ss_world ss)))"
      using that t k(3) by (simp add: agrees_def)
    then have "length (x_log s) \<le> k" by (simp add: on_wire_def)
    then have "drop (length (x_log s)) (take k (x_log s @ M)) = take (k - length (x_log s)) M" by simp
    then obtain fs where f: "subseq (fs @ tx_current (ss_tx ss)) (take (k - length (x_log s)) M)"
      "wire (fst (ss_world ss)) = concat (map fst fs) @ tx_partial (ss_tx ss)"
      using o by (auto simp: on_wire_def)
    have "subseq (take (k - length (x_log s)) M) M" using prefix_order.order_refl take_is_prefix prefix_imp_subseq by blast
    with f show ?thesis using subseq_order.order_trans by blast
  qed
  have "moved wire ?s0 ss" by (rule session_moved [OF assms(1) m(1)])
  then show ?thesis using m(1) fs k(1) t(2,3) assms(5) by (auto simp: agrees_def moved_def noted_def)
qed

definition demo_task_state :: "(u8 list \<times> int list) tx_state" where
  "demo_task_state = \<lparr>x_log = [], x_ring = ntrip_ring_init, x_tx = ntrip_tx_init, x_world = ([], []), x_start = 0, x_open = False\<rparr>"

definition demo_wake :: wake where
  "demo_wake = \<lparr>wk_gen = 0, wk_now = 10, wk_pushed = (\<lambda>i. if i = 0 then [(encode_frame [1, 2], 5)] else []),
     wk_later = 11, wk_recv = (-1, EAGAIN)\<rparr>"

theorem session_whole_frames_witness:
  "\<exists>e ss pushed. ntrip_session slow_send 0 [demo_wake]
      \<lparr>ss_tx = ntrip_tx_reset_conn ntrip_tx_init ntrip_ring_init 0, ss_ring = ntrip_ring_init, ss_retry = None, ss_made = False,
       ss_probe_ms = 0, ss_world = ([], [])\<rparr> = Some (e, ss) \<and> ring_holds (ss_ring ss) pushed"
proof -
  have fl: "frame_len_ok (encode_frame [1, 2])" by (simp add: valid_frame_len_ok encode_frame_valid)
  have r: "reach tx_start (task_step slow_send (\<lambda>w. w)) demo_task_state"
    by (rule reach.start) (simp add: tx_start_def demo_task_state_def)
  have f: "frames_ok [demo_wake]" using fl by (simp add: frames_ok_def demo_wake_def)
  have "wake_frames n (Suc i) demo_wake = 0" for n i
    by (induction n arbitrary: i) (simp_all add: wake_frames_Suc, simp_all add: wake_frames_def demo_wake_def)
  then have "wake_frames (Suc 63) 0 demo_wake = 1" unfolding wake_frames_Suc by (simp add: demo_wake_def)
  then have "session_frames [demo_wake] = 1" by (simp add: session_frames_def)
  then have b: "length (x_log demo_task_state) + session_frames [demo_wake] < 2 ^ 32" by (simp add: demo_task_state_def)
  show ?thesis
    using session_whole_frames [OF slow_socket r f b, of "([], [])" 0 0 None 0] by (auto simp: demo_task_state_def)
qed

lemma write_loop_closed: "0 < len \<Longrightarrow> sock < 0 \<Longrightarrow> write_loop (sock_write d sock) 0 0 len = 0"
  by (simp add: write_loop.simps [of _ 0 0] sock_write_def)

definition is_ready :: "ntrip_instance \<Rightarrow> bool" where
  "is_ready inst \<longleftrightarrow> (case i_ev inst of Some ev \<Rightarrow> caster_ready ev | None \<Rightarrow> False)"

text \<open>What an accepted handshake has seen.\<close>

definition accepted_by :: "dial \<Rightarrow> caster_cfg \<Rightarrow> int \<Rightarrow> bool" where
  "accepted_by d c sock \<longleftrightarrow> 0 \<le> sock \<and>
     write_loop (sock_write d sock) 0 0 (length (snprintf_buf BUFFER_SIZE (source_request (d_version d) c))) =
       length (snprintf_buf BUFFER_SIZE (source_request (d_version d) c)) \<and>
     (\<exists>rep status. d_reply d = Some rep \<and> ntrip_response_ok status \<and>
        extract_http_header (d_oom d) (takeWhile (\<lambda>c. c \<noteq> CHR 0x00) (take (BUFFER_SIZE - 1) rep)) [] = Some status) \<and>
     d_nonblock d"

lemma request_nonempty: "snprintf_buf BUFFER_SIZE (source_request v c) \<noteq> []"
  by (simp add: snprintf_buf_def source_request_def Let_def)

lemma handshake_ok: "ntrip_handshake d c = ((sock, opened, closed), HS_OK) \<Longrightarrow> accepted_by d c sock"
proof -
  assume h: "ntrip_handshake d c = ((sock, opened, closed), HS_OK)"
  let ?req = "snprintf_buf BUFFER_SIZE (source_request (d_version d) c)"
  have w: "write_loop (sock_write d sock) 0 0 (length ?req) = length ?req"
    using h by (auto simp: ntrip_handshake_def Let_def split: prod.splits if_splits)
  then have "0 \<le> sock" using write_loop_closed [of "length ?req" sock d] request_nonempty by fastforce
  with w h show ?thesis
    by (auto simp: accepted_by_def ntrip_handshake_def Let_def split: prod.splits if_splits option.splits)
qed

lemma handshake_balance:
  "ntrip_handshake d c = ((sock, opened, closed), hs) \<Longrightarrow> mset opened = mset (closed @ snd (destroy_socket sock))"
  using connect_socket_no_leak [where gai = "d_gai d" and addrs = "d_addrs d" and opts = "d_opts d"]
  by (auto simp: ntrip_handshake_def Let_def split: prod.splits)

lemma cleanup_fields:
  assumes "ntrip_server_cleanup_iteration inst = (inst', cl)"
  shows "i_sock inst' = fst (destroy_socket (i_sock inst))" "cl = snd (destroy_socket (i_sock inst))" "i_tx inst' = i_tx inst"
    "i_retry inst' = i_retry inst" "is_ready inst' = is_ready inst" "\<not> (i_task_sleep inst' \<and> i_sleep_running inst')"
  using assms by (auto simp: ntrip_server_cleanup_iteration_def is_ready_def Let_def split: prod.splits if_splits)

text \<open>C7: Every way through an iteration leaves the instance in order. Unless the session is still
  running: the ready flag is down, no socket is open, and every descriptor that was opened was closed
  exactly once; after a dial the keep-alive task is suspended. The frame sender, the ring and the data stream are touched only after a handshake in
  which the whole request was written and the caster accepted it; before that the back-off has only
  advanced. After a session nothing is pending, so the next connection starts with a whole frame.\<close>

theorem iteration_paths:
  assumes "ntrip_server_iteration v ring w inst = Some r" and "\<not> is_ready inst" and "i_sock inst < 0"
  shows "(it_phase r \<noteq> PH_RUNNING \<longrightarrow> \<not> is_ready (it_inst r) \<and> i_sock (it_inst r) < 0 \<and> mset (it_opened r) = mset (it_closed r) \<and>
       (it_phase r = PH_WAITING \<or> \<not> (i_task_sleep (it_inst r) \<and> i_sleep_running (it_inst r)))) \<and>
    (if it_phase r = PH_WAITING \<or> (\<exists>hs. it_phase r = PH_FAILED hs)
     then it_world r = w \<and> it_ring r = ring \<and> i_tx (it_inst r) = i_tx inst \<and>
          i_retry (it_inst r) = snd (snd (retry_delay (i_retry inst)))
     else \<exists>sock. accepted_by (v_dial v) (v_cfg v) sock \<and>
          (it_phase r \<noteq> PH_RUNNING \<longrightarrow> t_current_len (i_tx (it_inst r)) = 0))"
proof -
  obtain delay started where ws: "ntrip_server_wait_for_start (v_data v) inst = (delay, started)"
    by (cases "ntrip_server_wait_for_start (v_data v) inst")
  note d = ntrip_server_iteration_def Let_def
  show ?thesis
  proof (cases started)
    case None
    then show ?thesis using assms ws by (auto simp: d is_ready_def)
  next
    case (Some st)
    have st: "i_tx st = i_tx inst" "i_retry st = snd (snd (retry_delay (i_retry inst)))" "\<not> is_ready st"
      using ws Some assms(2)
      by (auto simp: ntrip_server_wait_for_start_def is_ready_def retry_delay_def Let_def split: option.splits prod.splits if_splits)
    obtain sock opened closed hs where h: "ntrip_handshake (v_dial v) (v_cfg v) = ((sock, opened, closed), hs)"
      by (metis prod.exhaust)
    note bal = handshake_balance [OF h]
    obtain s' cl where ds: "destroy_socket sock = (s', cl)" by (cases "destroy_socket sock")
    have s': "s' < 0" using ds by (auto simp: destroy_socket_def split: if_splits)
    show ?thesis
    proof (cases "hs = HS_OK")
      case False
      obtain i' cl' where c: "ntrip_server_cleanup_iteration (st\<lparr>i_sock := sock\<rparr>) = (i', cl')"
        by (cases "ntrip_server_cleanup_iteration (st\<lparr>i_sock := sock\<rparr>)")
      have "\<not> is_ready (st\<lparr>i_sock := sock\<rparr>)" using st(3) by (simp add: is_ready_def)
      then show ?thesis using assms(1) ws Some h ds s' bal st False c cleanup_fields [OF c]
        by (auto simp: d)
    next
      case True
      have acc: "accepted_by (v_dial v) (v_cfg v) sock" using handshake_ok h True by blast
      obtain e t where e: "ntrip_session (v_send v) (v_gen v) (v_wakes v)
          \<lparr>ss_tx = i_tx (connected (v_reset_ms v) ring (st\<lparr>i_sock := sock\<rparr>)), ss_ring = ring,
           ss_retry = i_retry (connected (v_reset_ms v) ring (st\<lparr>i_sock := sock\<rparr>)), ss_made = False,
           ss_probe_ms = v_probe_ms v, ss_world = w\<rparr> = Some (e, t)"
        using assms(1) ws Some h True by (auto simp: d split: bind_splits)
      show ?thesis
      proof (cases e)
        case None
        then show ?thesis using assms(1) ws Some h True e acc by (auto simp: d)
      next
        case (Some x)
        let ?i = "ntrip_server_handle_disconnect (after_session (ss_tx t) (ss_retry t) (connected (v_reset_ms v) ring (st\<lparr>i_sock := sock\<rparr>)))"
        obtain i' cl' where c: "ntrip_server_cleanup_iteration ?i = (i', cl')" by (cases "ntrip_server_cleanup_iteration ?i")
        have f: "i_sock ?i = sock" "\<not> is_ready ?i" "t_current_len (i_tx ?i) = 0"
          by (auto simp: ntrip_server_handle_disconnect_def after_session_def connected_def is_ready_def ntrip_tx_abort_def Let_def
              split: option.splits)
        have "r = \<lparr>it_phase = PH_ENDED x, it_inst = i', it_ring = ss_ring t, it_world = ss_world t, it_opened = opened,
            it_closed = closed @ cl', it_delay = delay\<rparr>"
          using assms(1) ws \<open>started = Some st\<close> h True e c Some by (auto simp: d)
        then show ?thesis using bal ds s' acc f cleanup_fields [OF c] by auto
      qed
    qed
  qed
qed

text \<open>A dial that the caster refuses.\<close>

definition demo_dial :: dial where
  "demo_dial = \<lparr>d_gai = 0, d_addrs = [\<lparr>ar_socket = 7, ar_connect = 0\<rparr>], d_opts = [0], d_nomem = False, d_version = ''1.1.8'',
     d_write = (\<lambda>k n. int n), d_reply = Some (''ERROR - Bad Password'' @ CRLF), d_oom = False, d_nonblock = True\<rparr>"

definition demo_iter_env :: "u8 list iter_env" where
  "demo_iter_env = \<lparr>v_send = slow_send, v_data = True,
     v_cfg = \<lparr>cc_host = Some ''caster.example'', cc_port = 2101, cc_pwd = Some ''pw'', cc_mp = Some ''MP''\<rparr>, v_gen = 0,
     v_dial = demo_dial, v_reset_ms = 0, v_probe_ms = 0, v_wakes = []\<rparr>"

theorem iteration_paths_witness:
  "\<exists>r. ntrip_server_iteration demo_iter_env ntrip_ring_init ([], []) (new_instance 0) = Some r \<and>
     it_phase r = PH_FAILED HS_STATUS \<and> mset (it_opened r) = mset (it_closed r) \<and> it_opened r = [7]"
proof -
  have h: "ntrip_handshake demo_dial (v_cfg demo_iter_env) = ((7, [7], []), HS_STATUS)" by code_simp
  have n: "\<not> is_ready (new_instance 0)" "i_sock (new_instance 0) < 0" by (simp_all add: new_instance_def is_ready_def)
  have "\<exists>r. ntrip_server_iteration demo_iter_env ntrip_ring_init ([], []) (new_instance 0) = Some r \<and>
     it_phase r = PH_FAILED HS_STATUS \<and> it_opened r = [7]"
    using h by (simp add: ntrip_server_iteration_def ntrip_server_wait_for_start_def new_instance_def
        ntrip_server_cleanup_iteration_def destroy_socket_def Let_def)
      (simp add: demo_iter_env_def ntrip_server_cleanup_iteration_def destroy_socket_def Let_def)
  then obtain r where r: "ntrip_server_iteration demo_iter_env ntrip_ring_init ([], []) (new_instance 0) = Some r"
    "it_phase r = PH_FAILED HS_STATUS" "it_opened r = [7]" by blast
  from iteration_paths [OF r(1) n] r show ?thesis by auto
qed

section \<open>The instances that start\<close>

text \<open>The keys of every instance are in the table, and fit the key buffer.\<close>

definition instance_bases :: "string list" where
  "instance_bases = [''ntr_srv_actv'', ''ntr_srv_color'', ''ntr_srv_host'', ''ntr_srv_port'', ''ntr_srv_mp'', ''ntr_srv_pass'']"

definition keys_ok :: "nat \<Rightarrow> bool" where
  "keys_ok i \<longleftrightarrow> list_all (\<lambda>base. config_get_item (base @ instance_suffix i) \<noteq> None \<and>
     build_key 64 base (instance_suffix i) = base @ instance_suffix i) instance_bases"

definition ntrip_sections :: "config_item list list" where
  "ntrip_sections = [cfg_ntrip_0, cfg_ntrip_1, cfg_ntrip_2, cfg_ntrip_3, cfg_ntrip_4, cfg_ntrip_5, cfg_ntrip_6, cfg_ntrip_7,
     cfg_ntrip_8, cfg_ntrip_9]"

lemma sections_keys:
  "list_all (\<lambda>i. list_all (\<lambda>base. base @ instance_suffix i \<in> set (map ci_key (ntrip_sections ! i)) \<and>
     length (base @ instance_suffix i) < 64) instance_bases) [0..<MAX_NTRIP_SERVERS]"
  by code_simp

lemma instance_keys: "list_all keys_ok [0..<MAX_NTRIP_SERVERS]"
proof -
  have "config_get_item k \<noteq> None" if "i < MAX_NTRIP_SERVERS" "k \<in> ci_key ` set (ntrip_sections ! i)" for i k
  proof -
    have "ntrip_sections ! i \<in> set ntrip_sections" using that(1)
      by (intro nth_mem) (simp add: ntrip_sections_def)
    then have "set (ntrip_sections ! i) \<subseteq> set CONFIG_ITEMS" by (auto simp: ntrip_sections_def CONFIG_ITEMS_def)
    then show ?thesis using that(2) by (auto simp: config_get_item_def find_None_iff)
  qed
  then show ?thesis using sections_keys
    by (auto simp: list_all_iff keys_ok_def build_key_def simp del: upt_conv_Cons)
qed

definition starts :: "start_env \<Rightarrow> 's nvs \<Rightarrow> 's \<Rightarrow> nat \<Rightarrow> handle option" where
  "starts n nvs st i =
     (if config_get_bool1 nvs (CONF_ITEM (build_key 64 ''ntr_srv_actv'' (instance_suffix i))) st \<and> n_task n i then n_alloc n i else None)"

lemma start_instance_registry:
  assumes "registry s hs" "g_instances_mutex s" "length hs < MAX_NTRIP_SERVERS" "\<And>h. n_alloc n i = Some h \<Longrightarrow> h \<notin> set hs"
    and free: "\<And>h. n_alloc n i = Some h \<Longrightarrow> g_heap s h = None"
  shows "registry (start_instance n nvs st i s) (hs @ (case starts n nvs st i of None \<Rightarrow> [] | Some h \<Rightarrow> [h])) \<and>
    g_instances_mutex (start_instance n nvs st i s) \<and>
    g_heap (start_instance n nvs st i s) = (case starts n nvs st i of None \<Rightarrow> g_heap s
      | Some h \<Rightarrow> (g_heap s)(h \<mapsto> (new_instance i)\<lparr>i_task_server := True\<rparr>))"
proof (cases "config_get_bool1 nvs (CONF_ITEM (build_key 64 ''ntr_srv_actv'' (instance_suffix i))) st")
  case False
  then show ?thesis using assms(1,2) by (simp add: start_instance_def starts_def)
next
  case True
  show ?thesis
  proof (cases "n_alloc n i")
    case None
    then show ?thesis using assms(1,2) True by (simp add: start_instance_def starts_def)
  next
    case (Some h)
    let ?s = "s\<lparr>g_heap := (g_heap s)(h := Some (new_instance i))\<rparr>"
    have rs: "registry (x\<lparr>g_heap := hp\<rparr>) l = registry x l" for x hp l by (simp add: registry_def)
    have hn: "h \<notin> set hs" by (rule assms(4) [OF Some])
    have un: "(g_heap s)(h := None) = g_heap s" using free [OF Some] by auto
    obtain b t where t: "register_instance h ?s = (b, t)" by (cases "register_instance h ?s")
    have r: "registry t (hs @ [h])" "b"
      using registry_ops [of ?s hs h] assms(1-3) hn t by (simp_all add: rs)
    have m: "g_instances_mutex t" "g_heap t = (g_heap s)(h := Some (new_instance i))"
      using t assms(2) by (auto simp: register_instance_def split: if_splits)
    have dr: "registry (ntrip_server_deregister_instance h t) hs" "g_instances_mutex (ntrip_server_deregister_instance h t)"
      "g_heap (ntrip_server_deregister_instance h t) = g_heap t"
      using registry_ops [OF r(1) m(1), of h] hn m(1)
      by (simp_all add: remove1_append ntrip_server_deregister_instance_def Let_def split: option.splits)
    show ?thesis using True Some t r m dr un
      by (auto simp: start_instance_def starts_def Let_def rs)
  qed
qed

text \<open>What the heap holds after the start: the instances that started, and everything else as it was.\<close>

definition started_heap :: "start_env \<Rightarrow> 's nvs \<Rightarrow> 's \<Rightarrow> nat list \<Rightarrow> (handle \<Rightarrow> ntrip_instance option) \<Rightarrow> handle \<Rightarrow> ntrip_instance option" where
  "started_heap n nvs st xs hp h = (case find (\<lambda>i. starts n nvs st i = Some h) xs of
     None \<Rightarrow> hp h | Some i \<Rightarrow> Some ((new_instance i)\<lparr>i_task_server := True\<rparr>))"

lemma start_all_registry:
  assumes "inj_on (\<lambda>i. n_alloc n i) {i. n_alloc n i \<noteq> None}"
  shows "registry s hs \<Longrightarrow> g_instances_mutex s \<Longrightarrow> distinct xs \<Longrightarrow> length hs + length xs \<le> MAX_NTRIP_SERVERS \<Longrightarrow>
    \<forall>i \<in> set xs. \<forall>h. n_alloc n i = Some h \<longrightarrow> h \<notin> set hs \<and> g_heap s h = None \<Longrightarrow>
    registry (fold (start_instance n nvs st) xs s) (hs @ List.map_filter (starts n nvs st) xs) \<and>
    g_heap (fold (start_instance n nvs st) xs s) = started_heap n nvs st xs (g_heap s)"
proof (induction xs arbitrary: s hs)
  case (Cons i xs)
  let ?s = "start_instance n nvs st i s" and ?h = "case starts n nvs st i of None \<Rightarrow> [] | Some h \<Rightarrow> [h]"
  have sa: "n_alloc n j = Some h" if "starts n nvs st j = Some h" for j h using that by (simp add: starts_def split: if_splits)
  have other: "n_alloc n j \<noteq> Some h" if "n_alloc n i = Some h" "j \<in> set xs" for j h
    using inj_onD [OF assms, of i j] that Cons.prems(3) by auto
  have lt: "length hs < MAX_NTRIP_SERVERS" using Cons.prems(4) by simp
  have one: "registry ?s (hs @ ?h)" "g_instances_mutex ?s"
      "g_heap ?s = (case starts n nvs st i of None \<Rightarrow> g_heap s | Some h \<Rightarrow> (g_heap s)(h \<mapsto> (new_instance i)\<lparr>i_task_server := True\<rparr>))"
    using start_instance_registry [OF Cons.prems(1,2) lt, of n i nvs st] Cons.prems(5) by auto
  have len: "length (hs @ ?h) + length xs \<le> MAX_NTRIP_SERVERS" using Cons.prems(4) by (simp split: option.splits)
  have fresh: "\<forall>j \<in> set xs. \<forall>h. n_alloc n j = Some h \<longrightarrow> h \<notin> set (hs @ ?h) \<and> g_heap ?s h = None"
  proof (intro ballI allI impI)
    fix j h assume j: "j \<in> set xs" "n_alloc n j = Some h"
    then have "starts n nvs st i \<noteq> Some h" using sa other by metis
    then show "h \<notin> set (hs @ ?h) \<and> g_heap ?s h = None" using Cons.prems(5) j one(3) by (auto split: option.splits)
  qed
  have rest: "registry (fold (start_instance n nvs st) xs ?s) ((hs @ ?h) @ List.map_filter (starts n nvs st) xs) \<and>
      g_heap (fold (start_instance n nvs st) xs ?s) = started_heap n nvs st xs (g_heap ?s)"
    using Cons.prems(3) by (intro Cons.IH [OF one(1,2) _ len fresh]) simp
  have "?h @ List.map_filter (starts n nvs st) xs = List.map_filter (starts n nvs st) (i # xs)"
    by (simp add: map_filter_simps split: option.splits)
  moreover have "started_heap n nvs st xs (g_heap ?s) = started_heap n nvs st (i # xs) (g_heap s)"
  proof (rule ext)
    fix h
    have "find (\<lambda>j. starts n nvs st j = Some h) xs = None" if "starts n nvs st i = Some h"
      unfolding find_None_iff using sa [OF that] sa other by blast
    then show "started_heap n nvs st xs (g_heap ?s) h = started_heap n nvs st (i # xs) (g_heap s) h"
      using one(3) by (cases "starts n nvs st i") (auto simp: started_heap_def split: option.splits)
  qed
  ultimately show ?case using rest by simp
qed (simp add: map_filter_simps started_heap_def [abs_def])

text \<open>C24: The start-up runs exactly the configured instances. When the allocator gives different free blocks to the instances and none is
  registered yet: if a mutex that does not exist cannot be created, no instance starts and the heap is as it was. Otherwise the
  registry lists, in the order of their indices, the instances that are switched on and for which memory and a task could
  be had; each is in its block with its own suffix, index and closed socket; and the rest of the heap is as it was: an instance
  whose task could not be created is taken off the registry and freed. Every configuration key an instance builds is in the
  table and is not cut.\<close>

theorem init_starts_configured:
  assumes "inj_on (\<lambda>i. n_alloc n i) {i. n_alloc n i \<noteq> None}" and "\<And>i h. n_alloc n i = Some h \<Longrightarrow> g_heap s h = None"
    and "registry s []"
  shows "(if (g_instances_mutex s \<or> mutex) \<and> (g_ring_mutex s \<or> ring_mutex)
     then registry (ntrip_server_init mutex ring_mutex n nvs st s) (List.map_filter (starts n nvs st) [0..<MAX_NTRIP_SERVERS]) \<and>
       g_heap (ntrip_server_init mutex ring_mutex n nvs st s) = started_heap n nvs st [0..<MAX_NTRIP_SERVERS] (g_heap s)
     else registry (ntrip_server_init mutex ring_mutex n nvs st s) [] \<and>
       g_heap (ntrip_server_init mutex ring_mutex n nvs st s) = g_heap s) \<and>
    list_all keys_ok [0..<MAX_NTRIP_SERVERS]"
proof -
  let ?s = "ntrip_server_ingest_init ring_mutex (s\<lparr>g_instances_mutex := True\<rparr>)"
  have s: "registry ?s []" "g_instances_mutex ?s" "g_heap ?s = g_heap s" "g_ring_mutex ?s \<longleftrightarrow> g_ring_mutex s \<or> ring_mutex"
    using assms(3) by (auto simp: ntrip_server_ingest_init_def registry_def)
  have "registry (fold (start_instance n nvs st) [0..<MAX_NTRIP_SERVERS] ?s) ([] @ List.map_filter (starts n nvs st) [0..<MAX_NTRIP_SERVERS]) \<and>
    g_heap (fold (start_instance n nvs st) [0..<MAX_NTRIP_SERVERS] ?s) = started_heap n nvs st [0..<MAX_NTRIP_SERVERS] (g_heap ?s)"
    by (rule start_all_registry [OF assms(1) s(1,2)]) (use assms(2) s(3) in auto)
  then show ?thesis using s assms(3) instance_keys
    by (auto simp: ntrip_server_init_def Let_def simp del: upt_conv_Cons)
qed

text \<open>Two instances are switched on; the task of the second cannot be created.\<close>

definition demo_start_env :: start_env where
  "demo_start_env = \<lparr>n_alloc = (\<lambda>i. Some (100 + i)), n_task = (\<lambda>i. i \<noteq> 1)\<rparr>"

theorem init_starts_configured_witness:
  "registry (ntrip_server_init True True demo_start_env map_nvs [''ntr_srv_actv'' \<mapsto> NI8 1, ''ntr_srv_actv_1'' \<mapsto> NI8 1] (server_boot 0))
     (List.map_filter (starts demo_start_env map_nvs [''ntr_srv_actv'' \<mapsto> NI8 1, ''ntr_srv_actv_1'' \<mapsto> NI8 1]) [0..<MAX_NTRIP_SERVERS])"
proof -
  have "inj_on (\<lambda>i. n_alloc demo_start_env i) {i. n_alloc demo_start_env i \<noteq> None}" by (simp add: inj_on_def demo_start_env_def)
  moreover have "registry (server_boot 0) []" "\<And>i h. n_alloc demo_start_env i = Some h \<Longrightarrow> g_heap (server_boot 0) h = None"
    by (simp_all add: registry_def server_boot_def)
  ultimately show ?thesis
    using init_starts_configured [of demo_start_env "server_boot 0" True True map_nvs] by simp
qed

end
