(* ===== verification/Http_Post.thy ===== *)
theory Http_Post
  imports Text_Format Config_Store "HOL-Library.Sublist"
begin

text \<open>
  The HTTP request of the provisioning client (\<open>http_post_json\<close> in \<open>src/main/provisioning.c\<close>): the
  reply is read into a buffer that grows until the peer ends it. The HTTP client is an argument: what
  its functions return, the body the peer sends, how many bytes of it are at hand for the \<open>k\<close>-th read,
  and whether that read fails. A block of memory can be had only up to a finite size, the heap.
\<close>

record http_conn =
  hc_init :: bool
  hc_open :: esp_err
  hc_write :: int
  hc_clen :: int
  hc_status :: int
  hc_body :: string
  hc_more :: "nat \<Rightarrow> nat"
  hc_fail :: "nat \<Rightarrow> bool"
  hc_heap :: nat
  hc_alloc :: "nat \<Rightarrow> bool"

definition block_ok :: "http_conn \<Rightarrow> nat \<Rightarrow> bool" where
  "block_ok c n \<longleftrightarrow> n \<le> hc_heap c \<and> hc_alloc c n"

text \<open>The \<open>k\<close>-th read, at offset \<open>off\<close> of the body, into a buffer of \<open>n\<close> bytes; empty for zero or an error.\<close>

definition client_read :: "http_conn \<Rightarrow> nat \<Rightarrow> nat \<Rightarrow> nat \<Rightarrow> string" where
  "client_read c k off n = (if hc_fail c k then [] else take (min n (hc_more c k + 1)) (drop off (hc_body c)))"

text \<open>
  One round: the buffer of size \<open>cap\<close> holds \<open>resp\<close>; it is doubled when only the place of the
  terminator is left, then one read fills at most the rest.
\<close>

definition grow_cap :: "http_conn \<Rightarrow> nat \<Rightarrow> nat \<Rightarrow> nat option" where
  "grow_cap c cap len = (if len + 1 \<ge> cap then if block_ok c (cap * 2) then Some (cap * 2) else None else Some cap)"

function read_body :: "http_conn \<Rightarrow> nat \<Rightarrow> nat \<Rightarrow> string \<Rightarrow> string option" where
  "read_body c k cap resp =
     (case grow_cap c cap (length resp) of
        None \<Rightarrow> None
      | Some cap' \<Rightarrow>
          let r = client_read c k (length resp) (cap' - length resp - 1)
          in if r = [] then Some resp else read_body c (k + 1) cap' (resp @ r))"
  by pat_completeness auto

termination
proof (relation "measure (\<lambda>(c, k, cap, resp). max (hc_heap c) cap - length resp)")
  fix c k cap and resp :: string and cap' r
  assume g: "grow_cap c cap (length resp) = Some cap'" and r: "r = client_read c k (length resp) (cap' - length resp - 1)" "r \<noteq> []"
  have "length resp < max (hc_heap c) cap'" using r by (cases "cap' - length resp - 1") (auto simp: client_read_def split: if_splits)
  moreover have "max (hc_heap c) cap' \<le> max (hc_heap c) cap"
    using g by (auto simp: grow_cap_def block_ok_def split: if_splits)
  moreover have "0 < length r" using r by simp
  ultimately have "max (hc_heap c) cap' - (length resp + length r) < max (hc_heap c) cap - length resp" by linarith
  then show "((c, k + 1, cap', resp @ r), c, k, cap, resp) \<in> measure (\<lambda>(c, k, cap, resp). max (hc_heap c) cap - length resp)"
    by simp
qed simp

declare read_body.simps [simp del]

text \<open>The reply as a C string, and the status, set when the headers were fetched.\<close>

definition cstr :: "string \<Rightarrow> string" where
  "cstr s = takeWhile (\<lambda>c. c \<noteq> CHR 0x00) s"

definition first_cap :: "http_conn \<Rightarrow> nat" where
  "first_cap c = (if hc_clen c > 0 then nat (hc_clen c + 1) else 512)"

definition http_post_json :: "http_conn \<Rightarrow> int \<Rightarrow> string option \<times> int" where
  "http_post_json c status0 =
     (if \<not> hc_init c then (None, status0)
      else if hc_open c = ESP_OK \<and> hc_write c \<ge> 0
      then (if block_ok c (first_cap c) then map_option cstr (read_body c 0 (first_cap c) []) else None, hc_status c)
      else (None, status0))"

section \<open>The body is what was sent\<close>

text \<open>With room for the terminator in the buffer, the next read is never asked for zero bytes.\<close>

lemma grow_room: "grow_cap c cap len = Some cap' \<Longrightarrow> len < cap \<Longrightarrow> len + 1 < cap'"
  by (auto simp: grow_cap_def split: if_splits)

lemma client_read_append: "prefix resp (hc_body c) \<Longrightarrow> prefix (resp @ client_read c k (length resp) n) (hc_body c)"
  by (auto simp: prefix_def client_read_def) (metis append_take_drop_id)

lemma read_body_prefix:
  "read_body c k cap resp = Some body \<Longrightarrow> prefix resp (hc_body c) \<Longrightarrow> prefix body (hc_body c)"
proof (induction c k cap resp rule: read_body.induct)
  case (1 c k cap resp)
  show ?case
  proof (cases "grow_cap c cap (length resp)")
    case None
    then show ?thesis using "1.prems" by (simp add: read_body.simps)
  next
    case (Some cap')
    define r where "r = client_read c k (length resp) (cap' - length resp - 1)"
    show ?thesis
    proof (cases "r = []")
      case True
      then show ?thesis using "1.prems" Some by (auto simp: read_body.simps [of c k cap] Let_def r_def)
    next
      case False
      then have "read_body c (k + 1) cap' (resp @ r) = Some body"
        using "1.prems"(1) Some by (simp add: read_body.simps [of c k cap] Let_def r_def)
      then show ?thesis using "1.IH" [OF Some r_def False] client_read_append [OF "1.prems"(2)] by (simp add: r_def)
    qed
  qed
qed

text \<open>No read fails, the sender does not announce more than it sends, and memory suffices.\<close>

definition conn_good :: "http_conn \<Rightarrow> bool" where
  "conn_good c \<longleftrightarrow> (\<forall>k. \<not> hc_fail c k) \<and> hc_clen c \<le> int (length (hc_body c)) \<and>
     (\<forall>n. n \<le> max 512 (2 * length (hc_body c) + 2) \<longrightarrow> block_ok c n)"

lemma read_body_whole:
  "conn_good c \<Longrightarrow> prefix resp (hc_body c) \<Longrightarrow> length resp < cap \<Longrightarrow> read_body c k cap resp = Some (hc_body c)"
proof (induction c k cap resp rule: read_body.induct)
  case (1 c k cap resp)
  have le: "length resp \<le> length (hc_body c)" using "1.prems"(2) by (rule prefix_length_le)
  obtain cap' where g: "grow_cap c cap (length resp) = Some cap'"
  proof (cases "length resp + 1 \<ge> cap")
    case True
    then have "cap * 2 \<le> max 512 (2 * length (hc_body c) + 2)" using le by simp
    then have "block_ok c (cap * 2)" using "1.prems"(1) unfolding conn_good_def by blast
    then show ?thesis using that True by (simp add: grow_cap_def)
  qed (use that in \<open>simp add: grow_cap_def\<close>)
  define r where "r = client_read c k (length resp) (cap' - length resp - 1)"
  have room: "length resp + 1 < cap'" by (rule grow_room [OF g "1.prems"(3)])
  show ?case
  proof (cases "r = []")
    case True
    then have "drop (length resp) (hc_body c) = []"
      using "1.prems"(1) room by (auto simp: r_def client_read_def conn_good_def split: if_splits)
    then have "resp = hc_body c" using "1.prems"(2) by (auto simp: prefix_def)
    then show ?thesis using g True by (simp add: read_body.simps [of c k cap] Let_def r_def)
  next
    case False
    have "length r \<le> cap' - length resp - 1" by (auto simp: r_def client_read_def min_def)
    then have "length (resp @ r) < cap'" using room by simp
    then have "read_body c (k + 1) cap' (resp @ r) = Some (hc_body c)"
      using "1.IH" [OF g r_def False "1.prems"(1)] client_read_append [OF "1.prems"(2)] by (simp add: r_def)
    then show ?thesis using g False by (simp add: read_body.simps [of c k cap] Let_def r_def)
  qed
qed

text \<open>C35: The reply is read whole, however the peer cuts it up. Reading ends for every connection, and
  gives nothing or a prefix of what the peer sent; when no read fails and memory suffices it gives all
  of it, also when the length was not announced.\<close>

theorem http_reply_whole:
  assumes "hc_init c" and "hc_open c = ESP_OK" and "hc_write c \<ge> 0"
  shows "(conn_good c \<longrightarrow> http_post_json c st0 = (Some (cstr (hc_body c)), hc_status c)) \<and>
    (case fst (http_post_json c st0) of None \<Rightarrow> True | Some r \<Rightarrow> \<exists>body. prefix body (hc_body c) \<and> r = cstr body)"
proof (intro conjI impI)
  assume g: "conn_good c"
  then have "first_cap c \<le> max 512 (2 * length (hc_body c) + 2)" by (auto simp: conn_good_def first_cap_def)
  then have "block_ok c (first_cap c)" using g unfolding conn_good_def by blast
  then show "http_post_json c st0 = (Some (cstr (hc_body c)), hc_status c)"
    using assms read_body_whole [OF g, of "[]" "first_cap c" 0] by (simp add: http_post_json_def first_cap_def)
next
  show "case fst (http_post_json c st0) of None \<Rightarrow> True | Some r \<Rightarrow> \<exists>body. prefix body (hc_body c) \<and> r = cstr body"
    using assms read_body_prefix [of c 0 "first_cap c" "[]"] by (auto simp: http_post_json_def split: option.splits)
qed

text \<open>A chunked reply without a length, seven bytes at a time.\<close>

definition demo_conn :: "string \<Rightarrow> http_conn" where
  "demo_conn body = \<lparr>hc_init = True, hc_open = ESP_OK, hc_write = 10, hc_clen = 0, hc_status = 200, hc_body = body,
     hc_more = (\<lambda>k. 6), hc_fail = (\<lambda>k. False), hc_heap = 2 * length body + 512, hc_alloc = (\<lambda>n. True)\<rparr>"

lemma demo_conn_good: "conn_good (demo_conn body)"
  by (auto simp: conn_good_def demo_conn_def block_ok_def)

theorem http_reply_whole_witness:
  "http_post_json (demo_conn ''{ status: ok, state: active }'') 0 = (Some ''{ status: ok, state: active }'', 200)"
proof -
  let ?c = "demo_conn ''{ status: ok, state: active }''"
  have o: "hc_init ?c" "hc_open ?c = ESP_OK" "hc_write ?c \<ge> 0" by (simp_all add: demo_conn_def)
  have "http_post_json ?c 0 = (Some (cstr (hc_body ?c)), hc_status ?c)"
    using http_reply_whole [OF o] demo_conn_good by blast
  then show ?thesis by (simp add: demo_conn_def cstr_def)
qed

end
