(* ===== verification/Telemetry_Json.thy ===== *)
theory Telemetry_Json
  imports Text_Format Ntrip_Ingest
begin

text \<open>
  The telemetry member of the heartbeat (\<open>src/main/telemetry_json.c\<close>): the counters of the send path
  printed as one JSON member into a buffer of the caller, all or nothing. \<open>None\<close> is a null pointer;
  the outer \<open>None\<close> of a result is a write outside the caller's memory.
\<close>

abbreviation TELEMETRY_TX_JSON_MAX :: nat where "TELEMETRY_TX_JSON_MAX \<equiv> 640"

definition json_bool :: "bool \<Rightarrow> string" where
  "json_bool b = (if b then ''true'' else ''false'')"

text \<open>The members, in the order of the format string.\<close>

definition tx_members :: "ntrip_tx_totals \<Rightarrow> u32 \<Rightarrow> (string \<times> string) list" where
  "tx_members t uart_event_post_drops =
     [(''frames_ok'', dec (unat (to_frames_ok t))),
      (''bytes_ok'', dec (unat (to_bytes_ok t))),
      (''bytes_discarded'', dec (unat (to_bytes_discarded t))),
      (''crc_errors'', dec (unat (to_crc_errors t))),
      (''accepted_to_lwip'', dec (unat (to_accepted t))),
      (''sent_frames'', dec (unat (to_sent_frames t))),
      (''dropped_bytes'', dec (unat (to_dropped t))),
      (''skipped_bytes'', dec (unat (to_skipped t))),
      (''dropped_stale_bytes'', dec (unat (to_stale t))),
      (''eagain'', dec (unat (to_eagain t))),
      (''reconnects'', dec (unat (to_reconnects t))),
      (''max_queue_age_ms'', dec (unat (to_max_queue_age t))),
      (''instances'', dec (unat (to_instances t))),
      (''connected'', dec (unat (to_connected t))),
      (''uart_event_post_drops'', dec (unat uart_event_post_drops)),
      (''req_fresh'', json_bool (to_req_fresh t)),
      (''req_missing'', dec (unat (to_req_missing t)))]"

fun json_members :: "(string \<times> string) list \<Rightarrow> string" where
  "json_members [] = []"
| "json_members [(k, v)] = CHR 0x22 # k @ CHR 0x22 # CHR '':'' # v"
| "json_members ((k, v) # ms) = CHR 0x22 # k @ CHR 0x22 # CHR '':'' # v @ CHR '','' # json_members ms"

definition tx_json_text :: "ntrip_tx_totals \<Rightarrow> u32 \<Rightarrow> string" where
  "tx_json_text t drops =
     CHR 0x22 # ''tx'' @ CHR 0x22 # '':{'' @ json_members (tx_members t drops) @ ''}''"

definition telemetry_tx_json ::
  "string option \<Rightarrow> nat \<Rightarrow> ntrip_tx_totals option \<Rightarrow> u32 \<Rightarrow> (int \<times> string option) option" where
  "telemetry_tx_json dst cap t drops =
     (case (dst, t) of
        (Some d, Some t) \<Rightarrow>
          let text = tx_json_text t drops; n = snprintf_n text; local = snprintf_buf TELEMETRY_TX_JSON_MAX text
          in if n = 0 \<or> n \<ge> TELEMETRY_TX_JSON_MAX then Some (-1, dst)
             else if n \<ge> cap then Some (-1, dst)
             else map_option (\<lambda>d. (int n, Some d)) (mem_write d 0 (local @ [CHR 0x00]))
      | _ \<Rightarrow> Some (-1, dst))"

section \<open>The text\<close>

lemma json_members_Cons:
  "ms \<noteq> [] \<Longrightarrow> json_members ((k, v) # ms) = CHR 0x22 # k @ CHR 0x22 # CHR '':'' # v @ CHR '','' # json_members ms"
  by (cases ms) simp_all

lemma json_members_length:
  "length (json_members ms) \<le> sum_list (map (\<lambda>(k, v). length k + length v + 4) ms)"
  by (induction ms rule: json_members.induct) auto

lemma tx_json_bound: "length (tx_json_text t drops) < TELEMETRY_TX_JSON_MAX"
proof -
  have b: "length (json_bool b) \<le> 5" for b by (simp add: json_bool_def)
  note long = dec_length_u64 [of "to_frames_ok t"] dec_length_u64 [of "to_bytes_ok t"] dec_length_u64 [of "to_bytes_discarded t"] dec_length_u64 [of "to_crc_errors t"] dec_length_u64 [of "to_accepted t"]
    dec_length_u64 [of "to_sent_frames t"] dec_length_u64 [of "to_dropped t"] dec_length_u64 [of "to_skipped t"] dec_length_u64 [of "to_stale t"] dec_length_u64 [of "to_eagain t"]
  note short = dec_length_u32 [of drops] dec_length_u32 [of "to_reconnects t"] dec_length_u32 [of "to_max_queue_age t"] dec_length_u32 [of "to_instances t"] dec_length_u32 [of "to_connected t"] dec_length_u32 [of "to_req_missing t"]
  have "sum_list (map (\<lambda>(k, v). length k + length v + 4) (tx_members t drops)) \<le> 550"
    using long short b [of "to_req_fresh t"] by (simp add: tx_members_def)
  then show ?thesis using json_members_length [of "tx_members t drops"] by (simp add: tx_json_text_def)
qed

text \<open>With the same keys and values free of commas, equal texts have equal values.\<close>

lemma json_members_inj:
  "map fst ms = map fst ns \<Longrightarrow> \<forall>v \<in> set (map snd ms) \<union> set (map snd ns). CHR '','' \<notin> set v \<Longrightarrow>
   json_members ms = json_members ns \<Longrightarrow> ms = ns"
proof (induction ms arbitrary: ns)
  case (Cons m ms)
  obtain k v where m: "m = (k, v)" by (cases m)
  obtain w rs where n: "ns = (k, w) # rs" "map fst ms = map fst rs" using Cons.prems(1) m by (cases ns) auto
  show ?case
  proof (cases "ms = []")
    case True
    then show ?thesis using Cons.prems(3) m n by simp
  next
    case False
    then have "rs \<noteq> []" using n(2) by auto
    then have "v @ CHR '','' # json_members ms = w @ CHR '','' # json_members rs"
      using Cons.prems(3) False m n(1) by (simp add: json_members_Cons)
    moreover have "CHR '','' \<notin> set v" "CHR '','' \<notin> set w" using Cons.prems(2) m n(1) by auto
    ultimately have "v = w" "json_members ms = json_members rs" by (simp_all add: append_sep_eq)
    then show ?thesis using Cons.IH [OF n(2)] Cons.prems(2) m n(1) by auto
  qed
qed simp

lemma json_bool_inj [simp]: "json_bool a = json_bool b \<longleftrightarrow> a = b"
  by (simp add: json_bool_def)

lemma tx_json_inj: "tx_json_text t d = tx_json_text u e \<Longrightarrow> t = u \<and> d = e"
proof -
  assume "tx_json_text t d = tx_json_text u e"
  then have e: "json_members (tx_members t d) = json_members (tx_members u e)" by (simp add: tx_json_text_def)
  have c: "CHR '','' \<notin> set (dec n)" "CHR '','' \<notin> set (json_bool b)" for n b
    by (simp_all add: dec_no json_bool_def)
  have "tx_members t d = tx_members u e"
    by (rule json_members_inj [OF _ _ e]) (simp_all add: tx_members_def c)
  then show ?thesis by (cases t; cases u) (simp add: tx_members_def)
qed

lemma telemetry_exact:
  assumes "length d = cap"
  shows "telemetry_tx_json (Some d) cap (Some t) drops =
    (let text = tx_json_text t drops; n = length text
     in if n < cap then Some (int n, Some (text @ CHR 0x00 # drop (n + 1) d)) else Some (-1, Some d))"
proof -
  have "tx_json_text t drops \<noteq> []" by (simp add: tx_json_text_def)
  then show ?thesis using assms tx_json_bound [of t drops] by (simp add: telemetry_tx_json_def Let_def snprintf_n_def)
qed

lemma json_members_no:
  "\<forall>(k, v) \<in> set ms. CHR 0x00 \<notin> set k \<and> CHR 0x00 \<notin> set v \<Longrightarrow> CHR 0x00 \<notin> set (json_members ms)"
  by (induction ms rule: json_members.induct) auto

lemma tx_json_no_nul: "CHR 0x00 \<notin> set (tx_json_text t drops)"
proof -
  have "\<not> is_digit CHR 0x00" by (simp add: is_digit_def less_eq_char_def)
  then have "CHR 0x00 \<notin> set (json_members (tx_members t drops))"
    by (intro json_members_no) (simp add: tx_members_def dec_no json_bool_def)
  then show ?thesis by (simp add: tx_json_text_def)
qed

section \<open>Properties\<close>

text \<open>The telemetry member is all or nothing, and says what the counters say. Whatever the values
  of the counters, the text is shorter than the builder's buffer of 640 bytes, so it is never cut.
  If it fits the caller's buffer with its terminator, exactly the whole text and the terminator are
  written and the length is returned; otherwise -1 is returned and the buffer is left as it was. No
  memory outside the buffer is touched, and different counters never give the same text.\<close>

theorem telemetry_all_or_nothing:
  assumes "length d = cap"
  shows "length (tx_json_text t drops) < TELEMETRY_TX_JSON_MAX \<and>
    telemetry_tx_json (Some d) cap (Some t) drops =
      (let text = tx_json_text t drops; n = length text
       in if n < cap then Some (int n, Some (text @ CHR 0x00 # drop (n + 1) d)) else Some (-1, Some d)) \<and>
    (\<forall>t' drops'. tx_json_text t' drops' = tx_json_text t drops \<longrightarrow> t' = t \<and> drops' = drops)"
  using tx_json_bound [of t drops] telemetry_exact [OF assms, of t drops] tx_json_inj by metis

definition demo_totals :: ntrip_tx_totals where
  "demo_totals = \<lparr>to_frames_ok = 12, to_bytes_ok = 18446744073709551615, to_bytes_discarded = 0, to_crc_errors = 0,
     to_accepted = 7, to_sent_frames = 0, to_dropped = 0, to_skipped = 0, to_stale = 0, to_eagain = 0,
     to_reconnects = 0, to_max_queue_age = 0, to_instances = 1, to_connected = 1, to_req_fresh = True, to_req_missing = 0\<rparr>"

theorem telemetry_all_or_nothing_witness:
  "telemetry_tx_json (Some (replicate 100 CHR ''x'')) 100 (Some demo_totals) 3 = Some (-1, Some (replicate 100 CHR ''x''))"
proof -
  have "\<not> length (tx_json_text demo_totals 3) < 100" by (simp add: tx_json_text_def tx_members_def demo_totals_def json_bool_def)
  then show ?thesis using telemetry_all_or_nothing [of "replicate 100 CHR ''x''" 100 demo_totals 3] by simp
qed

end
