(* ===== verification/Provisioning.thy ===== *)
theory Provisioning
  imports Http_Post Telemetry_Json Gnss_Control Supervisor
begin

text \<open>
  The provisioning client (\<open>src/main/provisioning.c\<close>): identity, enrolment, heartbeats, the effects of
  a reply, the task and the status page. JSON trees are read through the operations of the JSON
  library, an argument \<open>cjson\<close>; so are the keyed hash, the random nonce, the version text of the
  build, the storage, allocation failures, and one HTTP connection for each request. The receiver
  and the caster senders are the states of their components.
\<close>

section \<open>State and surroundings\<close>

text \<open>\<open>cj_int\<close> and \<open>cj_double\<close> are the two views of a number (\<open>valueint\<close>, \<open>valuedouble\<close>).\<close>

record 'j cjson =
  cj_parse :: "string \<Rightarrow> 'j option"
  cj_item :: "'j \<Rightarrow> string \<Rightarrow> 'j option"
  cj_string :: "'j \<Rightarrow> string option"
  cj_int :: "'j \<Rightarrow> int option"
  cj_double :: "'j \<Rightarrow> real option"
  cj_bool :: "'j \<Rightarrow> bool option"
  cj_is_object :: "'j \<Rightarrow> bool"

record ('s, 'j) penv =
  e_json :: "'j cjson"
  e_nvs :: "'s nvs"
  e_oom :: "string \<Rightarrow> bool"
  e_http :: "string \<Rightarrow> string \<Rightarrow> http_conn"
  e_hmac :: "string \<Rightarrow> string \<Rightarrow> u8 list option"
  e_fw :: string
  e_mac :: "u8 list"
  e_nonce :: u32
  e_health :: supervisor_health_t
  e_totals :: ntrip_tx_totals
  e_drops :: u32
  e_fmt :: "coord \<Rightarrow> string"
  e_ticks :: "u32 \<Rightarrow> u32"
  e_arr :: "nat \<Rightarrow> string list"
  e_bs :: base_store
  e_now :: int
  e_later :: int

abbreviation RTK_UNCLAIMED :: u8 where "RTK_UNCLAIMED \<equiv> 0"
abbreviation RTK_PROVISIONING :: u8 where "RTK_PROVISIONING \<equiv> 1"
abbreviation RTK_MATURING :: u8 where "RTK_MATURING \<equiv> 2"
abbreviation RTK_ACTIVE :: u8 where "RTK_ACTIVE \<equiv> 3"

abbreviation DEFAULT_POLL_S :: int where "DEFAULT_POLL_S \<equiv> 30"
abbreviation MIN_POLL_S :: int where "MIN_POLL_S \<equiv> 10"

record 's prov =
  pv_nvs :: 's
  pv_gnss :: gnss
  pv_server :: server
  pv_requests :: "(string \<times> string) list"
  s_device_id :: string
  s_mac :: string
  s_ie_host :: string
  s_token :: string
  s_enroll_key :: string
  s_key_ver :: u8
  s_poll_s :: int
  s_fixed_base_set :: bool
  st_state :: string
  st_progress_pct :: int
  st_matures_in_s :: int
  st_station_id :: string
  st_q_sats :: int
  st_q_fix :: int
  st_pos :: "coord option"
  st_enrolled :: bool

section \<open>Helpers\<close>

definition hex_nibble :: "bool \<Rightarrow> nat \<Rightarrow> char" where
  "hex_nibble upper n = char_of (if n < 10 then 48 + n else if upper then 55 + n else 87 + n)"

definition hex2 :: "bool \<Rightarrow> u8 \<Rightarrow> string" where
  "hex2 upper b = [hex_nibble upper (unat b div 16), hex_nibble upper (unat b mod 16)]"

definition hmac_sha256_hex :: "('s, 'j) penv \<Rightarrow> string \<Rightarrow> string \<Rightarrow> string" where
  "hmac_sha256_hex e key msg = (case e_hmac e key msg of None \<Rightarrow> [] | Some mac \<Rightarrow> concat (map (hex2 False) mac))"

definition post :: "('s, 'j) penv \<Rightarrow> string \<Rightarrow> string \<Rightarrow> 's prov \<Rightarrow> (string option \<times> int) \<times> 's prov" where
  "post e url body p = (http_post_json (e_http e url body) 0, p\<lparr>pv_requests := pv_requests p @ [(url, body)]\<rparr>)"

text \<open>Items of a tree; a missing tree has none.\<close>

definition jitem :: "('s, 'j) penv \<Rightarrow> 'j option \<Rightarrow> string \<Rightarrow> 'j option" where
  "jitem e j k = Option.bind j (\<lambda>j. cj_item (e_json e) j k)"

definition jstr :: "('s, 'j) penv \<Rightarrow> 'j option \<Rightarrow> string \<Rightarrow> string option" where
  "jstr e j k = Option.bind (jitem e j k) (cj_string (e_json e))"

definition jint :: "('s, 'j) penv \<Rightarrow> 'j option \<Rightarrow> string \<Rightarrow> int option" where
  "jint e j k = Option.bind (jitem e j k) (cj_int (e_json e))"

definition jdouble :: "('s, 'j) penv \<Rightarrow> 'j option \<Rightarrow> string \<Rightarrow> real option" where
  "jdouble e j k = Option.bind (jitem e j k) (cj_double (e_json e))"

definition jobj :: "('s, 'j) penv \<Rightarrow> 'j option \<Rightarrow> string \<Rightarrow> 'j option" where
  "jobj e j k = (case jitem e j k of None \<Rightarrow> None | Some o' \<Rightarrow> if cj_is_object (e_json e) o' then Some o' else None)"

text \<open>
  Storage by key. The result of a write is ignored; the item of a key outside the table is the fatal
  error of the lookup, which the keys used here never reach.
\<close>

definition put :: "(esp_err \<times> 's) \<Rightarrow> 's prov \<Rightarrow> 's prov" where
  "put r p = p\<lparr>pv_nvs := snd r\<rparr>"

definition set_str :: "('s, 'j) penv \<Rightarrow> string \<Rightarrow> string option \<Rightarrow> 's prov \<Rightarrow> 's prov" where
  "set_str e key val p = (case val of None \<Rightarrow> p | Some v \<Rightarrow> put (config_set_str (e_nvs e) key v (pv_nvs p)) p)"

definition commit :: "('s, 'j) penv \<Rightarrow> 's prov \<Rightarrow> 's prov" where
  "commit e p = put (config_commit (e_nvs e) (pv_nvs p)) p"

definition get_str :: "('s, 'j) penv \<Rightarrow> string \<Rightarrow> 's prov \<Rightarrow> string option" where
  "get_str e key p =
     (case snd (config_get_str_blob_alloc (e_oom e key) (e_nvs e) (CONF_ITEM key) (pv_nvs p)) of
        Some (NStr v) \<Rightarrow> Some v | _ \<Rightarrow> None)"

section \<open>Caster credentials\<close>

definition write_caster_creds :: "('s, 'j) penv \<Rightarrow> 'j option \<Rightarrow> 's prov \<Rightarrow> 's prov" where
  "write_caster_creds e caster p =
     (let p = set_str e ''ntr_srv_host'' (jstr e caster ''host'') p;
          p = (case jint e caster ''port'' of None \<Rightarrow> p
               | Some v \<Rightarrow> put (config_set_u16 (e_nvs e) ''ntr_srv_port'' (of_int v) (pv_nvs p)) p);
          p = set_str e ''ntr_srv_mp'' (jstr e caster ''mountpoint'') p;
          p = set_str e ''ntr_srv_user'' (jstr e caster ''username'') p;
          p = set_str e ''ntr_srv_pass'' (jstr e caster ''password'') p;
          p = put (config_set_bool1 (e_nvs e) ''ntr_srv_actv'' True (pv_nvs p)) p
      in commit e p)"

definition str_differs :: "('s, 'j) penv \<Rightarrow> string \<Rightarrow> string option \<Rightarrow> 's prov \<Rightarrow> bool" where
  "str_differs e key val p = (case val of None \<Rightarrow> False | Some v \<Rightarrow> get_str e key p \<noteq> Some v)"

definition caster_creds_differ :: "('s, 'j) penv \<Rightarrow> 'j option \<Rightarrow> 's prov \<Rightarrow> bool" where
  "caster_creds_differ e caster p \<longleftrightarrow>
     str_differs e ''ntr_srv_host'' (jstr e caster ''host'') p \<or>
     str_differs e ''ntr_srv_mp'' (jstr e caster ''mountpoint'') p \<or>
     str_differs e ''ntr_srv_user'' (jstr e caster ''username'') p \<or>
     str_differs e ''ntr_srv_pass'' (jstr e caster ''password'') p \<or>
     (case jint e caster ''port'' of None \<Rightarrow> False
      | Some v \<Rightarrow> config_get_u16 (e_nvs e) (CONF_ITEM ''ntr_srv_port'') (pv_nvs p) \<noteq> of_int v)"

section \<open>Identity\<close>

definition mac_text :: "u8 list \<Rightarrow> string" where
  "mac_text m = (case m of [] \<Rightarrow> [] | b # bs \<Rightarrow> hex2 True b @ concat (map (\<lambda>b. CHR '':'' # hex2 True b) bs))"

definition load_device_id :: "('s, 'j) penv \<Rightarrow> 's prov \<Rightarrow> 's prov" where
  "load_device_id e p =
     (case get_str e ''rtk_dev_id'' p of
        Some (c # cs) \<Rightarrow> p\<lparr>s_device_id := snprintf_buf 40 (c # cs)\<rparr>
      | _ \<Rightarrow>
          let p = p\<lparr>s_device_id := snprintf_buf 40 (''rtk-'' @ concat (map (hex2 False) (e_mac e)))\<rparr>
          in commit e (set_str e ''rtk_dev_id'' (Some (s_device_id p)) p))"

definition load_identity :: "('s, 'j) penv \<Rightarrow> 's prov \<Rightarrow> 's prov" where
  "load_identity e p =
     (let p = load_device_id e (p\<lparr>s_mac := snprintf_buf 18 (mac_text (e_mac e))\<rparr>);
          p = p\<lparr>s_ie_host := snprintf_buf 96
                 (case get_str e ''rtk_ie_host'' p of Some (c # cs) \<Rightarrow> c # cs | _ \<Rightarrow> ''integrity-engine.onrender.com'')\<rparr>;
          p = (case get_str e ''rtk_sta_tok'' p of Some tok \<Rightarrow> p\<lparr>s_token := snprintf_buf 96 tok\<rparr> | None \<Rightarrow> p);
          p = (case get_str e ''rtk_enr_key'' p of Some ek \<Rightarrow> p\<lparr>s_enroll_key := snprintf_buf 80 ek\<rparr> | None \<Rightarrow> p);
          p = p\<lparr>s_key_ver := config_get_u8 (e_nvs e) (CONF_ITEM ''rtk_key_ver'') (pv_nvs p)\<rparr>
      in if s_key_ver p = 0 then p\<lparr>s_key_ver := 1\<rparr> else p)"

section \<open>Enrolment\<close>

definition enroll_canon :: "('s, 'j) penv \<Rightarrow> 's prov \<Rightarrow> string" where
  "enroll_canon e p = s_device_id p @ ''|'' @ s_mac p @ ''|'' @ e_fw e @ ''|um980|'' @ dec (unat (e_nonce e))"

abbreviation QT :: string where "QT \<equiv> [CHR 0x22]"

definition jfield :: "string \<Rightarrow> string \<Rightarrow> string" where
  "jfield k v = QT @ k @ QT @ '':'' @ v"

definition jtext :: "string \<Rightarrow> string" where
  "jtext s = QT @ s @ QT"

definition enroll_body :: "('s, 'j) penv \<Rightarrow> 's prov \<Rightarrow> string \<Rightarrow> string" where
  "enroll_body e p hmac =
     ''{'' @ jfield ''device_id'' (jtext (s_device_id p)) @ '','' @ jfield ''mac'' (jtext (s_mac p)) @ '','' @
     jfield ''fw_version'' (jtext (e_fw e)) @ '','' @ jfield ''hw'' (jtext ''um980'') @ '','' @
     jfield ''nonce'' (dec (unat (e_nonce e))) @ '','' @ jfield ''key_version'' (dec (unat (s_key_ver p))) @ '','' @
     jfield ''hmac'' (jtext hmac) @ ''}''"

definition ie_url :: "string \<Rightarrow> 's prov \<Rightarrow> string" where
  "ie_url path p = ''https://'' @ s_ie_host p @ path"

definition enroll_accept :: "('s, 'j) penv \<Rightarrow> 'j option \<Rightarrow> string \<Rightarrow> 'j option \<Rightarrow> 's prov \<Rightarrow> 's prov" where
  "enroll_accept e caster tok tree p =
     (let p = write_caster_creds e caster p;
          p = p\<lparr>s_token := snprintf_buf 96 tok\<rparr>;
          p = set_str e ''rtk_sta_tok'' (Some (s_token p)) p;
          p = (case jint e tree ''ie_poll_s'' of None \<Rightarrow> p
               | Some v \<Rightarrow> if v \<ge> MIN_POLL_S then p\<lparr>s_poll_s := v\<rparr> else p);
          p = put (config_set_u8 (e_nvs e) ''rtk_state'' RTK_PROVISIONING (pv_nvs p)) p;
          p = commit e p
      in p\<lparr>pv_server := ntrip_server_reconnect_all (pv_server p)\<rparr>)"

definition enroll :: "('s, 'j) penv \<Rightarrow> 's prov \<Rightarrow> bool \<times> 's prov" where
  "enroll e p =
     (if s_enroll_key p = [] then (False, p)
      else let hmac = hmac_sha256_hex e (s_enroll_key p) (snprintf_buf 256 (enroll_canon e p));
               body = snprintf_buf 512 (enroll_body e p hmac);
               url = snprintf_buf 160 (ie_url ''/api/edge/enroll'' p);
               ((resp, status), p) = post e url body p
           in (case resp of None \<Rightarrow> (False, p)
               | Some r \<Rightarrow>
                   if status \<noteq> 200 then (False, p)
                   else (case cj_parse (e_json e) r of None \<Rightarrow> (False, p)
                         | Some tree \<Rightarrow>
                             (case (jobj e (Some tree) ''caster'', jstr e (Some tree) ''station_token'') of
                                (Some caster, Some tok) \<Rightarrow> (True, enroll_accept e (Some caster) tok (Some tree) p)
                              | _ \<Rightarrow> (False, p)))))"

section \<open>Heartbeat\<close>

definition reply_position :: "('s, 'j) penv \<Rightarrow> 'j option \<Rightarrow> coord option" where
  "reply_position e tree =
     (case jobj e tree ''position'' of None \<Rightarrow> None
      | Some pos \<Rightarrow>
          (case (Option.bind (jitem e (Some pos) ''valid'') (cj_bool (e_json e)), jdouble e (Some pos) ''lat'',
                 jdouble e (Some pos) ''lon'', jdouble e (Some pos) ''h'') of
             (Some True, Some la, Some lo, Some he) \<Rightarrow> Some (la, lo, he)
           | _ \<Rightarrow> None))"

definition keep :: "'a option \<Rightarrow> 'a \<Rightarrow> 'a" where
  "keep new old = (case new of Some v \<Rightarrow> v | None \<Rightarrow> old)"

definition reply_status :: "('s, 'j) penv \<Rightarrow> 'j option \<Rightarrow> 's prov \<Rightarrow> 's prov" where
  "reply_status e tree p =
     (let p = p\<lparr>st_state := keep (map_option (snprintf_buf 16) (jstr e tree ''state'')) (st_state p),
                st_progress_pct := keep (jint e tree ''progress_pct'') (st_progress_pct p),
                st_matures_in_s := keep (jint e tree ''matures_in_s'') (st_matures_in_s p),
                st_station_id := keep (map_option (snprintf_buf 40) (jstr e tree ''station_id'')) (st_station_id p)\<rparr>;
          p = (case jobj e tree ''quality'' of None \<Rightarrow> p
               | Some q \<Rightarrow> p\<lparr>st_q_sats := keep (jint e (Some q) ''sats'') (st_q_sats p),
                              st_q_fix := keep (jint e (Some q) ''fix'') (st_q_fix p)\<rparr>)
      in case reply_position e tree of None \<Rightarrow> p | Some f \<Rightarrow> p\<lparr>st_pos := Some f\<rparr>)"

definition reply_fix :: "('s, 'j) penv \<Rightarrow> 'j option \<Rightarrow> 's prov \<Rightarrow> 's prov" where
  "reply_fix e tree p =
     (case reply_position e tree of None \<Rightarrow> p
      | Some f \<Rightarrow>
          let (ok, g) = gnss_set_fixed_base (e_fmt e) (e_arr e) (e_bs e) (e_now e) (e_later e) f (pv_gnss p)
          in p\<lparr>pv_gnss := g, s_fixed_base_set := ok\<rparr>)"

definition reply_caster :: "('s, 'j) penv \<Rightarrow> 'j option \<Rightarrow> 's prov \<Rightarrow> 's prov" where
  "reply_caster e tree p =
     (case jobj e tree ''config_delta'' of None \<Rightarrow> p
      | Some delta \<Rightarrow>
          (case jobj e (Some delta) ''caster'' of None \<Rightarrow> p
           | Some caster \<Rightarrow>
               if caster_creds_differ e (Some caster) p
               then let p = write_caster_creds e (Some caster) p
                    in p\<lparr>pv_server := ntrip_server_reconnect_all (pv_server p)\<rparr>
               else p))"

definition reply_state :: "('s, 'j) penv \<Rightarrow> 'j option \<Rightarrow> 's prov \<Rightarrow> 's prov" where
  "reply_state e tree p =
     (case jstr e tree ''state'' of None \<Rightarrow> p
      | Some st \<Rightarrow>
          let v = (if st = ''maturing'' then RTK_MATURING else if st = ''active'' then RTK_ACTIVE else RTK_PROVISIONING)
          in commit e (put (config_set_u8 (e_nvs e) ''rtk_state'' v (pv_nvs p)) p))"

definition apply_reply :: "('s, 'j) penv \<Rightarrow> 'j option \<Rightarrow> 's prov \<Rightarrow> 's prov" where
  "apply_reply e tree p = reply_state e tree (reply_caster e tree (reply_fix e tree (reply_status e tree p)))"

definition heartbeat_canon :: "('s, 'j) penv \<Rightarrow> 's prov \<Rightarrow> string" where
  "heartbeat_canon e p = s_device_id p @ ''|'' @ dec (unat (h_uptime_s (e_health e))) @ ''|'' @ dec (unat (e_nonce e))"

definition heartbeat_body :: "('s, 'j) penv \<Rightarrow> 's prov \<Rightarrow> string \<Rightarrow> string \<Rightarrow> string \<Rightarrow> string" where
  "heartbeat_body e p tx_sep tx_json hmac =
     (let h = e_health e; num = (\<lambda>k w. jfield k (dec (unat (w :: u32)))); flag = (\<lambda>k b. jfield k (json_bool b)) in
      ''{'' @ jfield ''device_id'' (jtext (s_device_id p)) @ '','' @ jfield ''station_token'' (jtext (s_token p)) @ '','' @
      num ''uptime'' (h_uptime_s h) @ '','' @ jfield ''health'' (''{'' @ jfield ''fw'' (jtext (e_fw e)) @ '','' @
      num ''gnss_silent_s'' (h_gnss_silent_s h) @ '','' @ num ''caster_silent_s'' (h_caster_silent_s h) @ '','' @
      num ''ip_down_s'' (h_ip_down_s h) @ '','' @
      flag ''gnss_ok'' (h_gnss_ok h) @ '','' @ flag ''caster_ok'' (h_caster_ok h) @ '','' @ flag ''link_ok'' (h_link_ok h) @ '','' @
      num ''rec_gnss'' (h_recoveries_gnss h) @ '','' @ num ''rec_caster'' (h_recoveries_caster h) @ '','' @
      num ''rec_wifi'' (h_recoveries_wifi h) @ '','' @ num ''reboots'' (h_reboots_supervised h) @
      tx_sep @ tx_json @ ''}'') @ '','' @
      num ''nonce'' (e_nonce e) @ '','' @ jfield ''hmac'' (jtext hmac) @ ''}'')"

text \<open>The telemetry member and the separator before it; both empty when it could not be built.\<close>

definition heartbeat_tx :: "('s, 'j) penv \<Rightarrow> string \<times> string" where
  "heartbeat_tx e =
     (case telemetry_tx_json (Some (replicate TELEMETRY_TX_JSON_MAX CHR 0x00)) TELEMETRY_TX_JSON_MAX (Some (e_totals e)) (e_drops e) of
        Some (n, Some d) \<Rightarrow> if n < 0 then ([], []) else ('','', cstr d)
      | _ \<Rightarrow> ([], []))"

definition heartbeat :: "('s, 'j) penv \<Rightarrow> 's prov \<Rightarrow> 's prov" where
  "heartbeat e p =
     (let hmac = hmac_sha256_hex e (s_token p) (snprintf_buf 160 (heartbeat_canon e p));
          (tx_sep, tx_json) = heartbeat_tx e;
          text = heartbeat_body e p tx_sep tx_json hmac;
          n = snprintf_n text; body = snprintf_buf 1536 text
      in if n = 0 \<or> n \<ge> 1536 then p
         else let url = snprintf_buf 160 (ie_url ''/api/edge/heartbeat'' p);
                  ((resp, status), p) = post e url body p
              in case resp of None \<Rightarrow> p
                 | Some r \<Rightarrow>
                     if status \<noteq> 200 then p
                     else (case cj_parse (e_json e) r of None \<Rightarrow> p | Some tree \<Rightarrow> apply_reply e (Some tree) p))"

section \<open>The task\<close>

text \<open>The start of the task, one pass of its loop (with the delay in milliseconds after it), and the start of the module.\<close>

definition provisioning_start :: "('s, 'j) penv \<Rightarrow> 's prov \<Rightarrow> u8 \<times> 's prov" where
  "provisioning_start e p =
     (let p = load_identity e p;
          state = config_get_u8 (e_nvs e) (CONF_ITEM ''rtk_state'') (pv_nvs p)
      in (state, p\<lparr>st_state := (if state \<ge> RTK_MATURING then ''maturing'' else ''provisioning''),
                   st_enrolled := (state \<ge> RTK_PROVISIONING)\<rparr>))"

text \<open>A delay: the milliseconds are a 32-bit \<open>int\<close>, as is the product of the poll interval with a thousand,
  which wraps for a long interval (undefined in C; what the target's multiplication yields). The
  conversion to ticks is a macro of the operating system, an argument.\<close>

definition delay_ms :: "('s, 'j) penv \<Rightarrow> int \<Rightarrow> u32" where
  "delay_ms e ms = e_ticks e (word_of_int ms)"

definition provisioning_pass :: "('s, 'j) penv \<Rightarrow> u8 \<times> 's prov \<Rightarrow> u32 \<times> u8 \<times> 's prov" where
  "provisioning_pass e sp =
     (case sp of (state, p) \<Rightarrow>
        if state < RTK_PROVISIONING
        then let (ok, p) = enroll e p
             in if ok then (delay_ms e (s_poll_s p * 1000), RTK_PROVISIONING, p\<lparr>st_enrolled := True\<rparr>) else (delay_ms e 15000, state, p)
        else let p = heartbeat e p
             in (delay_ms e (s_poll_s p * 1000), config_get_u8 (e_nvs e) (CONF_ITEM ''rtk_state'') (pv_nvs p), p))"

definition provisioning_init :: "'s \<Rightarrow> gnss \<Rightarrow> server \<Rightarrow> 's prov" where
  "provisioning_init s g v =
     \<lparr>pv_nvs = s, pv_gnss = g, pv_server = v, pv_requests = [], s_device_id = [], s_mac = [], s_ie_host = [], s_token = [],
      s_enroll_key = [], s_key_ver = 1, s_poll_s = DEFAULT_POLL_S, s_fixed_base_set = False, st_state = ''provisioning'',
      st_progress_pct = 0, st_matures_in_s = 0, st_station_id = [], st_q_sats = 0, st_q_fix = 0, st_pos = None,
      st_enrolled = False\<rparr>"

section \<open>The status page\<close>

datatype jout = JText string | JInt int | JReal real | JFlag bool | JObject "(string \<times> jout) list"

text \<open>\<open>None\<close> stands for a status asked for before the module was started.\<close>

definition provisioning_fill_status :: "supervisor_health_t \<Rightarrow> 's prov option \<Rightarrow> (string \<times> jout) list" where
  "provisioning_fill_status h po =
     (case po of None \<Rightarrow> [(''state'', JText ''provisioning''), (''enrolled'', JFlag False)]
      | Some p \<Rightarrow>
          [(''state'', JText (if st_state p \<noteq> [] then st_state p else ''provisioning'')),
           (''progress_pct'', JInt (st_progress_pct p)), (''matures_in_s'', JInt (st_matures_in_s p))] @
          (if st_station_id p \<noteq> [] then [(''station_id'', JText (st_station_id p))] else []) @
          [(''enrolled'', JFlag (st_enrolled p)),
           (''quality'', JObject [(''sats'', JInt (st_q_sats p)), (''fix'', JInt (st_q_fix p))])] @
          (case st_pos p of None \<Rightarrow> []
           | Some (lat, lon, h) \<Rightarrow> [(''position'', JObject [(''valid'', JFlag True), (''lat'', JReal lat), (''lon'', JReal lon), (''h'', JReal h)])]) @
          [(''data_ok'', JFlag (h_caster_ok h)), (''uptime_s'', JInt (uint (h_uptime_s h))),
           (''self_heal'', JObject [(''gnss_ok'', JFlag (h_gnss_ok h)), (''caster_ok'', JFlag (h_caster_ok h)),
              (''link_ok'', JFlag (h_link_ok h)), (''rec_gnss'', JInt (uint (h_recoveries_gnss h))),
              (''rec_caster'', JInt (uint (h_recoveries_caster h))), (''rec_wifi'', JInt (uint (h_recoveries_wifi h))),
              (''reboots'', JInt (uint (h_reboots_supervised h)))])])"

section \<open>Stored credentials\<close>

named_theorems prov_simps

definition rd :: "('s, 'j) penv \<Rightarrow> 's prov \<Rightarrow> string \<Rightarrow> ntype \<Rightarrow> esp_err + nval" where
  "rd e p k ty = nvs_get (e_nvs e) (pv_nvs p) k ty"

text \<open>A storage that keeps its documented promises and never refuses a write.\<close>

definition reliable :: "'s nvs \<Rightarrow> bool" where
  "reliable nvs \<longleftrightarrow> nvs_laws nvs \<and> (\<forall>s k v. fst (nvs_set nvs s k v) = ESP_OK)"

lemma reliable_set:
  assumes "reliable nvs"
  shows "nvs_get nvs (snd (nvs_set nvs s k v)) k (ntype_of v) = Inr v"
    and "k' \<noteq> k \<Longrightarrow> nvs_get nvs (snd (nvs_set nvs s k v)) k' ty = nvs_get nvs s k' ty"
proof -
  have "nvs_set nvs s k v = (ESP_OK, snd (nvs_set nvs s k v))" using assms by (metis reliable_def prod.collapse)
  then show "nvs_get nvs (snd (nvs_set nvs s k v)) k (ntype_of v) = Inr v"
    "k' \<noteq> k \<Longrightarrow> nvs_get nvs (snd (nvs_set nvs s k v)) k' ty = nvs_get nvs s k' ty"
    using assms nvs_lawsD(2,3) by (metis reliable_def)+
qed

lemma rd_set_str:
  "reliable (e_nvs e) \<Longrightarrow> k' \<noteq> k \<Longrightarrow> rd e (set_str e k v p) k' ty = rd e p k' ty"
  "reliable (e_nvs e) \<Longrightarrow> rd e (set_str e k v p) k TStr = (case v of None \<Rightarrow> rd e p k TStr | Some x \<Rightarrow> Inr (NStr x))"
  using reliable_set(1) [of "e_nvs e" "pv_nvs p" k "NStr (the v)"]
  by (auto simp: rd_def set_str_def put_def config_set_str_def reliable_set(2) split: option.splits)

lemma rd_put:
  "reliable (e_nvs e) \<Longrightarrow> k' \<noteq> k \<Longrightarrow> rd e (put (nvs_set (e_nvs e) (pv_nvs p) k v) p) k' ty = rd e p k' ty"
  "reliable (e_nvs e) \<Longrightarrow> rd e (put (nvs_set (e_nvs e) (pv_nvs p) k v) p) k (ntype_of v) = Inr v"
  by (simp_all add: rd_def put_def reliable_set)

lemma rd_put_num:
  "reliable (e_nvs e) \<Longrightarrow> rd e (put (nvs_set (e_nvs e) (pv_nvs p) k (NU16 w)) p) k TU16 = Inr (NU16 w)"
  "reliable (e_nvs e) \<Longrightarrow> rd e (put (nvs_set (e_nvs e) (pv_nvs p) k (NU8 b)) p) k TU8 = Inr (NU8 b)"
  using rd_put(2) [of e p k "NU16 w"] rd_put(2) [of e p k "NU8 b"] by simp_all

lemma rd_commit: "reliable (e_nvs e) \<Longrightarrow> rd e (commit e p) k ty = rd e p k ty"
  by (simp add: rd_def commit_def put_def config_commit_def nvs_lawsD(6) reliable_def)

lemma rd_server [simp]: "rd e (p\<lparr>pv_server := v\<rparr>) k ty = rd e p k ty"
  by (simp add: rd_def)

lemmas rd_simps = rd_set_str rd_put rd_put_num rd_commit config_set_u16_def config_set_bool1_def config_set_u8_def

lemma conf_items:
  "CONF_ITEM ''ntr_srv_host'' = cfg_item ''ntr_srv_host'' TYPE_STRING False 0 []"
  "CONF_ITEM ''ntr_srv_mp'' = cfg_item ''ntr_srv_mp'' TYPE_STRING False 0 []"
  "CONF_ITEM ''ntr_srv_user'' = cfg_item ''ntr_srv_user'' TYPE_STRING False 0 []"
  "CONF_ITEM ''ntr_srv_pass'' = cfg_item ''ntr_srv_pass'' TYPE_STRING True 0 []"
  "CONF_ITEM ''ntr_srv_port'' = cfg_item ''ntr_srv_port'' TYPE_UINT16 False 2101 []"
  "CONF_ITEM ''rtk_state'' = cfg_item ''rtk_state'' TYPE_UINT8 False 0 []"
  by code_simp+

lemma get_str_rd:
  "\<not> e_oom e k \<Longrightarrow> ci_type (CONF_ITEM k) = TYPE_STRING \<Longrightarrow> ci_key (CONF_ITEM k) = k \<Longrightarrow>
   rd e p k TStr = Inr (NStr v) \<Longrightarrow> get_str e k p = Some v"
  by (simp add: get_str_def config_get_str_blob_alloc_def config_get_str_blob_def rd_def)

text \<open>What is stored agrees with what the reply says about the caster.\<close>

definition caster_stored :: "('s, 'j) penv \<Rightarrow> 'j option \<Rightarrow> 's prov \<Rightarrow> bool" where
  "caster_stored e caster p \<longleftrightarrow>
     (\<forall>v. jstr e caster ''host'' = Some v \<longrightarrow> rd e p ''ntr_srv_host'' TStr = Inr (NStr v)) \<and>
     (\<forall>v. jstr e caster ''mountpoint'' = Some v \<longrightarrow> rd e p ''ntr_srv_mp'' TStr = Inr (NStr v)) \<and>
     (\<forall>v. jstr e caster ''username'' = Some v \<longrightarrow> rd e p ''ntr_srv_user'' TStr = Inr (NStr v)) \<and>
     (\<forall>v. jstr e caster ''password'' = Some v \<longrightarrow> rd e p ''ntr_srv_pass'' TStr = Inr (NStr v)) \<and>
     (\<forall>v. jint e caster ''port'' = Some v \<longrightarrow> rd e p ''ntr_srv_port'' TU16 = Inr (NU16 (of_int v)))"

lemma write_stores: "reliable (e_nvs e) \<Longrightarrow> caster_stored e caster (write_caster_creds e caster p)"
  by (auto simp: caster_stored_def write_caster_creds_def Let_def rd_simps split: option.splits)

lemma ucast_back [simp]: "ucast (ucast (w :: u16) :: u64) = w" "ucast (ucast (b :: u8) :: u64) = b"
  by (rule bit_word_eqI; auto simp: bit_ucast_iff dest: bit_imp_le_length)+

text \<open>The four stored texts can be copied for the comparison.\<close>

definition caster_copies :: "('s, 'j) penv \<Rightarrow> bool" where
  "caster_copies e \<longleftrightarrow> list_all (\<lambda>k. \<not> e_oom e k) [''ntr_srv_host'', ''ntr_srv_mp'', ''ntr_srv_user'', ''ntr_srv_pass'']"

lemma stored_no_differ:
  "caster_stored e caster p \<Longrightarrow> caster_copies e \<Longrightarrow> \<not> caster_creds_differ e caster p"
  by (auto simp: caster_copies_def caster_stored_def caster_creds_differ_def str_differs_def conf_items cfg_item_def get_str_rd
      config_get_u16_def get_over_def rd_def split: option.splits)

section \<open>A repeated reply\<close>

lemma reply_status_same [simp]:
  "pv_nvs (reply_status e tree p) = pv_nvs p" "pv_gnss (reply_status e tree p) = pv_gnss p"
  "pv_server (reply_status e tree p) = pv_server p" "pv_requests (reply_status e tree p) = pv_requests p"
  by (simp_all add: reply_status_def Let_def split: option.splits)

lemma reply_fix_same [simp]:
  "pv_nvs (reply_fix e tree p) = pv_nvs p" "pv_server (reply_fix e tree p) = pv_server p"
  "pv_requests (reply_fix e tree p) = pv_requests p"
  by (simp_all add: reply_fix_def split_beta Let_def split: option.splits)

lemma set_str_same [simp]:
  "pv_gnss (set_str e k v p) = pv_gnss p" "pv_server (set_str e k v p) = pv_server p" "pv_requests (set_str e k v p) = pv_requests p"
  "pv_gnss (put r p) = pv_gnss p" "pv_server (put r p) = pv_server p" "pv_requests (put r p) = pv_requests p"
  "pv_gnss (commit e p) = pv_gnss p" "pv_server (commit e p) = pv_server p" "pv_requests (commit e p) = pv_requests p"
  by (simp_all add: set_str_def put_def commit_def split: option.splits)

lemma write_same [simp]:
  "pv_gnss (write_caster_creds e caster p) = pv_gnss p" "pv_server (write_caster_creds e caster p) = pv_server p"
  "pv_requests (write_caster_creds e caster p) = pv_requests p"
  by (simp_all add: write_caster_creds_def Let_def split: option.splits)

lemma reply_caster_same [simp]:
  "pv_gnss (reply_caster e tree p) = pv_gnss p" "pv_requests (reply_caster e tree p) = pv_requests p"
  by (simp_all add: reply_caster_def Let_def split: option.splits)

lemma reply_state_same [simp]:
  "pv_gnss (reply_state e tree p) = pv_gnss p" "pv_server (reply_state e tree p) = pv_server p"
  "pv_requests (reply_state e tree p) = pv_requests p"
  by (simp_all add: reply_state_def Let_def split: option.splits)

lemma rd_cong: "pv_nvs p = pv_nvs q \<Longrightarrow> rd e p = rd e q"
  by (simp add: rd_def fun_eq_iff)

lemma rd_reply_state: "reliable (e_nvs e) \<Longrightarrow> k \<noteq> ''rtk_state'' \<Longrightarrow> rd e (reply_state e tree p) k ty = rd e p k ty"
  by (simp add: reply_state_def rd_simps Let_def split: option.splits)

text \<open>The caster of a reply, and whether the storage agrees with it.\<close>

definition reply_caster_item :: "('s, 'j) penv \<Rightarrow> 'j option \<Rightarrow> 'j option" where
  "reply_caster_item e tree = Option.bind (jobj e tree ''config_delta'') (\<lambda>d. jobj e (Some d) ''caster'')"

text \<open>A later look with the same JSON library and storage; allocations may fail.\<close>

definition later_env :: "('s, 'j) penv \<Rightarrow> ('s, 'j) penv \<Rightarrow> bool" where
  "later_env e e' \<longleftrightarrow> e_json e' = e_json e \<and> e_nvs e' = e_nvs e"

lemma later_json:
  assumes "later_env e e'"
  shows "jstr e' = jstr e" "jint e' = jint e" "jobj e' = jobj e" "reply_position e' = reply_position e"
    "reply_caster_item e' = reply_caster_item e" "rd e' = rd e"
  using assms
  by (simp_all add: later_env_def fun_eq_iff jstr_def jint_def jobj_def jdouble_def jitem_def reply_position_def
      reply_caster_item_def rd_def cong: option.case_cong)

lemma get_str_by_rd:
  "ci_type (CONF_ITEM k) = TYPE_STRING \<Longrightarrow> ci_key (CONF_ITEM k) = k \<Longrightarrow>
   get_str e k p = (if e_oom e k then None else case rd e p k TStr of Inr (NStr v) \<Rightarrow> Some v | Inr _ \<Rightarrow> None
     | Inl err \<Rightarrow> if err = ESP_ERR_NVS_NOT_FOUND then Some (ci_str (CONF_ITEM k)) else None)"
  by (cases "rd e p k TStr")
    (simp_all add: get_str_def config_get_str_blob_alloc_def config_get_str_blob_def rd_def not_found_ok_def split: nval.splits)

lemma get_str_later:
  "get_str e k p = Some v \<Longrightarrow> later_env e e' \<Longrightarrow> \<not> e_oom e' k \<Longrightarrow> ci_type (CONF_ITEM k) = TYPE_STRING \<Longrightarrow> ci_key (CONF_ITEM k) = k \<Longrightarrow>
   rd e q k TStr = rd e p k TStr \<Longrightarrow> get_str e' k q = Some v"
  by (simp add: get_str_by_rd later_json(6) split: if_splits)

lemma differ_later:
  assumes "\<not> caster_creds_differ e caster p" "later_env e e'" "caster_copies e'"
    and "\<And>k ty. k \<noteq> ''rtk_state'' \<Longrightarrow> rd e q k ty = rd e p k ty"
  shows "\<not> caster_creds_differ e' caster q"
proof -
  have s: "\<not> str_differs e' k v q" if "\<not> str_differs e k v p" "ci_type (CONF_ITEM k) = TYPE_STRING"
    "ci_key (CONF_ITEM k) = k" "k \<noteq> ''rtk_state''" "\<not> e_oom e' k" for k v
  proof (cases v)
    case (Some x)
    then have "get_str e k p = Some x" using that(1) by (simp add: str_differs_def split: option.splits)
    from get_str_later [OF this assms(2) that(5,2,3) assms(4) [OF that(4)]] Some show ?thesis by (simp add: str_differs_def)
  qed (simp add: str_differs_def)
  have "config_get_u16 (e_nvs e') (CONF_ITEM ''ntr_srv_port'') (pv_nvs q) = config_get_u16 (e_nvs e) (CONF_ITEM ''ntr_srv_port'') (pv_nvs p)"
    using assms(2) assms(4) [of "''ntr_srv_port''" TU16]
    by (simp add: config_get_u16_def get_over_def rd_def conf_items cfg_item_def later_env_def)
  moreover have "\<not> str_differs e' ''ntr_srv_host'' v q" if "\<not> str_differs e ''ntr_srv_host'' v p" for v
    by (rule s [OF that]) (use assms(3) in \<open>simp_all add: conf_items cfg_item_def caster_copies_def\<close>)
  moreover have "\<not> str_differs e' ''ntr_srv_mp'' v q" if "\<not> str_differs e ''ntr_srv_mp'' v p" for v
    by (rule s [OF that]) (use assms(3) in \<open>simp_all add: conf_items cfg_item_def caster_copies_def\<close>)
  moreover have "\<not> str_differs e' ''ntr_srv_user'' v q" if "\<not> str_differs e ''ntr_srv_user'' v p" for v
    by (rule s [OF that]) (use assms(3) in \<open>simp_all add: conf_items cfg_item_def caster_copies_def\<close>)
  moreover have "\<not> str_differs e' ''ntr_srv_pass'' v q" if "\<not> str_differs e ''ntr_srv_pass'' v p" for v
    by (rule s [OF that]) (use assms(3) in \<open>simp_all add: conf_items cfg_item_def caster_copies_def\<close>)
  ultimately show ?thesis using assms(1) later_json(1,2) [OF assms(2)] unfolding caster_creds_differ_def by metis
qed

lemma reply_caster_settles:
  assumes "reliable (e_nvs e)" "later_env e e'" "reply_caster_item e tree = Some caster" "caster_copies e'"
    and "\<And>k ty. k \<noteq> ''rtk_state'' \<Longrightarrow> rd e q k ty = rd e (reply_caster e tree p) k ty"
  shows "\<not> caster_creds_differ e' (Some caster) q"
proof -
  obtain d where d: "jobj e tree ''config_delta'' = Some d" "jobj e (Some d) ''caster'' = Some caster"
    using assms(3) by (auto simp: reply_caster_item_def bind_eq_Some_conv)
  show ?thesis
  proof (cases "caster_creds_differ e (Some caster) p")
    case True
    then have "caster_stored e (Some caster) (reply_caster e tree p)"
      using write_stores [OF assms(1), of "Some caster" p] d by (simp add: reply_caster_def caster_stored_def Let_def)
    then have "caster_stored e' (Some caster) q"
      using assms(5) later_json [OF assms(2)] by (simp add: caster_stored_def)
    then show ?thesis using stored_no_differ assms(4) by blast
  next
    case False
    then have "reply_caster e tree p = p" using d by (simp add: reply_caster_def)
    then show ?thesis using differ_later [OF False assms(2,4)] assms(5) by simp
  qed
qed

lemma reply_caster_skip:
  "(\<And>caster. reply_caster_item e tree = Some caster \<Longrightarrow> \<not> caster_creds_differ e (Some caster) p) \<Longrightarrow> reply_caster e tree p = p"
  by (auto simp: reply_caster_def reply_caster_item_def split: option.splits)

lemma apply_reply_server:
  "pv_server (apply_reply e tree p) = pv_server (reply_caster e tree (reply_fix e tree (reply_status e tree p)))"
  "pv_gnss (apply_reply e tree p) = pv_gnss (reply_fix e tree (reply_status e tree p))"
  by (simp_all add: apply_reply_def)

lemma reply_fix_log:
  "gs_log (pv_gnss (reply_fix e tree p)) = (case reply_position e tree of None \<Rightarrow> gs_log (pv_gnss p)
     | Some f \<Rightarrow> gs_log (snd (gnss_set_fixed_base (e_fmt e) (e_arr e) (e_bs e) (e_now e) (e_later e) f (pv_gnss p))))"
  "pv_gnss (reply_fix e tree p) = (case reply_position e tree of None \<Rightarrow> pv_gnss p
     | Some f \<Rightarrow> snd (gnss_set_fixed_base (e_fmt e) (e_arr e) (e_bs e) (e_now e) (e_later e) f (pv_gnss p)))"
  by (simp_all add: reply_fix_def split_beta Let_def split: option.splits)

lemma reply_fix_settles:
  assumes "reply_position e' = reply_position e" "pv_gnss q = pv_gnss (reply_fix e tree p)" "e_later e \<noteq> 0"
    and "s_base_fail_us (pv_gnss q) = 0 \<or> e_now e' - s_base_fail_us (pv_gnss q) < GNSS_BASE_RETRY_COOLDOWN_US"
  shows "gs_log (pv_gnss (reply_fix e' tree q)) = gs_log (pv_gnss q)"
proof (cases "reply_position e tree")
  case None
  then show ?thesis using assms(1) by (simp add: reply_fix_log(1))
next
  case (Some f)
  show ?thesis
  proof (cases "fix_valid f")
    case True
    obtain ok h where h: "gnss_set_fixed_base (e_fmt e) (e_arr e) (e_bs e) (e_now e) (e_later e) f (pv_gnss p) = (ok, h)"
      by (cases "gnss_set_fixed_base (e_fmt e) (e_arr e) (e_bs e) (e_now e) (e_later e) f (pv_gnss p)")
    then have q: "pv_gnss q = h" using assms(2) Some by (simp add: reply_fix_log(2))
    have "settled f ok h" by (rule set_settles [OF h True assms(3)])
    from settled_set [OF this True _ prod.collapse [symmetric]] assms(4) q Some assms(1) show ?thesis
      by (simp add: reply_fix_log(1))
  next
    case False
    then show ?thesis using Some assms(1) by (simp add: reply_fix_log(1) gnss_set_fixed_base_def)
  qed
qed

text \<open>What a caster in a reply can do to the connections and the storage: nothing, or the stored texts
  become those of the reply and the casters reconnect.\<close>

lemma reply_caster_outcome:
  assumes "reliable (e_nvs e)"
  shows "(pv_server (reply_caster e tree q), rd e (reply_caster e tree q)) = (pv_server q, rd e q) \<or>
    pv_server (reply_caster e tree q) = ntrip_server_reconnect_all (pv_server q) \<and>
    caster_stored e (reply_caster_item e tree) (reply_caster e tree q)"
proof (cases "reply_caster_item e tree")
  case None
  then show ?thesis by (auto simp: reply_caster_def reply_caster_item_def split: option.splits)
next
  case (Some caster)
  then show ?thesis using write_stores [OF assms, of "Some caster" q]
    by (auto simp: reply_caster_def reply_caster_item_def caster_stored_def Let_def bind_eq_Some_conv)
qed

text \<open>C33: A repeated reply disturbs nothing, as far as memory allows. The server sends the authoritative
  caster and position with every reply. Suppose a reply was applied on a storage that accepts writes.
  Applying it again sends no command to the receiver (after a failed attempt: within the cooldown).
  When the four stored caster texts can be copied for the comparison, it does not make the caster
  connections reconnect either. A copy that cannot be allocated counts as a difference: then the
  connections are left alone or reconnected, and whenever they are reconnected what the storage holds
  of the caster is again what the reply says.\<close>

theorem repeated_reply_harmless:
  assumes "reliable (e_nvs e)" and "later_env e e'" and "e_later e \<noteq> 0"
    and "p1 = apply_reply e tree p" and "p2 = apply_reply e' tree p1"
    and "s_base_fail_us (pv_gnss p1) = 0 \<or> e_now e' - s_base_fail_us (pv_gnss p1) < GNSS_BASE_RETRY_COOLDOWN_US"
  shows "gs_log (pv_gnss p2) = gs_log (pv_gnss p1) \<and>
    (caster_copies e' \<longrightarrow> pv_server p2 = pv_server p1) \<and>
    (pv_server p2 = pv_server p1 \<or>
     pv_server p2 = ntrip_server_reconnect_all (pv_server p1) \<and> caster_stored e' (reply_caster_item e tree) p2)"
proof (intro conjI)
  have "gs_log (pv_gnss (reply_fix e' tree (reply_status e' tree p1))) = gs_log (pv_gnss (reply_status e' tree p1))"
    by (rule reply_fix_settles [of e' e _ tree "reply_status e tree p"])
      (use assms later_json [OF assms(2)] in \<open>simp_all add: apply_reply_server\<close>)
  then show "gs_log (pv_gnss p2) = gs_log (pv_gnss p1)" by (simp add: assms(5) apply_reply_server)
next
  let ?q = "reply_fix e' tree (reply_status e' tree p1)"
  let ?r = "reply_fix e tree (reply_status e tree p)"
  have n: "rd e ?q k ty = rd e (reply_caster e tree ?r) k ty" if "k \<noteq> ''rtk_state''" for k ty
  proof -
    have "rd e ?q k ty = rd e p1 k ty" by (rule fun_cong [OF fun_cong [OF rd_cong]]) simp
    then show ?thesis using that assms(1,4) by (simp add: apply_reply_def rd_reply_state)
  qed
  show "caster_copies e' \<longrightarrow> pv_server p2 = pv_server p1"
  proof
    assume c: "caster_copies e'"
    have "\<not> caster_creds_differ e' (Some caster) ?q" if "reply_caster_item e' tree = Some caster" for caster
      using reply_caster_settles [OF assms(1,2) _ c n] that later_json [OF assms(2)] by simp
    then have "reply_caster e' tree ?q = ?q" by (rule reply_caster_skip)
    then show "pv_server p2 = pv_server p1" by (simp add: assms(5) apply_reply_server)
  qed
  have w: "reliable (e_nvs e')" using assms(1,2) by (simp add: later_env_def)
  have "caster_stored e' c p2" if "caster_stored e' c (reply_caster e' tree ?q)" for c
    using that w by (simp add: assms(5) apply_reply_def caster_stored_def rd_reply_state)
  then show "pv_server p2 = pv_server p1 \<or>
     pv_server p2 = ntrip_server_reconnect_all (pv_server p1) \<and> caster_stored e' (reply_caster_item e tree) p2"
    using reply_caster_outcome [OF w, of tree ?q] later_json [OF assms(2)] by (auto simp: assms(5) apply_reply_server)
qed

text \<open>A reply that re-points the caster and pushes a position, twice.\<close>

definition demo_json :: "jout cjson" where
  "demo_json = \<lparr>cj_parse = (\<lambda>s. None),
     cj_item = (\<lambda>j k. case j of JObject ms \<Rightarrow> map_of ms k | _ \<Rightarrow> None),
     cj_string = (\<lambda>j. case j of JText s \<Rightarrow> Some s | _ \<Rightarrow> None),
     cj_int = (\<lambda>j. case j of JInt i \<Rightarrow> Some i | _ \<Rightarrow> None),
     cj_double = (\<lambda>j. case j of JReal r \<Rightarrow> Some r | _ \<Rightarrow> None),
     cj_bool = (\<lambda>j. case j of JFlag b \<Rightarrow> Some b | _ \<Rightarrow> None),
     cj_is_object = (\<lambda>j. case j of JObject ms \<Rightarrow> True | _ \<Rightarrow> False)\<rparr>"

definition demo_ie_reply :: jout where
  "demo_ie_reply = JObject
     [(''config_delta'', JObject [(''caster'', JObject [(''host'', JText ''caster.example''), (''port'', JInt 2101)])]),
      (''position'', JObject [(''valid'', JFlag True), (''lat'', JReal 47), (''lon'', JReal 8), (''h'', JReal 500)])]"

definition demo_health :: supervisor_health_t where
  "demo_health = \<lparr>h_uptime_s = 100, h_gnss_silent_s = 0, h_caster_silent_s = 0, h_ip_down_s = 0, h_gnss_ok = True,
     h_caster_ok = True, h_link_ok = True, h_recoveries_gnss = 0, h_recoveries_caster = 0, h_recoveries_wifi = 0,
     h_reboots_supervised = 0\<rparr>"

definition demo_env :: "int \<Rightarrow> int \<Rightarrow> (string \<Rightarrow> nval option, jout) penv" where
  "demo_env now later = \<lparr>e_json = demo_json, e_nvs = map_nvs, e_oom = (\<lambda>k. False), e_http = (\<lambda>u b. demo_conn ''ok''),
     e_hmac = (\<lambda>k m. Some (replicate 32 0)), e_fw = ''1.1.8'', e_mac = [1, 2, 3, 4, 5, 6], e_nonce = 7,
     e_health = demo_health, e_totals = demo_totals, e_drops = 0, e_fmt = demo_fmt, e_ticks = (\<lambda>ms. ms * 100 div 1000), e_arr = demo_arr, e_bs = demo_store,
     e_now = now, e_later = later\<rparr>"

lemma map_nvs_reliable: "reliable map_nvs"
  by (simp add: reliable_def map_nvs_laws) (simp add: map_nvs_def)

definition demo_prov :: "(string \<Rightarrow> nval option) prov" where
  "demo_prov = provisioning_init [''rtk_enr_key'' \<mapsto> NStr ''ab''] demo_gnss demo_server"

lemma demo_ie_reply_fix: "\<exists>h. pv_gnss (apply_reply (demo_env 5 6) (Some demo_ie_reply) demo_prov) = h \<and> s_base_fail_us h = 0 \<and> length (gs_log h) = 3"
proof -
  have "reply_position (demo_env 5 6) (Some demo_ie_reply) = Some demo_fix"
    by (simp add: reply_position_def jobj_def jitem_def jdouble_def demo_env_def demo_json_def demo_ie_reply_def demo_fix_def)
  then show ?thesis using demo_push
    by (auto simp: apply_reply_server(2) reply_fix_log(2) demo_prov_def provisioning_init_def) (auto simp: demo_env_def)
qed

theorem repeated_reply_harmless_witness:
  "length (gs_log (pv_gnss (apply_reply (demo_env 8 9) (Some demo_ie_reply) (apply_reply (demo_env 5 6) (Some demo_ie_reply) demo_prov)))) = 3"
proof -
  let ?p1 = "apply_reply (demo_env 5 6) (Some demo_ie_reply) demo_prov"
  have e: "reliable (e_nvs (demo_env 5 6))" "later_env (demo_env 5 6) (demo_env 8 9)" "e_later (demo_env 5 6) \<noteq> 0"
    by (simp_all add: demo_env_def later_env_def map_nvs_reliable)
  from repeated_reply_harmless [OF e refl refl] demo_ie_reply_fix show ?thesis by auto
qed

section \<open>The client's texts stay within their buffers\<close>

definition prov_inv :: "'s prov \<Rightarrow> bool" where
  "prov_inv p \<longleftrightarrow> length (s_device_id p) < 40 \<and> length (s_mac p) < 18 \<and> length (s_ie_host p) < 96 \<and>
     length (s_token p) < 96 \<and> length (s_enroll_key p) < 80 \<and> length (st_state p) < 16 \<and>
     length (st_station_id p) < 40 \<and> s_poll_s p \<ge> MIN_POLL_S"

text \<open>Updates of other fields.\<close>

lemma prov_inv_other [simp]:
  "prov_inv (p\<lparr>pv_nvs := a\<rparr>) = prov_inv p" "prov_inv (p\<lparr>pv_gnss := b\<rparr>) = prov_inv p"
  "prov_inv (p\<lparr>pv_server := c\<rparr>) = prov_inv p" "prov_inv (p\<lparr>pv_requests := d\<rparr>) = prov_inv p"
  "prov_inv (p\<lparr>s_fixed_base_set := f\<rparr>) = prov_inv p" "prov_inv (p\<lparr>st_enrolled := f\<rparr>) = prov_inv p"
  "prov_inv (p\<lparr>st_pos := h\<rparr>) = prov_inv p" "prov_inv (p\<lparr>s_key_ver := k\<rparr>) = prov_inv p"
  "prov_inv (p\<lparr>st_q_sats := q\<rparr>) = prov_inv p" "prov_inv (p\<lparr>st_q_fix := q\<rparr>) = prov_inv p"
  by (simp_all add: prov_inv_def)

lemma prov_inv_store [simp]:
  "prov_inv (put r p) = prov_inv p" "prov_inv (commit e p) = prov_inv p" "prov_inv (set_str e k v p) = prov_inv p"
  by (simp_all add: put_def commit_def set_str_def split: option.splits)

lemma prov_inv_write [simp]: "prov_inv (write_caster_creds e caster p) = prov_inv p"
  by (simp add: write_caster_creds_def Let_def split: option.splits)

text \<open>Updates of the bounded texts.\<close>

lemma prov_inv_text:
  "prov_inv p \<Longrightarrow> prov_inv (p\<lparr>s_token := snprintf_buf 96 t\<rparr>)" "prov_inv p \<Longrightarrow> prov_inv (p\<lparr>s_ie_host := snprintf_buf 96 t\<rparr>)"
  "prov_inv p \<Longrightarrow> prov_inv (p\<lparr>s_enroll_key := snprintf_buf 80 t\<rparr>)" "prov_inv p \<Longrightarrow> prov_inv (p\<lparr>s_device_id := snprintf_buf 40 t\<rparr>)"
  "prov_inv p \<Longrightarrow> prov_inv (p\<lparr>s_mac := snprintf_buf 18 t\<rparr>)" "prov_inv p \<Longrightarrow> v \<ge> MIN_POLL_S \<Longrightarrow> prov_inv (p\<lparr>s_poll_s := v\<rparr>)"
  using snprintf_buf_less [of 96 t] snprintf_buf_less [of 80 t] snprintf_buf_less [of 40 t] snprintf_buf_less [of 18 t]
  by (simp_all add: prov_inv_def)

lemma keep_less: "length old < n \<Longrightarrow> length (keep (map_option (snprintf_buf n) new) old) < n"
  using snprintf_buf_less [of n] by (auto simp: keep_def split: option.splits)

lemma inv_reply_status: "prov_inv p \<Longrightarrow> prov_inv (reply_status e tree p)"
  by (simp add: reply_status_def Let_def split: option.splits) (simp add: prov_inv_def keep_less)

lemma inv_apply_reply: "prov_inv p \<Longrightarrow> prov_inv (apply_reply e tree p)"
proof -
  have "prov_inv q \<Longrightarrow> prov_inv (reply_fix e tree q)" "prov_inv q \<Longrightarrow> prov_inv (reply_caster e tree q)"
    "prov_inv q \<Longrightarrow> prov_inv (reply_state e tree q)" for q
    by (simp_all add: reply_fix_def reply_caster_def reply_state_def split_beta Let_def split: option.splits)
  then show "prov_inv p \<Longrightarrow> ?thesis" by (simp add: apply_reply_def inv_reply_status)
qed

lemma inv_enroll_accept: "prov_inv p \<Longrightarrow> prov_inv (enroll_accept e caster tok tree p)"
  by (simp add: enroll_accept_def Let_def prov_inv_text split: option.splits)

lemma inv_enroll: "prov_inv p \<Longrightarrow> prov_inv (snd (enroll e p))"
  by (simp add: enroll_def Let_def post_def split_beta inv_enroll_accept split: option.splits)

lemma inv_heartbeat: "prov_inv p \<Longrightarrow> prov_inv (heartbeat e p)"
  by (simp add: heartbeat_def Let_def post_def split_beta inv_apply_reply split: option.splits)

lemma inv_load: "prov_inv p \<Longrightarrow> prov_inv (load_identity e p)"
  by (simp add: load_identity_def load_device_id_def Let_def prov_inv_text split: option.splits list.splits)

lemma inv_start: "prov_inv (snd (provisioning_start e (provisioning_init s g v)))"
proof -
  have "prov_inv (provisioning_init s g v)" by (simp add: prov_inv_def provisioning_init_def)
  from inv_load [OF this, of e] show ?thesis by (simp add: provisioning_start_def Let_def) (simp add: prov_inv_def)
qed

lemma inv_pass: "prov_inv p \<Longrightarrow> provisioning_pass e (state, p) = (delay, state', p') \<Longrightarrow> prov_inv p' \<and> (delay = delay_ms e 15000 \<or> delay = delay_ms e (s_poll_s p' * 1000))"
proof -
  assume i: "prov_inv p" and s: "provisioning_pass e (state, p) = (delay, state', p')"
  show ?thesis using s inv_enroll [OF i, of e] inv_heartbeat [OF i, of e]
    by (auto simp: provisioning_pass_def Let_def split_beta split: if_splits)
qed

text \<open>The conversion at a hundred ticks a second, in the range in which its 32-bit product does not
  overflow.\<close>

definition ticks_ok :: "('s, 'j) penv \<Rightarrow> bool" where
  "ticks_ok e \<longleftrightarrow> (\<forall>ms. unat ms * 100 < 2 ^ 32 \<longrightarrow> unat (e_ticks e ms) = unat ms * 100 div 1000)"

lemma delay_ticks:
  assumes "ticks_ok e" "0 \<le> ms" "ms * 100 < 2 ^ 32"
  shows "unat (delay_ms e ms) = nat ms * 100 div 1000"
proof -
  have u: "unat (word_of_int ms :: u32) = nat ms"
    using assms(2,3) by (simp add: unat_eq_nat_uint uint_word_of_int)
  have "unat (word_of_int ms :: u32) * 100 < 2 ^ 32" unfolding u using assms(2,3) by (simp add: nat_less_iff flip: nat_mult_distrib)
  then show ?thesis using assms(1) u by (metis delay_ms_def ticks_ok_def)
qed

lemma poll_delay:
  assumes "ticks_ok e" "MIN_POLL_S \<le> v" "v \<le> 42949"
  shows "unat (delay_ms e (v * 1000)) = nat v * 100" "unat (delay_ms e 15000) = 1500"
proof -
  have "nat (v * 1000) = nat v * 1000" using assms(2) by (simp add: nat_mult_distrib)
  then show "unat (delay_ms e (v * 1000)) = nat v * 100" using delay_ticks [OF assms(1), of "v * 1000"] assms(2,3) by simp
  show "unat (delay_ms e 15000) = 1500" using delay_ticks [OF assms(1), of 15000] by simp
qed

text \<open>The poll interval of the server has no upper bound, and its product with a thousand wraps: for 4294968
  seconds the task asks for a delay of 704 milliseconds.\<close>

lemma poll_interval_wraps: "delay_ms e (4294968 * 1000) = e_ticks e 704"
proof -
  have "(4294968000 :: u32) = 704" by code_simp
  moreover have "4294968 * 1000 = (4294968000 :: int)" by simp
  ultimately show ?thesis by (simp only: delay_ms_def word_of_int_numeral)
qed

section \<open>What is sent\<close>

definition env_ok :: "('s, 'j) penv \<Rightarrow> bool" where
  "env_ok e \<longleftrightarrow> length (e_mac e) = 6 \<and> length (e_fw e) \<le> 100 \<and> (\<forall>k m mac. e_hmac e k m = Some mac \<longrightarrow> length mac = 32)"

lemma hmac_length: "env_ok e \<Longrightarrow> length (hmac_sha256_hex e k m) \<le> 64"
proof -
  have "length (concat (map (hex2 False) mac)) = 2 * length mac" for mac by (induction mac) (simp_all add: hex2_def)
  then show "env_ok e \<Longrightarrow> ?thesis" by (auto simp: env_ok_def hmac_sha256_hex_def split: option.splits)
qed

lemma ie_url_length: "prov_inv p \<Longrightarrow> length path \<le> 50 \<Longrightarrow> length (ie_url path p) < 160"
  by (simp add: ie_url_def prov_inv_def)

lemma field_length: "length (jfield k v) = length k + length v + 3" "length (jtext s) = length s + 2"
  by (simp_all add: jfield_def jtext_def)

lemma dec_length_u8: "length (dec (unat (b :: u8))) \<le> 3"
  by (rule dec_length) (use unat_u8_less [of b] in simp_all)

lemma enroll_texts:
  assumes "prov_inv p" "env_ok e"
  shows "length (enroll_canon e p) < 256" "length (enroll_body e p (hmac_sha256_hex e k m)) < 512"
  using assms dec_length_u32 [of "e_nonce e"] dec_length_u8 [of "s_key_ver p"] hmac_length [OF assms(2), of k m]
  by (simp_all add: enroll_canon_def enroll_body_def prov_inv_def env_ok_def field_length)

lemma enroll_sends:
  assumes "prov_inv p" "env_ok e"
  shows "pv_requests (snd (enroll e p)) = (if s_enroll_key p = [] then pv_requests p else pv_requests p @
    [(ie_url ''/api/edge/enroll'' p, enroll_body e p (hmac_sha256_hex e (s_enroll_key p) (enroll_canon e p)))])"
proof -
  have "pv_requests (enroll_accept e c t tr q) = pv_requests q" for c t tr q
    by (simp add: enroll_accept_def Let_def split: option.splits)
  then show ?thesis using enroll_texts(1) [OF assms] enroll_texts(2) [OF assms, of "s_enroll_key p" "enroll_canon e p"] ie_url_length [OF assms(1), of "''/api/edge/enroll''"]
    by (simp add: enroll_def Let_def post_def split_beta split: option.splits)
qed

lemma heartbeat_tx_full: "heartbeat_tx e = ('','', tx_json_text (e_totals e) (e_drops e))"
proof -
  let ?t = "tx_json_text (e_totals e) (e_drops e)"
  have "cstr (?t @ CHR 0x00 # rest) = ?t" for rest using tx_json_no_nul by (simp add: cstr_def takeWhile_append)
  then show ?thesis using tx_json_bound [of "e_totals e" "e_drops e"] by (simp add: heartbeat_tx_def telemetry_exact Let_def)
qed

lemma heartbeat_texts:
  assumes "prov_inv p" "env_ok e"
  shows "length (heartbeat_canon e p) < 160"
    "length (heartbeat_body e p '','' (tx_json_text (e_totals e) (e_drops e)) (hmac_sha256_hex e k m)) < 1536"
proof -
  let ?h = "e_health e"
  note n = dec_length_u32 [of "e_nonce e"] dec_length_u32 [of "h_uptime_s ?h"] dec_length_u32 [of "h_gnss_silent_s ?h"]
    dec_length_u32 [of "h_caster_silent_s ?h"] dec_length_u32 [of "h_ip_down_s ?h"] dec_length_u32 [of "h_recoveries_gnss ?h"]
    dec_length_u32 [of "h_recoveries_caster ?h"] dec_length_u32 [of "h_recoveries_wifi ?h"] dec_length_u32 [of "h_reboots_supervised ?h"]
  have b: "length (json_bool b) \<le> 5" for b by (simp add: json_bool_def)
  show "length (heartbeat_canon e p) < 160" using assms n by (simp add: heartbeat_canon_def prov_inv_def)
  show "length (heartbeat_body e p '','' (tx_json_text (e_totals e) (e_drops e)) (hmac_sha256_hex e k m)) < 1536"
    using assms n b [of "h_gnss_ok ?h"] b [of "h_caster_ok ?h"] b [of "h_link_ok ?h"] tx_json_bound [of "e_totals e" "e_drops e"]
      hmac_length [OF assms(2), of k m]
    by (simp add: heartbeat_body_def prov_inv_def env_ok_def field_length Let_def)
qed

lemma apply_reply_requests [simp]: "pv_requests (apply_reply e tree p) = pv_requests p"
  by (simp add: apply_reply_def)

lemma heartbeat_sends:
  assumes "prov_inv p" "env_ok e"
  shows "pv_requests (heartbeat e p) = pv_requests p @ [(ie_url ''/api/edge/heartbeat'' p,
    heartbeat_body e p '','' (tx_json_text (e_totals e) (e_drops e)) (hmac_sha256_hex e (s_token p) (heartbeat_canon e p)))]"
proof -
  have "heartbeat_body e p '','' t hm \<noteq> []" for t hm by (simp add: heartbeat_body_def Let_def)
  then show ?thesis using heartbeat_texts(1) [OF assms] heartbeat_texts(2) [OF assms, of "s_token p" "heartbeat_canon e p"] ie_url_length [OF assms(1), of "''/api/edge/heartbeat''"]
    by (simp add: heartbeat_def Let_def post_def split_beta heartbeat_tx_full snprintf_n_def split: option.splits)
qed

text \<open>The task as a machine: its passes, and what other tasks do to the storage, the receiver and the senders.\<close>

inductive prov_step :: "'j cjson \<Rightarrow> 's nvs \<Rightarrow> u8 \<times> 's prov \<Rightarrow> u8 \<times> 's prov \<Rightarrow> bool" for J nvs where
  pass: "e_json e = J \<Longrightarrow> e_nvs e = nvs \<Longrightarrow> provisioning_pass e (state, p) = (delay, state', p') \<Longrightarrow>
    prov_step J nvs (state, p) (state', p')"
| other: "prov_step J nvs (state, p) (state, p\<lparr>pv_nvs := s, pv_gnss := g, pv_server := v\<rparr>)"

inductive prov_boot :: "'j cjson \<Rightarrow> 's nvs \<Rightarrow> u8 \<times> 's prov \<Rightarrow> bool" for J nvs where
  "e_json e = J \<Longrightarrow> e_nvs e = nvs \<Longrightarrow> prov_boot J nvs (provisioning_start e (provisioning_init s g v))"

interpretation prov_machine: machine_invariant "prov_boot J nvs" "prov_step J nvs" "\<lambda>sp. prov_inv (snd sp)"
proof
  show "prov_inv (snd sp)" if "prov_boot J nvs sp" for sp using that by cases (simp add: inv_start)
  show "prov_inv (snd sq)" if "prov_inv (snd sp)" "prov_step J nvs sp sq" for sp sq
    using that(2,1) by cases (auto dest: inv_pass)
qed

lemma one_le_u8 [simp]: "(1 :: u8) \<le> s \<longleftrightarrow> s \<noteq> 0"
  by (metis not_less word_less_1)

text \<open>C34: The client sends whole requests, and only with a key. In every reachable state one pass of the
  task sends at most one request and then asks for a delay of at least a thousand ticks, ten seconds at
  the configured hundred ticks a second, as long as the poll interval in force is at most 42949 seconds
  (twelve hours; the code sets no upper bound, and for longer intervals the 32-bit products wrap: 4294968
  seconds ask for 704 milliseconds). Before enrolment it sends
  nothing without an enroll key; with one, the enrolment, signed with this key over the identity, the
  version and the nonce. After enrolment it always sends the heartbeat with the telemetry, signed with
  the station token. Neither address, nor signed text, nor body is ever cut by a buffer, so no
  heartbeat is skipped, for any counter values and any version text of up to a hundred characters.\<close>

theorem requests_whole:
  assumes "reach (prov_boot J nvs) (prov_step J nvs) (state, p)" and "env_ok e" and "ticks_ok e"
    and "provisioning_pass e (state, p) = (delay, state', p')"
  shows "(s_poll_s p' \<le> 42949 \<longrightarrow> unat delay \<ge> 1000) \<and> (s_poll_s p' = 4294968 \<and> state \<ge> RTK_PROVISIONING \<longrightarrow> delay = e_ticks e 704) \<and>
    pv_requests p' = pv_requests p @
    (if state \<ge> RTK_PROVISIONING
     then [(''https://'' @ s_ie_host p @ ''/api/edge/heartbeat'',
            heartbeat_body e p '','' (tx_json_text (e_totals e) (e_drops e)) (hmac_sha256_hex e (s_token p) (heartbeat_canon e p)))]
     else if s_enroll_key p = [] then []
     else [(''https://'' @ s_ie_host p @ ''/api/edge/enroll'',
            enroll_body e p (hmac_sha256_hex e (s_enroll_key p) (enroll_canon e p)))])"
proof -
  have i: "prov_inv p" using prov_machine.reach_inv [OF assms(1)] by simp
  note d = inv_pass [OF i assms(4)]
  then have "s_poll_s p' \<le> 42949 \<longrightarrow> unat delay \<ge> 1000"
    using poll_delay [OF assms(3), of "s_poll_s p'"] by (auto simp: prov_inv_def)
  moreover have "s_poll_s p' = 4294968 \<and> state \<ge> RTK_PROVISIONING \<longrightarrow> delay = e_ticks e 704"
    using assms(4) poll_interval_wraps [of e] by (auto simp: provisioning_pass_def Let_def linorder_not_less split: if_splits)
  ultimately show ?thesis using enroll_sends [OF i assms(2)] heartbeat_sends [OF i assms(2)] assms(4)
    by (auto simp: provisioning_pass_def ie_url_def Let_def split_beta linorder_not_less split: if_splits)
qed

lemma conf_items_rtk:
  "CONF_ITEM ''rtk_dev_id'' = cfg_item ''rtk_dev_id'' TYPE_STRING False 0 []"
  "CONF_ITEM ''rtk_ie_host'' = cfg_item ''rtk_ie_host'' TYPE_STRING False 0 ''integrity-engine.onrender.com''"
  "CONF_ITEM ''rtk_sta_tok'' = cfg_item ''rtk_sta_tok'' TYPE_STRING True 0 []"
  "CONF_ITEM ''rtk_enr_key'' = cfg_item ''rtk_enr_key'' TYPE_STRING True 0 []"
  "CONF_ITEM ''rtk_key_ver'' = cfg_item ''rtk_key_ver'' TYPE_UINT8 False 1 []"
  by code_simp+

text \<open>A device that was given a key but never enrolled.\<close>

lemma demo_unclaimed:
  "fst (provisioning_start (demo_env 1 2) demo_prov) = 0" "s_enroll_key (snd (provisioning_start (demo_env 1 2) demo_prov)) = ''ab''"
  "pv_requests (snd (provisioning_start (demo_env 1 2) demo_prov)) = []"
proof -
  let ?e = "demo_env 1 2"
  define q where "q = load_device_id ?e (demo_prov\<lparr>s_mac := snprintf_buf 18 (mac_text (e_mac ?e))\<rparr>)"
  have g: "get_str ?e k p = (case pv_nvs p k of Some (NStr x) \<Rightarrow> Some x | _ \<Rightarrow> Some (ci_str (CONF_ITEM k)))"
    if "ci_type (CONF_ITEM k) = TYPE_STRING" "ci_key (CONF_ITEM k) = k" for k p
    using that by (auto simp: get_str_def config_get_str_blob_alloc_def config_get_str_blob_def demo_env_def map_nvs_def not_found_ok_def
        split: option.splits nval.splits)
  have "\<exists>d. pv_nvs q = [''rtk_enr_key'' \<mapsto> NStr ''ab'', ''rtk_dev_id'' \<mapsto> NStr d] \<and> s_enroll_key q = [] \<and> pv_requests q = []"
    by (simp add: q_def load_device_id_def g conf_items_rtk cfg_item_def demo_prov_def provisioning_init_def set_str_def commit_def
        put_def config_set_str_def config_commit_def Let_def) (simp add: demo_env_def map_nvs_def, blast)
  then obtain d where q: "pv_nvs q = [''rtk_enr_key'' \<mapsto> NStr ''ab'', ''rtk_dev_id'' \<mapsto> NStr d]" "s_enroll_key q = []" "pv_requests q = []" by blast
  have l: "s_enroll_key (load_identity ?e demo_prov) = ''ab''" "pv_requests (load_identity ?e demo_prov) = []"
    "pv_nvs (load_identity ?e demo_prov) = pv_nvs q"
    by (simp_all add: load_identity_def q_def [symmetric] Let_def g conf_items_rtk cfg_item_def q split: list.splits)
  have "config_get_u8 (e_nvs ?e) (CONF_ITEM ''rtk_state'') (pv_nvs q) = 0"
    by (simp add: q conf_items cfg_item_def config_get_u8_def get_over_def) (simp add: demo_env_def map_nvs_def)
  with l show "fst (provisioning_start ?e demo_prov) = 0" "s_enroll_key (snd (provisioning_start ?e demo_prov)) = ''ab''"
    "pv_requests (snd (provisioning_start ?e demo_prov)) = []"
    by (simp_all add: provisioning_start_def Let_def)
qed

theorem requests_whole_witness:
  "length (pv_requests (snd (snd (provisioning_pass (demo_env 1 2) (0, snd (provisioning_start (demo_env 1 2) demo_prov)))))) = 1"
proof -
  let ?sp = "provisioning_start (demo_env 1 2) demo_prov"
  have "prov_boot demo_json map_nvs ?sp"
    using prov_boot.intros [of "demo_env 1 2" demo_json map_nvs "[''rtk_enr_key'' \<mapsto> NStr ''ab'']" demo_gnss demo_server]
    by (simp add: demo_prov_def) (simp add: demo_env_def)
  then have r: "reach (prov_boot demo_json map_nvs) (prov_step demo_json map_nvs) (fst ?sp, snd ?sp)" by (simp add: reach.start)
  note f = demo_unclaimed
  have ok: "env_ok (demo_env 1 2)" "ticks_ok (demo_env 1 2)"
    by (simp_all add: env_ok_def ticks_ok_def demo_env_def unat_div unat_word_ariths)
  obtain d s' p' where p: "provisioning_pass (demo_env 1 2) (fst ?sp, snd ?sp) = (d, s', p')"
    by (cases "provisioning_pass (demo_env 1 2) (fst ?sp, snd ?sp)")
  from requests_whole [OF r ok p] f p show ?thesis by simp
qed

end
