(* ===== verification/Ota_Policy.thy ===== *)
theory Ota_Policy
  imports Config_Store Nmea_Util Text_Format
begin

text \<open>
  The policies that keep an update from bricking the device (\<open>src/main/update.c\<close>): the version
  comparison, the budget of install attempts per version, the boot-loop guard with its planned
  reboot marker, and the task that clears its counter. Their state is the storage namespace
  \<open>ota\<close>; the storage library is the record \<open>nvs\<close> of the configuration store, and whether opening
  the namespace succeeds is an argument of each call. Log and serial output are not modelled.
\<close>

section \<open>Versions\<close>

text \<open>
  \<open>sscanf\<close> with \<open>%d.%d.%d\<close>: leading blanks and a sign are accepted by each conversion, a
  component that is missing keeps its zero. Components beyond the range of the C type are
  undefined there; here they keep their value.
\<close>

definition scan_sign :: "string \<Rightarrow> bool \<times> string" where
  "scan_sign s = (case s of [] \<Rightarrow> (False, [])
     | c # t \<Rightarrow> if c = CHR ''-'' then (True, t) else if c = CHR ''+'' then (False, t) else (False, s))"

definition scan_int :: "string \<Rightarrow> (int \<times> string) option" where
  "scan_int s =
     (let (neg, r) = scan_sign (dropWhile is_space s); ds = takeWhile is_digit r
      in if ds = [] then None
         else Some (if neg then - digits_val ds else digits_val ds, drop (length ds) r))"

definition scan_dot_int :: "string \<Rightarrow> (int \<times> string) option" where
  "scan_dot_int s = (case s of [] \<Rightarrow> None | c # t \<Rightarrow> if c = CHR ''.'' then scan_int t else None)"

definition scan_version :: "string \<Rightarrow> (int \<times> int \<times> int) option" where
  "scan_version s =
     (case scan_int s of
        None \<Rightarrow> None
      | Some (a, r) \<Rightarrow>
          (case scan_dot_int r of
             None \<Rightarrow> Some (a, 0, 0)
           | Some (b, r) \<Rightarrow>
               (case scan_dot_int r of None \<Rightarrow> Some (a, b, 0) | Some (c, _) \<Rightarrow> Some (a, b, c))))"

definition ota_version_is_newer :: "string \<Rightarrow> string \<Rightarrow> bool" where
  "ota_version_is_newer cand cur =
     (case (scan_version cand, scan_version cur) of
        (Some (a, b, c), Some (x, y, z)) \<Rightarrow>
          if a > x then True else if a < x then False
          else if b > y then True else if b < y then False
          else if c > z then True else False
      | _ \<Rightarrow> cand \<noteq> cur)"

section \<open>The attempt budget\<close>

abbreviation MAX_OTA_ATTEMPTS :: u8 where "MAX_OTA_ATTEMPTS \<equiv> 3"
abbreviation MAX_BOOT_LOOPS :: u8 where "MAX_BOOT_LOOPS \<equiv> 5"

text \<open>Reading a byte over a zero, and a string into the buffer of 24 bytes.\<close>

definition nvs_u8_or_0 :: "'s nvs \<Rightarrow> string \<Rightarrow> 's \<Rightarrow> u8" where
  "nvs_u8_or_0 nvs key s = (case nvs_get nvs s key TU8 of Inr (NU8 v) \<Rightarrow> v | _ \<Rightarrow> 0)"

definition stored_version_is :: "'s nvs \<Rightarrow> string \<Rightarrow> 's \<Rightarrow> bool" where
  "stored_version_is nvs version s =
     (case nvs_get nvs s ''fail_ver'' TStr of
        Inr (NStr v) \<Rightarrow> length v < 24 \<and> v = version
      | _ \<Rightarrow> False)"

definition attempts_used :: "'s nvs \<Rightarrow> string \<Rightarrow> 's \<Rightarrow> u8" where
  "attempts_used nvs version s =
     (if stored_version_is nvs version s then nvs_u8_or_0 nvs ''fail_cnt'' s else 0)"

definition ota_attempt_allowed :: "bool \<Rightarrow> 's nvs \<Rightarrow> string \<Rightarrow> 's \<Rightarrow> bool \<times> 's" where
  "ota_attempt_allowed opened nvs version s =
     (if \<not> opened then (True, s)
      else let cnt = attempts_used nvs version s
           in if cnt \<ge> MAX_OTA_ATTEMPTS then (False, s)
              else let s = snd (nvs_set nvs s ''fail_ver'' (NStr version));
                       s = snd (nvs_set nvs s ''fail_cnt'' (NU8 (cnt + 1)))
                   in (True, snd (nvs_commit nvs s)))"

definition ota_attempts_exhausted :: "bool \<Rightarrow> 's nvs \<Rightarrow> string \<Rightarrow> 's \<Rightarrow> bool" where
  "ota_attempts_exhausted opened nvs version s =
     (if \<not> opened then False else attempts_used nvs version s \<ge> MAX_OTA_ATTEMPTS)"

section \<open>The boot-loop guard\<close>

datatype reset_reason = ESP_RST_UNKNOWN | ESP_RST_POWERON | ESP_RST_EXT | ESP_RST_SW | ESP_RST_PANIC
  | ESP_RST_INT_WDT | ESP_RST_TASK_WDT | ESP_RST_WDT | ESP_RST_DEEPSLEEP | ESP_RST_BROWNOUT | ESP_RST_SDIO

text \<open>
  What the platform answers during one boot: the reset reason, the running partition (whether it is
  the factory one, and the state of its image when that can be read), whether the OTA selection
  data exists and what erasing it returns, and the success of the three namespace openings.
\<close>

record boot_env =
  be_reason :: reset_reason
  be_running :: bool
  be_factory :: bool
  be_pending_verify :: bool
  be_otadata :: bool
  be_erase :: esp_err
  be_open_guard :: bool
  be_open_clear :: bool
  be_open_planned :: bool

definition ota_note_planned_reboot :: "bool \<Rightarrow> 's nvs \<Rightarrow> 's \<Rightarrow> 's" where
  "ota_note_planned_reboot opened nvs s =
     (if \<not> opened then s
      else let s = snd (nvs_set nvs s ''planned_rb'' (NU8 1)) in snd (nvs_commit nvs s))"

definition crash_like :: "boot_env \<Rightarrow> bool \<Rightarrow> bool" where
  "crash_like e planned \<longleftrightarrow>
     be_reason e \<in> {ESP_RST_PANIC, ESP_RST_INT_WDT, ESP_RST_TASK_WDT, ESP_RST_WDT, ESP_RST_BROWNOUT, ESP_RST_UNKNOWN} \<or>
     (be_reason e = ESP_RST_SW \<and> \<not> planned \<and> \<not> (be_running e \<and> be_pending_verify e))"

datatype guard_result = GUARD_CONTINUE | GUARD_FACTORY

definition consume_planned :: "'s nvs \<Rightarrow> 's \<Rightarrow> bool \<times> 's" where
  "consume_planned nvs s =
     (let planned = nvs_u8_or_0 nvs ''planned_rb'' s \<noteq> 0
      in (planned,
          if planned then let s = snd (nvs_set nvs s ''planned_rb'' (NU8 0)) in snd (nvs_commit nvs s) else s))"

definition force_factory :: "boot_env \<Rightarrow> 's nvs \<Rightarrow> 's \<Rightarrow> guard_result \<times> 's" where
  "force_factory e nvs s =
     (if be_running e \<and> be_factory e then (GUARD_CONTINUE, s)
      else if \<not> be_otadata e then (GUARD_CONTINUE, s)
      else if be_erase e \<noteq> ESP_OK then (GUARD_CONTINUE, s)
      else let s = (if be_open_clear e
                    then let s = snd (nvs_set nvs s ''bootloop'' (NU8 0)) in snd (nvs_commit nvs s) else s)
           in (GUARD_FACTORY, ota_note_planned_reboot (be_open_planned e) nvs s))"

definition ota_boot_loop_guard :: "boot_env \<Rightarrow> 's nvs \<Rightarrow> 's \<Rightarrow> guard_result \<times> 's" where
  "ota_boot_loop_guard e nvs s =
     (if \<not> be_open_guard e then (GUARD_CONTINUE, s)
      else let (planned, s) = consume_planned nvs s;
               boots = nvs_u8_or_0 nvs ''bootloop'' s
           in if \<not> crash_like e planned then (GUARD_CONTINUE, s)
              else let boots = boots + 1;
                       s = snd (nvs_set nvs s ''bootloop'' (NU8 boots));
                       s = snd (nvs_commit nvs s)
                   in if boots < MAX_BOOT_LOOPS then (GUARD_CONTINUE, s) else force_factory e nvs s)"

text \<open>The task that clears the counter after 45 minutes, and whether it reports success.\<close>

definition ota_bootloop_clear_task :: "esp_err \<Rightarrow> 's nvs \<Rightarrow> 's \<Rightarrow> esp_err \<times> 's" where
  "ota_bootloop_clear_task opened nvs s =
     (if opened \<noteq> ESP_OK then (opened, s)
      else let (err, s) = nvs_set nvs s ''bootloop'' (NU8 0)
           in if err = ESP_OK then nvs_commit nvs s else (err, s))"

section \<open>Version order\<close>

definition version_text :: "nat \<Rightarrow> nat \<Rightarrow> nat \<Rightarrow> string" where
  "version_text a b c = dec a @ ''.'' @ dec b @ ''.'' @ dec c"

lemma dec_head: "\<exists>d t. dec n = d # t \<and> is_digit d"
  using dec_digits [of n] dec_nonempty [of n] by (cases "dec n") auto

lemma digit_not_blank: "is_digit d \<Longrightarrow> \<not> is_space d \<and> d \<noteq> CHR ''-'' \<and> d \<noteq> CHR ''+''"
  by (auto simp: is_digit_def is_space_def less_eq_char_def)

lemma scan_int_dec:
  assumes "s = [] \<or> \<not> is_digit (hd s)" shows "scan_int (dec n @ s) = Some (int n, s)"
proof -
  obtain d t where d: "dec n = d # t" "is_digit d" using dec_head by blast
  have "dropWhile is_space (dec n @ s) = dec n @ s" "scan_sign (dec n @ s) = (False, dec n @ s)"
    using d digit_not_blank [of d] by (simp_all add: scan_sign_def)
  then show ?thesis using takeWhile_dec [OF assms, of n] by (simp add: scan_int_def Let_def)
qed

lemma scan_version_text [simp]: "scan_version (version_text a b c) = Some (int a, int b, int c)"
proof -
  have dot: "\<not> is_digit CHR ''.''" by (simp add: is_digit_def less_eq_char_def)
  have 1: "scan_int (version_text a b c) = Some (int a, ''.'' @ dec b @ ''.'' @ dec c)"
    unfolding version_text_def by (rule scan_int_dec) (simp add: dot)
  have 2: "scan_dot_int (''.'' @ dec b @ ''.'' @ dec c) = Some (int b, ''.'' @ dec c)"
    using scan_int_dec [of "''.'' @ dec c" b] by (simp add: scan_dot_int_def dot)
  have 3: "scan_dot_int (''.'' @ dec c) = Some (int c, [])"
    using scan_int_dec [of "[]" c] by (simp add: scan_dot_int_def)
  show ?thesis unfolding scan_version_def 1 using 2 3 by simp
qed

text \<open>Among dotted versions the comparison is the strict lexicographic order of the numbers, so an
  older or equal version in the channel is never taken for an update, and no two versions are each
  newer than the other.\<close>

theorem ota_version_order:
  "ota_version_is_newer (version_text a b c) (version_text x y z) =
     (x < a \<or> (x = a \<and> (y < b \<or> (y = b \<and> z < c)))) \<and>
   \<not> (ota_version_is_newer (version_text a b c) (version_text x y z) \<and>
      ota_version_is_newer (version_text x y z) (version_text a b c))"
  by (auto simp: ota_version_is_newer_def)

section \<open>Storage facts\<close>

text \<open>A storage that is not full and not failing: every write succeeds.\<close>

definition nvs_accepts :: "'s nvs \<Rightarrow> bool" where
  "nvs_accepts nvs \<longleftrightarrow> (\<forall>s k v. fst (nvs_set nvs s k v) = ESP_OK)"

lemma map_nvs_accepts: "nvs_accepts map_nvs"
  by (simp add: nvs_accepts_def map_nvs_def)

lemma nvs_set_fails: "nvs_laws nvs \<Longrightarrow> nvs_set nvs s k v = (e, s') \<Longrightarrow> e \<noteq> ESP_OK \<Longrightarrow> s' = s"
  unfolding nvs_laws_def by blast

lemma nvs_get_other:
  assumes "nvs_laws nvs" "k \<noteq> k'"
  shows "nvs_get nvs (snd (nvs_set nvs s k' v)) k ty = nvs_get nvs s k ty"
proof (cases "nvs_set nvs s k' v")
  case (Pair e s')
  then show ?thesis using nvs_lawsD(3) [OF assms(1), of s k' v s' k ty] nvs_set_fails [OF assms(1) Pair] assms(2)
    by (cases "e = ESP_OK") auto
qed

lemma nvs_get_same:
  assumes "nvs_laws nvs" "nvs_accepts nvs"
  shows "nvs_get nvs (snd (nvs_set nvs s k v)) k (ntype_of v) = Inr v"
  using nvs_lawsD(2) [OF assms(1), of s k v "snd (nvs_set nvs s k v)"] assms(2)
  by (simp add: nvs_accepts_def prod_eq_iff)

lemma u8_commit [simp]:
  "nvs_laws nvs \<Longrightarrow> nvs_u8_or_0 nvs k (snd (nvs_commit nvs s)) = nvs_u8_or_0 nvs k s"
  by (simp add: nvs_u8_or_0_def nvs_lawsD(6))

lemma u8_other:
  "nvs_laws nvs \<Longrightarrow> k \<noteq> k' \<Longrightarrow> nvs_u8_or_0 nvs k (snd (nvs_set nvs s k' v)) = nvs_u8_or_0 nvs k s"
  by (simp add: nvs_u8_or_0_def nvs_get_other)

lemma u8_same:
  "nvs_laws nvs \<Longrightarrow> nvs_accepts nvs \<Longrightarrow> nvs_u8_or_0 nvs k (snd (nvs_set nvs s k (NU8 v))) = v"
  using nvs_get_same [of nvs s k "NU8 v"] by (simp add: nvs_u8_or_0_def)

text \<open>Whether or not the write succeeds, the byte is the old or the new one.\<close>

lemma u8_either:
  assumes "nvs_laws nvs"
  shows "nvs_u8_or_0 nvs k (snd (nvs_set nvs s k (NU8 v))) \<in> {v, nvs_u8_or_0 nvs k s}"
proof (cases "nvs_set nvs s k (NU8 v)")
  case (Pair e s')
  then show ?thesis
    using nvs_lawsD(2) [OF assms, of s k "NU8 v" s'] nvs_set_fails [OF assms Pair]
    by (cases "e = ESP_OK") (auto simp: nvs_u8_or_0_def)
qed

lemma stored_commit [simp]:
  "nvs_laws nvs \<Longrightarrow> stored_version_is nvs w (snd (nvs_commit nvs s)) = stored_version_is nvs w s"
  by (simp add: stored_version_is_def nvs_lawsD(6))

lemma stored_other:
  "nvs_laws nvs \<Longrightarrow> k \<noteq> ''fail_ver'' \<Longrightarrow> stored_version_is nvs w (snd (nvs_set nvs s k v)) = stored_version_is nvs w s"
  by (simp add: stored_version_is_def nvs_get_other)

lemma stored_same:
  "nvs_laws nvs \<Longrightarrow> nvs_accepts nvs \<Longrightarrow>
   stored_version_is nvs w (snd (nvs_set nvs s ''fail_ver'' (NStr v))) = (length v < 24 \<and> v = w)"
  using nvs_get_same [of nvs s "''fail_ver''" "NStr v"] by (simp add: stored_version_is_def)

lemmas ota_storage = u8_other u8_same stored_other stored_same

section \<open>The update state over time\<close>

text \<open>
  What happens to the namespace: bookings of an attempt, planned reboot markers, boots running the
  guard, and clears of the boot counter. The results are the bookings that were allowed and the
  boots sent to the factory application.
\<close>

datatype ota_event = EvAttempt bool string | EvPlanned bool | EvBoot boot_env | EvClear esp_err

fun ota_event_step :: "'s nvs \<Rightarrow> ota_event \<Rightarrow> 's \<Rightarrow> bool list \<times> guard_result list \<times> 's" where
  "ota_event_step nvs (EvAttempt opened v) s = (let (ok, s) = ota_attempt_allowed opened nvs v s in ([ok], [], s))"
| "ota_event_step nvs (EvPlanned opened) s = ([], [], ota_note_planned_reboot opened nvs s)"
| "ota_event_step nvs (EvBoot e) s = (let (g, s) = ota_boot_loop_guard e nvs s in ([], [g], s))"
| "ota_event_step nvs (EvClear opened) s = ([], [], snd (ota_bootloop_clear_task opened nvs s))"

fun ota_run :: "'s nvs \<Rightarrow> ota_event list \<Rightarrow> 's \<Rightarrow> bool list \<times> guard_result list \<times> 's" where
  "ota_run nvs [] s = ([], [], s)"
| "ota_run nvs (e # es) s =
     (let (a, g, s) = ota_event_step nvs e s; (as, gs, s) = ota_run nvs es s in (a @ as, g @ gs, s))"

lemmas ota_ops = ota_note_planned_reboot_def ota_bootloop_clear_task_def ota_boot_loop_guard_def
  consume_planned_def force_factory_def

lemma used_commit [simp]: "nvs_laws nvs \<Longrightarrow> attempts_used nvs w (snd (nvs_commit nvs s)) = attempts_used nvs w s"
  by (simp add: attempts_used_def)

lemma used_other:
  "nvs_laws nvs \<Longrightarrow> k \<notin> {''fail_ver'', ''fail_cnt''} \<Longrightarrow>
   attempts_used nvs w (snd (nvs_set nvs s k v)) = attempts_used nvs w s"
  by (auto simp: attempts_used_def stored_other u8_other)

text \<open>Only a booking changes the budget.\<close>

lemma planned_keeps_used: "nvs_laws nvs \<Longrightarrow> attempts_used nvs w (ota_note_planned_reboot o1 nvs s) = attempts_used nvs w s"
  by (simp add: ota_note_planned_reboot_def Let_def used_other)

lemma clear_keeps_used: "nvs_laws nvs \<Longrightarrow> attempts_used nvs w (snd (ota_bootloop_clear_task o1 nvs s)) = attempts_used nvs w s"
  using used_other [of nvs "''bootloop''" w s "NU8 0"]
  by (auto simp: ota_bootloop_clear_task_def split: prod.splits)

lemma guard_keeps_used: "nvs_laws nvs \<Longrightarrow> attempts_used nvs w (snd (ota_boot_loop_guard e nvs s)) = attempts_used nvs w s"
  by (simp add: ota_boot_loop_guard_def consume_planned_def force_factory_def Let_def used_other planned_keeps_used)

lemma attempt_counts:
  assumes "nvs_laws nvs" "nvs_accepts nvs" "length v < 24"
  shows "ota_attempt_allowed True nvs v s = (ok, s') \<Longrightarrow>
    ok = (attempts_used nvs v s < 3) \<and>
    attempts_used nvs v s' = (if attempts_used nvs v s < 3 then attempts_used nvs v s + 1 else attempts_used nvs v s)"
  using assms
  by (auto simp: ota_attempt_allowed_def Let_def not_le attempts_used_def ota_storage split: if_splits)

definition only_version :: "string \<Rightarrow> ota_event \<Rightarrow> bool" where
  "only_version v e = (case e of EvAttempt opened w \<Rightarrow> opened \<and> w = v | _ \<Rightarrow> True)"

definition granted :: "bool list \<Rightarrow> nat" where
  "granted as = length (filter (\<lambda>b. b) as)"

lemma granted_simps [simp]:
  "granted [] = 0" "granted (b # bs) = of_bool b + granted bs" "granted (as @ bs) = granted as + granted bs"
  by (simp_all add: granted_def)

definition attempts_in :: "ota_event list \<Rightarrow> nat" where
  "attempts_in es = length (filter (\<lambda>e. case e of EvAttempt _ _ \<Rightarrow> True | _ \<Rightarrow> False) es)"

lemma u8_inc: "unat (x + 1 :: u8) \<le> unat x + 1"
  by (simp add: unat_word_ariths)

lemma u8_inc_below: "x < (3 :: u8) \<Longrightarrow> unat (x + 1) = unat x + 1"
  by (simp add: unat_word_ariths word_less_nat_alt)

lemma u8_ge3: "\<not> x < (3 :: u8) \<longleftrightarrow> 3 \<le> unat x"
  by (simp add: word_less_nat_alt not_less)

lemma event_budget:
  assumes "nvs_laws nvs" "nvs_accepts nvs" "length v < 24" "only_version v e"
    and "ota_event_step nvs e s = (a, g, s')"
  shows "length a = attempts_in [e] \<and>
    granted a + (3 - unat (attempts_used nvs v s')) = 3 - unat (attempts_used nvs v s) \<and>
    (a = [False] \<longrightarrow> 3 \<le> unat (attempts_used nvs v s)) \<and>
    unat (attempts_used nvs v s') = unat (attempts_used nvs v s) + granted a"
proof (cases e)
  case (EvAttempt opened w)
  then have o: "opened" "w = v" using assms(4) by (simp_all add: only_version_def)
  obtain ok t where t: "ota_attempt_allowed True nvs v s = (ok, t)" by (cases "ota_attempt_allowed True nvs v s")
  have "a = [ok]" "s' = t" using assms(5) EvAttempt o t by simp_all
  then show ?thesis using attempt_counts [OF assms(1-3) t] EvAttempt
    by (auto simp: attempts_in_def u8_inc_below u8_ge3 word_less_nat_alt)
next
  case (EvPlanned o1)
  then show ?thesis using assms(5) planned_keeps_used [OF assms(1), of v] by (auto simp: attempts_in_def)
next
  case (EvBoot b)
  then show ?thesis using assms(5) guard_keeps_used [OF assms(1), of v b s] by (auto simp: attempts_in_def split: prod.splits)
next
  case (EvClear o1)
  then show ?thesis using assms(5) clear_keeps_used [OF assms(1), of v o1 s] by (auto simp: attempts_in_def)
qed

lemma attempts_in_Cons: "attempts_in (e # es) = attempts_in [e] + attempts_in es"
  by (simp add: attempts_in_def)

lemma run_budget:
  assumes "nvs_laws nvs" "nvs_accepts nvs" "length v < 24"
  shows "list_all (only_version v) es \<Longrightarrow> ota_run nvs es s = (as, gs, s') \<Longrightarrow>
    length as = attempts_in es \<and>
    granted as = min (attempts_in es) (3 - unat (attempts_used nvs v s)) \<and>
    unat (attempts_used nvs v s') = unat (attempts_used nvs v s) + granted as"
proof (induction es arbitrary: s as gs)
  case Nil
  then show ?case by (simp add: attempts_in_def)
next
  case (Cons e es)
  obtain a g t where t: "ota_event_step nvs e s = (a, g, t)" by (cases "ota_event_step nvs e s")
  obtain as2 gs2 where u: "ota_run nvs es t = (as2, gs2, s')" and as: "as = a @ as2"
    using Cons.prems(2) t by (auto split: prod.splits)
  have e: "length a = attempts_in [e]"
    "granted a + (3 - unat (attempts_used nvs v t)) = 3 - unat (attempts_used nvs v s)"
    "a = [False] \<longrightarrow> 3 \<le> unat (attempts_used nvs v s)"
    "unat (attempts_used nvs v t) = unat (attempts_used nvs v s) + granted a"
    using event_budget [OF assms _ t] Cons.prems(1) by auto
  have i: "length as2 = attempts_in es"
    "granted as2 = min (attempts_in es) (3 - unat (attempts_used nvs v t))"
    "unat (attempts_used nvs v s') = unat (attempts_used nvs v t) + granted as2"
    using Cons.IH [OF _ u] Cons.prems(1) by auto
  have "a \<in> {[], [True], [False]}"
    using t by (cases e) (auto split: prod.splits)
  then show ?case using e i as by (auto simp: attempts_in_Cons [of e es])
qed

text \<open>C10: however bookings of one version, planned reboots, boots and counter clears interleave, that
  version is tried at most three times: exactly as many bookings are granted as the budget has
  left, the rest are refused, and the read-only twin reports the budget as spent exactly when it
  is. The storage is assumed to obey its laws and to accept writes, and the version text to fit
  the buffer it is read into.\<close>

theorem ota_attempts_bounded:
  assumes "nvs_laws nvs" "nvs_accepts nvs" "length v < 24"
    and "list_all (only_version v) es" "ota_run nvs es s = (as, gs, s')"
  shows "length as = attempts_in es \<and>
    granted as = min (attempts_in es) (3 - unat (attempts_used nvs v s)) \<and>
    ota_attempts_exhausted True nvs v s' = (3 \<le> unat (attempts_used nvs v s) + attempts_in es)"
  using run_budget [OF assms]
  by (auto simp: ota_attempts_exhausted_def word_le_nat_alt)

definition fresh_store :: "string \<Rightarrow> nval option" where
  "fresh_store = Map.empty"

theorem ota_attempts_bounded_witness:
  "granted (fst (ota_run map_nvs (replicate 5 (EvAttempt True ''1.2.3'')) fresh_store)) = 3"
proof -
  obtain as gs s' where r: "ota_run map_nvs (replicate 5 (EvAttempt True ''1.2.3'')) fresh_store = (as, gs, s')"
    by (cases "ota_run map_nvs (replicate 5 (EvAttempt True ''1.2.3'')) fresh_store")
  have u: "attempts_used map_nvs ''1.2.3'' fresh_store = 0"
    by (simp add: attempts_used_def stored_version_is_def map_nvs_def fresh_store_def)
  have n: "attempts_in (replicate 5 (EvAttempt True ''1.2.3'')) = 5" by (simp add: attempts_in_def)
  have "list_all (only_version ''1.2.3'') (replicate 5 (EvAttempt True ''1.2.3''))"
    by (simp add: only_version_def list_all_iff)
  from ota_attempts_bounded [OF map_nvs_laws map_nvs_accepts _ this r] show ?thesis using r u n by simp
qed

text \<open>A version text that does not fit the 24-byte buffer is never found again when it is read
  back, so its attempts are not counted: every booking is granted, without bound.\<close>

theorem ota_long_version_unbounded:
  "24 \<le> length v \<Longrightarrow> nvs_laws nvs \<Longrightarrow> nvs_accepts nvs \<Longrightarrow>
   fst (ota_run nvs (replicate n (EvAttempt True v)) s) = replicate n True"
proof (induction n arbitrary: s)
  case (Suc n)
  have "attempts_used nvs v t = 0" for t using Suc.prems(1)
    by (auto simp: attempts_used_def stored_version_is_def split: sum.splits nval.splits)
  then have "fst (ota_attempt_allowed True nvs v s) = True" by (simp add: ota_attempt_allowed_def Let_def)
  then show ?case using Suc.IH [OF Suc.prems] by (auto split: prod.splits) (metis fst_conv)
qed simp

theorem ota_long_version_unbounded_witness:
  "fst (ota_run map_nvs (replicate 9 (EvAttempt True (replicate 24 CHR ''1''))) fresh_store) = replicate 9 True"
  by (rule ota_long_version_unbounded) (simp_all add: map_nvs_laws map_nvs_accepts)

section \<open>The factory fallback\<close>

abbreviation boot_count :: "'s nvs \<Rightarrow> 's \<Rightarrow> u8" where
  "boot_count nvs s \<equiv> nvs_u8_or_0 nvs ''bootloop'' s"

text \<open>Resets that can count against the image, and the boots of a history that had one.\<close>

definition suspicious :: "boot_env \<Rightarrow> bool" where
  "suspicious e \<longleftrightarrow> be_reason e \<notin> {ESP_RST_POWERON, ESP_RST_EXT, ESP_RST_DEEPSLEEP, ESP_RST_SDIO}"

definition suspicious_boots :: "ota_event list \<Rightarrow> nat" where
  "suspicious_boots es = length (filter (\<lambda>e. case e of EvBoot b \<Rightarrow> suspicious b | _ \<Rightarrow> False) es)"

lemma crash_suspicious: "crash_like e p \<Longrightarrow> suspicious e"
  by (auto simp: crash_like_def suspicious_def)

lemma planned_keeps_boots: "nvs_laws nvs \<Longrightarrow> boot_count nvs (ota_note_planned_reboot o1 nvs s) = boot_count nvs s"
  by (simp add: ota_note_planned_reboot_def Let_def u8_other)

lemma consume_keeps_boots: "nvs_laws nvs \<Longrightarrow> boot_count nvs (snd (consume_planned nvs s)) = boot_count nvs s"
  by (simp add: consume_planned_def Let_def u8_other)

lemma attempt_keeps_boots: "nvs_laws nvs \<Longrightarrow> boot_count nvs (snd (ota_attempt_allowed o1 nvs v s)) = boot_count nvs s"
  by (simp add: ota_attempt_allowed_def Let_def u8_other)

lemma clear_boots:
  assumes "nvs_laws nvs" shows "boot_count nvs (snd (ota_bootloop_clear_task o1 nvs s)) \<in> {0, boot_count nvs s}"
  using u8_either [OF assms, of "''bootloop''" s 0] assms
  by (auto simp: ota_bootloop_clear_task_def split: prod.splits)

lemma force_boots:
  assumes "nvs_laws nvs" shows "boot_count nvs (snd (force_factory e nvs s)) \<in> {0, boot_count nvs s}"
  using u8_either [OF assms, of "''bootloop''" s 0] assms
  by (auto simp: force_factory_def Let_def planned_keeps_boots)

lemma guard_boots:
  assumes "nvs_laws nvs" "ota_boot_loop_guard e nvs s = (g, s')"
  shows "unat (boot_count nvs s') \<le> unat (boot_count nvs s) + of_bool (suspicious e)"
    and "g = GUARD_FACTORY \<Longrightarrow> suspicious e \<and> 5 \<le> unat (boot_count nvs s) + 1"
proof -
  obtain p t where c: "consume_planned nvs s = (p, t)" by (cases "consume_planned nvs s")
  have t: "boot_count nvs t = boot_count nvs s" using consume_keeps_boots [OF assms(1), of s] c by simp
  let ?b = "boot_count nvs s + 1"
  let ?u = "snd (nvs_commit nvs (snd (nvs_set nvs t ''bootloop'' (NU8 ?b))))"
  have u: "boot_count nvs ?u \<in> {?b, boot_count nvs s}"
    using u8_either [OF assms(1), of "''bootloop''" t ?b] t assms(1) by simp
  then have le: "unat (boot_count nvs ?u) \<le> unat (boot_count nvs s) + 1"
    using u8_inc [of "boot_count nvs s"] by auto
  have f: "boot_count nvs (snd (force_factory e nvs ?u)) \<in> {0, boot_count nvs ?u}"
    by (rule force_boots [OF assms(1)])
  show "unat (boot_count nvs s') \<le> unat (boot_count nvs s) + of_bool (suspicious e)"
    using assms(2) c t le f crash_suspicious [of e p]
    by (auto simp: ota_boot_loop_guard_def Let_def split: if_splits)
  assume "g = GUARD_FACTORY"
  then have "crash_like e p" "\<not> ?b < 5"
    using assms(2) c t by (auto simp: ota_boot_loop_guard_def Let_def split: if_splits)
  then show "suspicious e \<and> 5 \<le> unat (boot_count nvs s) + 1"
    using crash_suspicious [of e p] u8_inc [of "boot_count nvs s"] by (simp add: word_less_nat_alt not_less)
qed

lemma event_boots:
  assumes "nvs_laws nvs" "ota_event_step nvs e s = (a, g, s')"
  shows "unat (boot_count nvs s') \<le> unat (boot_count nvs s) + suspicious_boots [e]"
    and "GUARD_FACTORY \<in> set g \<Longrightarrow> 5 \<le> unat (boot_count nvs s) + suspicious_boots [e]"
proof -
  show "unat (boot_count nvs s') \<le> unat (boot_count nvs s) + suspicious_boots [e]"
  proof (cases e)
    case (EvAttempt o1 v)
    then have "s' = snd (ota_attempt_allowed o1 nvs v s)" using assms(2) by (auto split: prod.splits)
    then show ?thesis using attempt_keeps_boots [OF assms(1)] by simp
  next
    case (EvPlanned o1)
    then show ?thesis using assms(2) planned_keeps_boots [OF assms(1), of o1 s] by auto
  next
    case (EvBoot b)
    then obtain r where "ota_boot_loop_guard b nvs s = (r, s')" using assms(2) by (auto split: prod.splits)
    then show ?thesis using guard_boots(1) [OF assms(1), of b s r s'] EvBoot by (simp add: suspicious_boots_def of_bool_def split: if_splits)
  next
    case (EvClear o1)
    then show ?thesis using assms(2) clear_boots [OF assms(1), of o1 s] by auto
  qed
  assume "GUARD_FACTORY \<in> set g"
  then show "5 \<le> unat (boot_count nvs s) + suspicious_boots [e]"
    using assms(2) guard_boots(2) [OF assms(1)]
    by (cases e) (auto simp: suspicious_boots_def split: prod.splits)
qed

lemma suspicious_Cons: "suspicious_boots (e # es) = suspicious_boots [e] + suspicious_boots es"
  by (simp add: suspicious_boots_def)

text \<open>C12: the device is sent to the factory application only on evidence. In any history of
  bookings, planned reboots, boots and clears, even with failing storage writes, a boot that forces
  the factory application has at least five boots with a fault or software reset behind it,
  counting those the stored counter already stood for; power-on and external resets never count.\<close>

theorem factory_needs_five_faults:
  "nvs_laws nvs \<Longrightarrow> ota_run nvs es s = (as, gs, s') \<Longrightarrow> GUARD_FACTORY \<in> set gs \<Longrightarrow>
   5 \<le> unat (boot_count nvs s) + suspicious_boots es"
proof (induction es arbitrary: s as gs)
  case (Cons e es)
  obtain a g t where t: "ota_event_step nvs e s = (a, g, t)" by (cases "ota_event_step nvs e s")
  obtain as2 gs2 where u: "ota_run nvs es t = (as2, gs2, s')" and gs: "gs = g @ gs2"
    using Cons.prems(2) t by (auto split: prod.splits)
  show ?case
  proof (cases "GUARD_FACTORY \<in> set g")
    case True
    then show ?thesis using event_boots(2) [OF Cons.prems(1) t] by (simp add: suspicious_Cons [of e es])
  next
    case False
    then have "5 \<le> unat (boot_count nvs t) + suspicious_boots es"
      using Cons.IH [OF Cons.prems(1) u] Cons.prems(3) gs by simp
    then show ?thesis using event_boots(1) [OF Cons.prems(1) t] by (simp add: suspicious_Cons [of e es])
  qed
qed simp

definition panic_boot :: boot_env where
  "panic_boot = \<lparr>be_reason = ESP_RST_PANIC, be_running = True, be_factory = False, be_pending_verify = False,
     be_otadata = True, be_erase = ESP_OK, be_open_guard = True, be_open_clear = True, be_open_planned = True\<rparr>"

theorem factory_needs_five_faults_witness:
  "fst (snd (ota_run map_nvs (replicate 5 (EvBoot panic_boot)) fresh_store)) =
     replicate 4 GUARD_CONTINUE @ [GUARD_FACTORY] \<and>
   5 \<le> unat (boot_count map_nvs fresh_store) + suspicious_boots (replicate 5 (EvBoot panic_boot))"
proof -
  let ?r = "ota_run map_nvs (replicate 5 (EvBoot panic_boot)) fresh_store"
  have g: "fst (snd ?r) = replicate 4 GUARD_CONTINUE @ [GUARD_FACTORY]" by code_simp
  have r: "?r = (fst ?r, fst (snd ?r), snd (snd ?r))" by simp
  have "GUARD_FACTORY \<in> set (fst (snd ?r))" unfolding g by simp
  from factory_needs_five_faults [OF map_nvs_laws r this] g show ?thesis by blast
qed

section \<open>The fallback happens\<close>

text \<open>A boot after a fault, with the platform ready for the fallback.\<close>

definition fault_boot :: "boot_env \<Rightarrow> bool" where
  "fault_boot e \<longleftrightarrow> crash_like e True \<and> \<not> (be_running e \<and> be_factory e) \<and> be_otadata e \<and> be_erase e = ESP_OK \<and>
     be_open_guard e \<and> be_open_clear e \<and> be_open_planned e"

lemma crash_planned: "crash_like e True \<Longrightarrow> crash_like e p"
  by (auto simp: crash_like_def)

lemma guard_fault:
  assumes "nvs_laws nvs" "nvs_accepts nvs" "fault_boot e" "unat (boot_count nvs s) < 4"
  shows "fst (ota_boot_loop_guard e nvs s) = GUARD_CONTINUE \<and>
    unat (boot_count nvs (snd (ota_boot_loop_guard e nvs s))) = unat (boot_count nvs s) + 1"
proof -
  obtain p t where c: "consume_planned nvs s = (p, t)" by (cases "consume_planned nvs s")
  have t: "boot_count nvs t = boot_count nvs s" using consume_keeps_boots [OF assms(1), of s] c by simp
  have n: "unat (boot_count nvs s + 1) = unat (boot_count nvs s) + 1" using assms(4) by (simp add: unat_word_ariths)
  then have "boot_count nvs s + 1 < 5" using assms(4) by (simp add: word_less_nat_alt)
  then show ?thesis using assms(1-3) c t n crash_planned [of e p]
    by (simp add: ota_boot_loop_guard_def fault_boot_def Let_def u8_same)
qed

lemma guard_fallback:
  assumes "nvs_laws nvs" "nvs_accepts nvs" "fault_boot e" "boot_count nvs s = 4"
  shows "fst (ota_boot_loop_guard e nvs s) = GUARD_FACTORY \<and>
    boot_count nvs (snd (ota_boot_loop_guard e nvs s)) = 0 \<and>
    nvs_u8_or_0 nvs ''planned_rb'' (snd (ota_boot_loop_guard e nvs s)) = 1"
proof -
  obtain p t where c: "consume_planned nvs s = (p, t)" by (cases "consume_planned nvs s")
  have t: "boot_count nvs t = boot_count nvs s" using consume_keeps_boots [OF assms(1), of s] c by simp
  show ?thesis using assms c t crash_planned [of e p]
    by (simp add: ota_boot_loop_guard_def fault_boot_def force_factory_def ota_note_planned_reboot_def Let_def u8_same u8_other)
qed

lemma guard_run_faults:
  assumes "nvs_laws nvs" "nvs_accepts nvs"
  shows "list_all fault_boot bs \<Longrightarrow> unat (boot_count nvs s) + length bs \<le> 4 \<Longrightarrow>
    fst (snd (ota_run nvs (map EvBoot bs) s)) = replicate (length bs) GUARD_CONTINUE \<and>
    unat (boot_count nvs (snd (snd (ota_run nvs (map EvBoot bs) s)))) = unat (boot_count nvs s) + length bs"
proof (induction bs arbitrary: s)
  case (Cons b bs)
  let ?t = "snd (ota_boot_loop_guard b nvs s)"
  have g: "fst (ota_boot_loop_guard b nvs s) = GUARD_CONTINUE" "unat (boot_count nvs ?t) = unat (boot_count nvs s) + 1"
    using guard_fault [OF assms, of b s] Cons.prems by auto
  then show ?case using Cons.IH [of ?t] Cons.prems by (simp add: split_beta)
qed simp

lemma run_append:
  "ota_run nvs (xs @ ys) s =
     (let (a, g, s) = ota_run nvs xs s; (b, h, s) = ota_run nvs ys s in (a @ b, g @ h, s))"
  by (induction xs arbitrary: s) (auto simp: Let_def split: prod.splits)

text \<open>C11: the fallback happens. With a storage that works, from a cleared counter, the fifth of five
  boots in a row after a fault, and no earlier one, erases the boot selection and restarts into the
  factory application; the counter is then zero, and the restart itself is marked as planned so
  that the software reset it causes is not counted again.\<close>

theorem five_faults_reach_factory:
  assumes "nvs_laws nvs" "nvs_accepts nvs" "list_all fault_boot bs" "length bs = 5" "boot_count nvs s = 0"
  shows "fst (snd (ota_run nvs (map EvBoot bs) s)) = replicate 4 GUARD_CONTINUE @ [GUARD_FACTORY] \<and>
    boot_count nvs (snd (snd (ota_run nvs (map EvBoot bs) s))) = 0 \<and>
    (\<forall>e. be_reason e = ESP_RST_SW \<longrightarrow>
       fst (ota_boot_loop_guard e nvs (snd (snd (ota_run nvs (map EvBoot bs) s)))) = GUARD_CONTINUE \<and>
       boot_count nvs (snd (ota_boot_loop_guard e nvs (snd (snd (ota_run nvs (map EvBoot bs) s))))) = 0)"
proof -
  obtain cs b where bs: "bs = cs @ [b]" using assms(4) by (cases bs rule: rev_cases) auto
  have cs: "list_all fault_boot cs" "length cs = 4" "fault_boot b" using assms(3,4) bs by auto
  let ?t = "snd (snd (ota_run nvs (map EvBoot cs) s))"
  have t: "fst (snd (ota_run nvs (map EvBoot cs) s)) = replicate 4 GUARD_CONTINUE" "unat (boot_count nvs ?t) = 4"
    using guard_run_faults [OF assms(1,2) cs(1), of s] cs(2) assms(5) by simp_all
  have t4: "boot_count nvs ?t = 4" using t(2) by (simp add: unsigned_word_eqI)
  let ?u = "snd (ota_boot_loop_guard b nvs ?t)"
  have f: "fst (ota_boot_loop_guard b nvs ?t) = GUARD_FACTORY" "boot_count nvs ?u = 0"
    "nvs_u8_or_0 nvs ''planned_rb'' ?u = 1"
    using guard_fallback [OF assms(1,2) cs(3) t4] by auto
  have r: "fst (snd (ota_run nvs (map EvBoot bs) s)) = replicate 4 GUARD_CONTINUE @ [GUARD_FACTORY]"
    "snd (snd (ota_run nvs (map EvBoot bs) s)) = ?u"
    using t(1) f(1) by (simp_all add: bs run_append split_beta Let_def)
  have n: "fst (ota_boot_loop_guard e nvs ?u) = GUARD_CONTINUE \<and> boot_count nvs (snd (ota_boot_loop_guard e nvs ?u)) = 0"
    if e: "be_reason e = ESP_RST_SW" for e
    using f(2,3) e assms(1) by (simp add: ota_boot_loop_guard_def consume_planned_def crash_like_def Let_def u8_other)
  show ?thesis unfolding r using f(2) n by blast
qed

theorem five_faults_reach_factory_witness:
  "fst (snd (ota_run map_nvs (map EvBoot (replicate 5 panic_boot)) fresh_store)) = replicate 4 GUARD_CONTINUE @ [GUARD_FACTORY]"
proof -
  have b: "list_all fault_boot (replicate 5 panic_boot)"
    by (simp add: list_all_iff fault_boot_def panic_boot_def crash_like_def)
  have z: "boot_count map_nvs fresh_store = 0" by (simp add: nvs_u8_or_0_def map_nvs_def fresh_store_def)
  show ?thesis using five_faults_reach_factory [OF map_nvs_laws map_nvs_accepts b _ z] by simp
qed

end
