(* ===== verification/Ota_Confirm.thy ===== *)
theory Ota_Confirm
  imports Ota_Policy Ntrip_Ingest
begin

text \<open>
  The health task that confirms or rolls back a fresh image (\<open>ota_mark_valid_task\<close> of
  \<open>src/main/update.c\<close>). What a check reads (the elapsed time, the sender totals, the supervisor's
  health, the message freshness, the free heap) is a record; the task is a loop over the checks it
  makes, which may never end, so it runs over any finite list of them. The answers of the image
  functions are a record as well.
\<close>

section \<open>The checks\<close>

record check_in =
  k_elapsed_ms :: int
  k_totals :: ntrip_tx_totals
  k_health :: supervisor_health_t
  k_fresh :: msg_freshness
  k_fresh_final :: msg_freshness
  k_heap :: nat

record confirm_state =
  c_have_prev :: bool
  c_outage_logged :: bool
  c_prev_rec_gnss :: u32
  c_prev_frames :: u64
  c_prev_bytes :: u64
  c_stable :: int

definition confirm_init :: confirm_state where
  "confirm_init = \<lparr>c_have_prev = False, c_outage_logged = False, c_prev_rec_gnss = 0, c_prev_frames = 0,
     c_prev_bytes = 0, c_stable = 0\<rparr>"

datatype confirm_result = CONFIRM_CONTINUE | CONFIRM_SEMANTIC | CONFIRM_UNPROVISIONED | CONFIRM_LOCAL_FAULT

abbreviation OTA_CONFIRM_STABLE_N :: int where "OTA_CONFIRM_STABLE_N \<equiv> 3"
abbreviation OTA_CONFIRM_DEADLINE_MS :: int where "OTA_CONFIRM_DEADLINE_MS \<equiv> 1800000"
abbreviation OTA_CONFIRM_MIN_FRAME_DELTA :: u64 where "OTA_CONFIRM_MIN_FRAME_DELTA \<equiv> 10"
abbreviation OTA_CONFIRM_MIN_BYTE_DELTA :: u64 where "OTA_CONFIRM_MIN_BYTE_DELTA \<equiv> 2048"
abbreviation OTA_CONFIRM_UNPROV_MS :: int where "OTA_CONFIRM_UNPROV_MS \<equiv> 600000"
abbreviation OTA_CONFIRM_MIN_HEAP_B :: nat where "OTA_CONFIRM_MIN_HEAP_B \<equiv> 20480"

definition confirm_good :: "check_in \<Rightarrow> confirm_state \<Rightarrow> bool" where
  "confirm_good k c =
     (let t = k_totals k;
          d_frames = (if to_frames_ok t > c_prev_frames c then to_frames_ok t - c_prev_frames c else 0);
          d_bytes = (if to_accepted t > c_prev_bytes c then to_accepted t - c_prev_bytes c else 0);
          no_new_rec = (c_have_prev c \<and> h_recoveries_gnss (k_health k) = c_prev_rec_gnss c);
          gnss_ok = (d_frames \<ge> OTA_CONFIRM_MIN_FRAME_DELTA \<and> mf_all_fresh (k_fresh k));
          caster_good = (to_instances t > 0 \<and> d_bytes \<ge> OTA_CONFIRM_MIN_BYTE_DELTA)
      in gnss_ok \<and> no_new_rec \<and> caster_good)"

definition confirm_check :: "check_in \<Rightarrow> confirm_state \<Rightarrow> confirm_result \<times> confirm_state" where
  "confirm_check k c =
     (let good = confirm_good k c;
          c = c\<lparr>c_prev_frames := to_frames_ok (k_totals k), c_prev_bytes := to_accepted (k_totals k),
            c_prev_rec_gnss := h_recoveries_gnss (k_health k), c_have_prev := True,
            c_stable := (if good then c_stable c + 1 else 0)\<rparr>
      in if c_stable c \<ge> OTA_CONFIRM_STABLE_N then (CONFIRM_SEMANTIC, c)
         else if to_instances (k_totals k) = 0 \<and> k_elapsed_ms k \<ge> OTA_CONFIRM_UNPROV_MS \<and>
                 k_heap k > OTA_CONFIRM_MIN_HEAP_B then (CONFIRM_UNPROVISIONED, c)
         else if k_elapsed_ms k \<ge> OTA_CONFIRM_DEADLINE_MS
         then if mf_all_fresh (k_fresh_final k) then (CONFIRM_CONTINUE, c\<lparr>c_outage_logged := True\<rparr>)
              else (CONFIRM_LOCAL_FAULT, c)
         else (CONFIRM_CONTINUE, c))"

fun confirm_loop :: "check_in list \<Rightarrow> confirm_state \<Rightarrow> confirm_result \<times> confirm_state" where
  "confirm_loop [] c = (CONFIRM_CONTINUE, c)"
| "confirm_loop (k # ks) c =
     (let (r, c) = confirm_check k c in if r = CONFIRM_CONTINUE then confirm_loop ks c else (r, c))"

section \<open>The outcome\<close>

text \<open>
  Whether the running image waits for its confirmation, what confirming it and rolling post return
  (a rollback that works does not return), and whether the storage namespace opens.
\<close>

record image_env =
  im_pending :: bool
  im_mark_valid :: esp_err
  im_rollback_works :: bool
  im_open :: bool

datatype task_outcome = STILL_CHECKING | CONFIRMED | NOT_CONFIRMED | ROLLED_BACK | ROLLBACK_FAILED | FAULT_REPORTED

definition confirm_finish :: "image_env \<Rightarrow> 's nvs \<Rightarrow> 's \<Rightarrow> task_outcome \<times> 's" where
  "confirm_finish im nvs s =
     (let confirmed = (im_pending im \<and> im_mark_valid im = ESP_OK)
      in if confirmed
         then (CONFIRMED,
               if im_open im
               then let s = snd (nvs_erase_key nvs s ''fail_ver''); s = snd (nvs_erase_key nvs s ''fail_cnt'')
                    in snd (nvs_commit nvs s)
               else s)
         else (NOT_CONFIRMED, s))"

definition ota_mark_valid_task :: "check_in list \<Rightarrow> image_env \<Rightarrow> 's nvs \<Rightarrow> 's \<Rightarrow> task_outcome \<times> 's" where
  "ota_mark_valid_task ks im nvs s =
     (case fst (confirm_loop ks confirm_init) of
        CONFIRM_CONTINUE \<Rightarrow> (STILL_CHECKING, s)
      | CONFIRM_LOCAL_FAULT \<Rightarrow>
          (if im_pending im then if im_rollback_works im then ROLLED_BACK else ROLLBACK_FAILED else FAULT_REPORTED, s)
      | _ \<Rightarrow> confirm_finish im nvs s)"

section \<open>What the checks prove\<close>

text \<open>Two consecutive checks between which the data plane worked.\<close>

definition worked :: "check_in \<Rightarrow> check_in \<Rightarrow> bool" where
  "worked a b \<longleftrightarrow>
     mf_all_fresh (k_fresh b) \<and> to_instances (k_totals b) > 0 \<and>
     unat (to_frames_ok (k_totals a)) + 10 \<le> unat (to_frames_ok (k_totals b)) \<and>
     unat (to_accepted (k_totals a)) + 2048 \<le> unat (to_accepted (k_totals b)) \<and>
     h_recoveries_gnss (k_health b) = h_recoveries_gnss (k_health a)"

text \<open>A check that finds no uploader, ten minutes or more after the start, and enough free heap.\<close>

definition unprovisioned_check :: "check_in \<Rightarrow> bool" where
  "unprovisioned_check k \<longleftrightarrow> to_instances (k_totals k) = 0 \<and> OTA_CONFIRM_UNPROV_MS \<le> k_elapsed_ms k \<and>
     OTA_CONFIRM_MIN_HEAP_B < k_heap k"

lemma delta_ge:
  fixes x y d :: u64
  assumes "d \<le> (if x > y then x - y else 0)" "0 < d"
  shows "unat y + unat d \<le> unat x"
proof -
  have "y < x" "d \<le> x - y" using assms by (auto split: if_splits)
  then show ?thesis by (simp add: word_le_nat_alt word_less_nat_alt unat_sub)
qed

text \<open>What the state remembers of the check before: \<open>a\<close>, and how many good ones end there.\<close>

definition remembers :: "check_in list \<Rightarrow> confirm_state \<Rightarrow> bool" where
  "remembers hist c \<longleftrightarrow>
     (case hist of [] \<Rightarrow> \<not> c_have_prev c \<and> c_stable c = 0
      | a # _ \<Rightarrow> c_have_prev c \<and> c_prev_frames c = to_frames_ok (k_totals a) \<and>
          c_prev_bytes c = to_accepted (k_totals a) \<and> c_prev_rec_gnss c = h_recoveries_gnss (k_health a)) \<and>
     0 \<le> c_stable c \<and> nat (c_stable c) + 1 \<le> max 1 (length hist) \<and>
     (\<forall>i < nat (c_stable c). worked (hist ! (i + 1)) (hist ! i))"

lemma good_worked:
  assumes "remembers (a # hist) c" "confirm_good k c" shows "worked a k"
proof -
  have p: "c_prev_frames c = to_frames_ok (k_totals a)" "c_prev_bytes c = to_accepted (k_totals a)"
    "c_prev_rec_gnss c = h_recoveries_gnss (k_health a)" using assms(1) by (simp_all add: remembers_def)
  have g: "10 \<le> (if to_frames_ok (k_totals k) > to_frames_ok (k_totals a)
      then to_frames_ok (k_totals k) - to_frames_ok (k_totals a) else 0)"
    "2048 \<le> (if to_accepted (k_totals k) > to_accepted (k_totals a)
      then to_accepted (k_totals k) - to_accepted (k_totals a) else 0)"
    "mf_all_fresh (k_fresh k)" "to_instances (k_totals k) > 0"
    "h_recoveries_gnss (k_health k) = h_recoveries_gnss (k_health a)"
    using assms(2) unfolding confirm_good_def Let_def p by - (elim conjE, assumption)+
  show ?thesis using delta_ge [OF g(1)] delta_ge [OF g(2)] g(3-5) by (simp add: worked_def)
qed

lemma good_has_prev: "confirm_good k c \<Longrightarrow> c_have_prev c"
  by (simp add: confirm_good_def Let_def)

lemma check_state:
  assumes "confirm_check k c = (r, c')"
  shows "c_have_prev c' \<and> c_prev_frames c' = to_frames_ok (k_totals k) \<and> c_prev_bytes c' = to_accepted (k_totals k) \<and>
    c_prev_rec_gnss c' = h_recoveries_gnss (k_health k) \<and> c_stable c' = (if confirm_good k c then c_stable c + 1 else 0)"
    and "r = CONFIRM_SEMANTIC \<Longrightarrow> 3 \<le> c_stable c'"
    and "r = CONFIRM_LOCAL_FAULT \<Longrightarrow> OTA_CONFIRM_DEADLINE_MS \<le> k_elapsed_ms k \<and> \<not> mf_all_fresh (k_fresh_final k)"
    and "r = CONFIRM_UNPROVISIONED \<Longrightarrow> unprovisioned_check k"
  using assms by (auto simp: confirm_check_def unprovisioned_check_def Let_def split: if_splits)

lemma check_remembers:
  assumes "remembers hist c" "confirm_check k c = (r, c')" shows "remembers (k # hist) c'"
proof (cases "confirm_good k c")
  case False
  then show ?thesis using check_state(1) [OF assms(2)] by (simp add: remembers_def)
next
  case True
  then obtain a h where hist: "hist = a # h"
    using good_has_prev [OF True] assms(1) by (cases hist) (simp_all add: remembers_def)
  have w: "worked a k" using good_worked [OF _ True] assms(1) hist by simp
  have r: "0 \<le> c_stable c" "nat (c_stable c) + 1 \<le> length hist" "\<forall>i < nat (c_stable c). worked (hist ! (i + 1)) (hist ! i)"
    using assms(1) hist by (auto simp: remembers_def)
  have s: "nat (c_stable c + 1) = Suc (nat (c_stable c))" using r(1) by simp
  have "\<forall>i < Suc (nat (c_stable c)). worked ((k # hist) ! (i + 1)) ((k # hist) ! i)"
    using w r(3) hist by (auto simp: less_Suc_eq_0_disj)
  then show ?thesis using check_state(1) [OF assms(2)] True r s hist by (simp add: remembers_def)
qed

lemma loop_remembers:
  "remembers hist c \<Longrightarrow> confirm_loop ks c = (r, c') \<Longrightarrow> r \<noteq> CONFIRM_CONTINUE \<Longrightarrow>
   \<exists>front k post. ks = front @ k # post \<and> remembers (k # rev front @ hist) c' \<and>
     (r = CONFIRM_SEMANTIC \<longrightarrow> 3 \<le> c_stable c') \<and>
     (r = CONFIRM_LOCAL_FAULT \<longrightarrow> OTA_CONFIRM_DEADLINE_MS \<le> k_elapsed_ms k \<and> \<not> mf_all_fresh (k_fresh_final k)) \<and>
     (r = CONFIRM_UNPROVISIONED \<longrightarrow> unprovisioned_check k)"
proof (induction ks arbitrary: hist c)
  case (Cons k ks)
  obtain q d where q: "confirm_check k c = (q, d)" by (cases "confirm_check k c")
  have m: "remembers (k # hist) d" by (rule check_remembers [OF Cons.prems(1) q])
  show ?case
  proof (cases "q = CONFIRM_CONTINUE")
    case True
    then have "confirm_loop ks d = (r, c')" using Cons.prems(2) q by simp
    from Cons.IH [OF m this Cons.prems(3)] obtain front j post where
      "ks = front @ j # post" "remembers (j # rev front @ k # hist) c'"
      "(r = CONFIRM_SEMANTIC \<longrightarrow> 3 \<le> c_stable c') \<and>
       (r = CONFIRM_LOCAL_FAULT \<longrightarrow> OTA_CONFIRM_DEADLINE_MS \<le> k_elapsed_ms j \<and> \<not> mf_all_fresh (k_fresh_final j)) \<and>
       (r = CONFIRM_UNPROVISIONED \<longrightarrow> unprovisioned_check j)"
      by blast
    then show ?thesis by (intro exI [of _ "k # front"] exI [of _ j] exI [of _ post]) simp
  next
    case False
    then have e: "r = q" "c' = d" using Cons.prems(2) q by simp_all
    show ?thesis using m check_state(2-4) [OF q] e
      by (intro exI [of _ "[]"] exI [of _ k] exI [of _ ks]) simp
  qed
qed simp

lemma init_remembers: "remembers [] confirm_init"
  by (simp add: remembers_def confirm_init_def)

lemma three_worked:
  assumes "remembers (k # rev front) c" "3 \<le> c_stable c"
  shows "\<exists>pre k0 k1 k2. front = pre @ [k0, k1, k2] \<and> worked k0 k1 \<and> worked k1 k2 \<and> worked k2 k"
proof -
  have n: "3 \<le> nat (c_stable c)" "nat (c_stable c) \<le> length front"
    "\<forall>i < nat (c_stable c). worked ((k # rev front) ! (i + 1)) ((k # rev front) ! i)"
    using assms by (auto simp: remembers_def)
  then obtain k2 k1 k0 h where h: "rev front = k2 # k1 # k0 # h"
    by (metis (no_types, opaque_lifting) Suc_le_length_iff le_trans length_rev numeral_3_eq_3)
  have w: "worked ((k # rev front) ! (i + 1)) ((k # rev front) ! i)" if "i < 3" for i using n that by simp
  have "worked k2 k" "worked k1 k2" "worked k0 k1" using w [of 0] w [of 1] w [of 2] h by simp_all
  moreover have "front = rev h @ [k0, k1, k2]" using h by (metis rev_rev_ident rev.simps(2) append.assoc append_Cons append_Nil)
  ultimately show ?thesis by blast
qed

text \<open>C9: an image is confirmed for its data plane only on proof: the checks end with four in a row
  between which, three times over, every required message type was fresh, an uploader existed, at
  least ten valid frames were parsed and 2048 bytes accepted by the caster since the check before,
  and no recovery of the receiver fired. The only other way to confirm is one check that is made ten minutes or
  more after the start, counts no uploader at that moment and finds more than 20480 bytes of heap; what earlier
  checks counted does not matter for it. In both cases the image was waiting for its confirmation, and the call
  that marks it valid succeeded.\<close>

theorem confirm_needs_proof:
  "ota_mark_valid_task ks im nvs s = (CONFIRMED, s') \<Longrightarrow>
   im_pending im \<and> im_mark_valid im = ESP_OK \<and>
   ((\<exists>pre k0 k1 k2 k3 rest. ks = pre @ [k0, k1, k2, k3] @ rest \<and> worked k0 k1 \<and> worked k1 k2 \<and> worked k2 k3) \<or>
    (\<exists>k \<in> set ks. unprovisioned_check k))"
proof -
  assume h: "ota_mark_valid_task ks im nvs s = (CONFIRMED, s')"
  obtain r c where r: "confirm_loop ks confirm_init = (r, c)" by (cases "confirm_loop ks confirm_init")
  have e: "r \<in> {CONFIRM_SEMANTIC, CONFIRM_UNPROVISIONED}" "confirm_finish im nvs s = (CONFIRMED, s')"
    using h r by (auto simp: ota_mark_valid_task_def split: confirm_result.splits if_splits)
  have i: "im_pending im \<and> im_mark_valid im = ESP_OK"
    using e(2) by (auto simp: confirm_finish_def Let_def split: if_splits)
  have "r \<noteq> CONFIRM_CONTINUE" using e(1) by auto
  from loop_remembers [OF init_remembers r this] obtain front k post where k: "ks = front @ k # post"
    "remembers (k # rev front) c" "r = CONFIRM_SEMANTIC \<longrightarrow> 3 \<le> c_stable c"
    "r = CONFIRM_UNPROVISIONED \<longrightarrow> unprovisioned_check k" by auto
  show ?thesis
  proof (cases "r = CONFIRM_SEMANTIC")
    case True
    then obtain pre k0 k1 k2 where w: "front = pre @ [k0, k1, k2]" "worked k0 k1" "worked k1 k2" "worked k2 k"
      using three_worked [OF k(2)] k(3) by blast
    then have "ks = pre @ [k0, k1, k2, k] @ post" using k(1) by simp
    then show ?thesis using w i by blast
  next
    case False
    then show ?thesis using e(1) k(1,4) i by auto
  qed
qed

definition mk_check :: "int \<Rightarrow> u64 \<Rightarrow> u64 \<Rightarrow> u32 \<Rightarrow> bool \<Rightarrow> check_in" where
  "mk_check elapsed frames bytes inst fresh =
     \<lparr>k_elapsed_ms = elapsed,
      k_totals = \<lparr>to_frames_ok = frames, to_bytes_ok = 0, to_bytes_discarded = 0, to_crc_errors = 0,
        to_accepted = bytes, to_sent_frames = 0, to_dropped = 0, to_skipped = 0, to_stale = 0, to_eagain = 0,
        to_reconnects = 0, to_max_queue_age = 0, to_instances = inst, to_connected = inst, to_req_fresh = fresh,
        to_req_missing = 0\<rparr>,
      k_health = \<lparr>h_uptime_s = 0, h_gnss_silent_s = 0, h_caster_silent_s = 0, h_ip_down_s = 0, h_gnss_ok = True,
        h_caster_ok = True, h_link_ok = True, h_recoveries_gnss = 0, h_recoveries_caster = 0,
        h_recoveries_wifi = 0, h_reboots_supervised = 0\<rparr>,
      k_fresh = \<lparr>mf_type = [], mf_age_ms = [], mf_fresh = [], mf_all_fresh = fresh\<rparr>,
      k_fresh_final = \<lparr>mf_type = [], mf_age_ms = [], mf_fresh = [], mf_all_fresh = fresh\<rparr>,
      k_heap = 60000\<rparr>"

definition demo_checks :: "check_in list" where
  "demo_checks = map (\<lambda>i. mk_check (10000 * (int i + 1)) (of_nat (40 * i)) (of_nat (5000 * i)) 1 True) [0..<5]"

definition demo_image :: image_env where
  "demo_image = \<lparr>im_pending = True, im_mark_valid = ESP_OK, im_rollback_works = True, im_open = True\<rparr>"

lemma demo_checks_eval:
  "demo_checks = [mk_check 10000 0 0 1 True, mk_check 20000 40 5000 1 True, mk_check 30000 80 10000 1 True,
     mk_check 40000 120 15000 1 True, mk_check 50000 160 20000 1 True]"
  by (simp add: demo_checks_def upt_rec)

lemmas confirm_eval = ota_mark_valid_task_def confirm_check_def confirm_good_def confirm_init_def mk_check_def
  confirm_finish_def demo_image_def Let_def

theorem confirm_needs_proof_witness:
  "fst (ota_mark_valid_task demo_checks demo_image map_nvs fresh_store) = CONFIRMED \<and> im_pending demo_image"
proof -
  let ?r = "ota_mark_valid_task demo_checks demo_image map_nvs fresh_store"
  have c: "fst ?r = CONFIRMED" unfolding demo_checks_eval by (simp add: confirm_eval)
  have "?r = (CONFIRMED, snd ?r)" using c by (simp add: prod_eq_iff)
  from confirm_needs_proof [OF this] c show ?thesis by blast
qed

text \<open>C25: an image is rolled back only for a fault of the device itself: the deadline of thirty minutes
  has passed and the receiver does not produce the required messages at that moment, and the image
  was still waiting for its confirmation. As long as the receiver is healthy an outage of the
  network never ends the task against the image, and no outcome other than a confirmation changes
  the stored attempt counters.\<close>

theorem rollback_only_for_local_fault:
  "ota_mark_valid_task ks im nvs s = (r, s') \<Longrightarrow>
   (r = ROLLED_BACK \<longrightarrow> im_pending im \<and>
      (\<exists>k \<in> set ks. OTA_CONFIRM_DEADLINE_MS \<le> k_elapsed_ms k \<and> \<not> mf_all_fresh (k_fresh_final k))) \<and>
   ((\<forall>k \<in> set ks. mf_all_fresh (k_fresh_final k)) \<longrightarrow> r \<in> {STILL_CHECKING, CONFIRMED, NOT_CONFIRMED}) \<and>
   (r \<noteq> CONFIRMED \<longrightarrow> s' = s)"
proof -
  assume h: "ota_mark_valid_task ks im nvs s = (r, s')"
  obtain q c where q: "confirm_loop ks confirm_init = (q, c)" by (cases "confirm_loop ks confirm_init")
  have fault: "\<exists>k \<in> set ks. OTA_CONFIRM_DEADLINE_MS \<le> k_elapsed_ms k \<and> \<not> mf_all_fresh (k_fresh_final k)"
    if l: "q = CONFIRM_LOCAL_FAULT"
  proof -
    have "q \<noteq> CONFIRM_CONTINUE" using l by simp
    from loop_remembers [OF init_remembers q this] show ?thesis using l by auto
  qed
  show ?thesis using h q fault
    by (cases q) (auto simp: ota_mark_valid_task_def confirm_finish_def Let_def split: if_splits)
qed

theorem rollback_only_for_local_fault_witness:
  "fst (ota_mark_valid_task [mk_check 1800000 0 0 1 False] demo_image map_nvs fresh_store) = ROLLED_BACK \<and>
   snd (ota_mark_valid_task [mk_check 1800000 0 0 1 False] demo_image map_nvs fresh_store) = fresh_store"
proof -
  let ?r = "ota_mark_valid_task [mk_check 1800000 0 0 1 False] demo_image map_nvs fresh_store"
  have c: "fst ?r = ROLLED_BACK" by (simp add: confirm_eval)
  have "?r = (ROLLED_BACK, snd ?r)" using c by (simp add: prod_eq_iff)
  from rollback_only_for_local_fault [OF this] c show ?thesis by blast
qed

end
