(* ===== verification/Ota_Install.thy ===== *)
theory Ota_Install
  imports Ota_Policy "HOL-Library.Signed_Division"
begin

text \<open>
  Downloading and installing an update (\<open>src/main/update.c\<close>): the firmware image, the web
  partition, the list of files of a manifest, the check at boot and the daily check. The HTTP
  client, the flash functions and the OTA library are parameters: records of what each call
  returns. Their effects are explicit: the calls made on the update handle are logged in order,
  partitions are lists of bytes. The restart after an installation is a result value.
\<close>

section \<open>The environment\<close>

text \<open>One HTTP exchange: the chunks read are followed by the last read, zero or negative.\<close>

record http =
  ht_client :: bool
  ht_open :: esp_err
  ht_length :: int
  ht_status :: int
  ht_chunks :: "u8 list list"
  ht_last :: int

record app_flash =
  fl_partition :: bool
  fl_begin :: esp_err
  fl_write :: "nat \<Rightarrow> esp_err"
  fl_end :: esp_err
  fl_set_boot :: esp_err

datatype ota_call = OTA_BEGIN | OTA_WRITE "u8 list" | OTA_ABORT | OTA_END | OTA_SET_BOOT

record ota_state =
  total_file_size :: int
  total_file_write :: int
  o_calls :: "ota_call list"
  o_progress :: "int list"
  o_www :: "u8 list"
  o_spiffs :: "u8 list"

abbreviation MIN_OTA_HEAP :: nat where "MIN_OTA_HEAP \<equiv> 112640"

definition log_call :: "ota_call \<Rightarrow> ota_state \<Rightarrow> ota_state" where
  "log_call c st = st\<lparr>o_calls := o_calls st @ [c]\<rparr>"

text \<open>The bytes of a chunk are counted and the progress is sent.\<close>

definition count_chunk :: "nat \<Rightarrow> ota_state \<Rightarrow> ota_state" where
  "count_chunk n st =
     (let st = st\<lparr>total_file_write := total_file_write st + int n\<rparr>;
          progress = (if total_file_size st > 0 then (total_file_write st * 100) sdiv total_file_size st else 0)
      in st\<lparr>o_progress := o_progress st @ [progress]\<rparr>)"

section \<open>The firmware image\<close>

text \<open>The download loop: the last value of \<open>data_read\<close>, whether a write broke it, and the state.\<close>

fun firmware_loop :: "(nat \<Rightarrow> esp_err) \<Rightarrow> int \<Rightarrow> nat \<Rightarrow> u8 list list \<Rightarrow> ota_state \<Rightarrow> int \<times> bool \<times> ota_state" where
  "firmware_loop wr fin i [] st = (fin, False, st)"
| "firmware_loop wr fin i (c # cs) st =
     (let st = log_call (OTA_WRITE c) st
      in if wr i \<noteq> ESP_OK then (int (length c), True, st)
         else firmware_loop wr fin (i + 1) cs (count_chunk (length c) st))"

definition firmware_finish :: "app_flash \<Rightarrow> int \<Rightarrow> int \<Rightarrow> bool \<Rightarrow> ota_state \<Rightarrow> esp_err \<times> ota_state" where
  "firmware_finish fl content_length data_read downloadBreak st =
     (if data_read < 0 \<or> downloadBreak then (ESP_FAIL, log_call OTA_ABORT st)
      else if total_file_write st \<noteq> content_length then (ESP_FAIL, log_call OTA_ABORT st)
      else let st = log_call OTA_END st
           in if fl_end fl \<noteq> ESP_OK then (fl_end fl, st) else (fl_set_boot fl, log_call OTA_SET_BOOT st))"

definition ota_update_firmware :: "nat \<Rightarrow> http \<Rightarrow> app_flash \<Rightarrow> ota_state \<Rightarrow> esp_err \<times> ota_state" where
  "ota_update_firmware heap ht fl st =
     (if heap < MIN_OTA_HEAP then (ESP_FAIL, st)
      else if \<not> ht_client ht then (ESP_FAIL, st)
      else if ht_open ht \<noteq> ESP_OK then (ht_open ht, st)
      else if \<not> fl_partition fl then (ESP_FAIL, st)
      else if ht_status ht \<noteq> 200 then (ESP_FAIL, st)
      else if ht_length ht \<le> 0 then (ESP_FAIL, st)
      else let st = log_call OTA_BEGIN st
           in if fl_begin fl \<noteq> ESP_OK then (fl_begin fl, st)
              else let (data_read, br, st) = firmware_loop (fl_write fl) (ht_last ht) 0 (ht_chunks ht) st
                   in firmware_finish fl (ht_length ht) data_read br st)"

section \<open>The web partition\<close>

text \<open>
  A data partition call may fail, leaving the partition as \<open>df_left\<close> says; an erase sets every
  byte, a write replaces a range and fails beyond the end.
\<close>

record data_flash =
  df_www :: bool
  df_spiffs :: bool
  df_erase_www :: esp_err
  df_erase_spiffs :: esp_err
  df_read :: "nat \<Rightarrow> esp_err"
  df_write_www :: "nat \<Rightarrow> esp_err"
  df_write_spiffs :: "nat \<Rightarrow> esp_err"
  df_left :: "u8 list \<Rightarrow> u8 list"

definition erased :: "u8 list \<Rightarrow> u8 list" where
  "erased p = replicate (length p) 0xFF"

definition part_write :: "data_flash \<Rightarrow> esp_err \<Rightarrow> u8 list \<Rightarrow> nat \<Rightarrow> u8 list \<Rightarrow> esp_err \<times> u8 list" where
  "part_write df e p off xs =
     (if e \<noteq> ESP_OK then (e, df_left df p)
      else case mem_write p off xs of None \<Rightarrow> (ESP_ERR_INVALID_ARG, p) | Some q \<Rightarrow> (ESP_OK, q))"

function copy_loop :: "data_flash \<Rightarrow> u8 list \<Rightarrow> nat \<Rightarrow> esp_err \<Rightarrow> u8 list \<Rightarrow> esp_err \<times> u8 list" where
  "copy_loop df spiffs off err www =
     (if off < length spiffs
      then let read_size = (if off + 1024 > length spiffs then length spiffs - off else 1024)
           in if df_read df off \<noteq> ESP_OK then (df_read df off, www)
              else let (e, www) = part_write df (df_write_www df off) www off (take read_size (drop off spiffs))
                   in if e \<noteq> ESP_OK then (e, www) else copy_loop df spiffs (off + read_size) e www
      else (err, www))"
  by pat_completeness auto
termination
  by (relation "measure (\<lambda>(df, spiffs, off, err, www). length spiffs - off)") (auto split: if_splits)

declare copy_loop.simps [simp del]

definition copy_file_to_www_partition :: "data_flash \<Rightarrow> ota_state \<Rightarrow> esp_err \<times> ota_state" where
  "copy_file_to_www_partition df st =
     (if \<not> df_www df \<or> \<not> df_spiffs df then (ESP_FAIL, st)
      else if df_erase_www df \<noteq> ESP_OK then (df_erase_www df, st\<lparr>o_www := df_left df (o_www st)\<rparr>)
      else let (e, www) = copy_loop df (o_spiffs st) 0 ESP_OK (erased (o_www st))
           in (e, st\<lparr>o_www := www\<rparr>))"

text \<open>The download into the staging partition: the last \<open>data_read\<close>, the offset reached, the state.\<close>

fun spiffs_loop :: "data_flash \<Rightarrow> int \<Rightarrow> nat \<Rightarrow> u8 list list \<Rightarrow> ota_state \<Rightarrow> int \<times> nat \<times> ota_state" where
  "spiffs_loop df fin off [] st = (fin, off, st)"
| "spiffs_loop df fin off (c # cs) st =
     (let (e, p) = part_write df (df_write_spiffs df off) (o_spiffs st) off c
      in if e \<noteq> ESP_OK then (-1, off, st\<lparr>o_spiffs := p\<rparr>)
         else spiffs_loop df fin (off + length c) cs (count_chunk (length c) (st\<lparr>o_spiffs := p\<rparr>)))"

definition update_SPIFFS :: "nat \<Rightarrow> http \<Rightarrow> data_flash \<Rightarrow> ota_state \<Rightarrow> esp_err \<times> ota_state" where
  "update_SPIFFS heap ht df st =
     (if heap < MIN_OTA_HEAP then (ESP_FAIL, st)
      else if \<not> ht_client ht then (ESP_FAIL, st)
      else if ht_open ht \<noteq> ESP_OK then (ht_open ht, st)
      else if ht_status ht \<noteq> 200 then (ESP_FAIL, st)
      else if ht_length ht \<le> 0 then (ESP_FAIL, st)
      else if \<not> df_spiffs df then (ESP_FAIL, st)
      else if df_erase_spiffs df \<noteq> ESP_OK then (ESP_FAIL, st\<lparr>o_spiffs := df_left df (o_spiffs st)\<rparr>)
      else let (data_read, off, st) =
                 spiffs_loop df (ht_last ht) 0 (ht_chunks ht) (st\<lparr>o_spiffs := erased (o_spiffs st)\<rparr>)
           in if data_read < 0 then (ESP_FAIL, st)
              else if int off \<noteq> ht_length ht then (ESP_FAIL, st)
              else copy_file_to_www_partition df st)"

section \<open>The files of a manifest\<close>

text \<open>
  An entry of the manifest's list: its text when it is a string, the exchange that asks for its
  size, and what downloading and installing it meets.
\<close>

record file_env =
  fe_url :: "string option"
  fe_size :: http
  fe_heap :: nat
  fe_http :: http
  fe_app :: app_flash
  fe_data :: data_flash

definition isWWWBinFile :: "string \<Rightarrow> bool" where
  "isWWWBinFile url \<longleftrightarrow> strstr_by id url ''www.bin'' \<noteq> None"

definition add_size :: "file_env \<Rightarrow> int \<Rightarrow> int" where
  "add_size f n =
     (if fe_url f = None \<or> \<not> ht_client (fe_size f) \<or> ht_open (fe_size f) \<noteq> ESP_OK then n
      else n + ht_length (fe_size f))"

definition calculate_total_file_size :: "file_env list \<Rightarrow> ota_state \<Rightarrow> ota_state" where
  "calculate_total_file_size files st = st\<lparr>total_file_size := fold add_size files 0, total_file_write := 0\<rparr>"

definition install_file :: "file_env \<Rightarrow> string \<Rightarrow> ota_state \<Rightarrow> esp_err \<times> ota_state" where
  "install_file f url st =
     (if \<not> isWWWBinFile url then ota_update_firmware (fe_heap f) (fe_http f) (fe_app f) st
      else update_SPIFFS (fe_heap f) (fe_http f) (fe_data f) st)"

fun install_files :: "file_env list \<Rightarrow> ota_state \<Rightarrow> bool \<times> ota_state" where
  "install_files [] st = (True, st)"
| "install_files (f # fs) st =
     (case fe_url f of
        None \<Rightarrow> install_files fs st
      | Some url \<Rightarrow>
          let (e, st) = install_file f url st in if e = ESP_OK then install_files fs st else (False, st))"

datatype update_result = RESTARTS | RETURNS esp_err

definition updateFirmware :: "bool \<Rightarrow> 's nvs \<Rightarrow> file_env list \<Rightarrow> ota_state \<times> 's \<Rightarrow> update_result \<times> ota_state \<times> 's" where
  "updateFirmware opened nvs files st =
     (let (ok, o1) = install_files files (calculate_total_file_size files (fst st))
      in if ok then (RESTARTS, o1, ota_note_planned_reboot opened nvs (snd st))
         else (RETURNS ESP_FAIL, o1, snd st))"

section \<open>The check at boot\<close>

text \<open>
  The manifest: the version and the file list, when they have the right types. What the check meets
  otherwise: the free heap when it starts, whether the station still has an address after the
  access point was closed to make room (the wait for that only passes time), the heap before
  booking, and whether the namespace opens for the booking and for the marker.
\<close>

record manifest =
  mf_version :: "string option"
  mf_files :: "file_env list option"

record boot_check_env =
  bc_heap :: nat
  bc_ip :: bool
  bc_heap_now :: nat
  bc_open :: bool
  bc_open_planned :: bool

datatype boot_outcome = BOOT_SKIPPED | BOOT_DEFERRED | BOOT_REFUSED | BOOT_TRIED update_result

definition make_room :: "boot_check_env \<Rightarrow> bool" where
  "make_room b = (if bc_heap b < MIN_OTA_HEAP then bc_ip b else True)"

definition boot_install ::
  "string \<Rightarrow> boot_check_env \<Rightarrow> 's nvs \<Rightarrow> string \<Rightarrow> file_env list \<Rightarrow> ota_state \<times> 's \<Rightarrow> boot_outcome \<times> ota_state \<times> 's" where
  "boot_install fw b nvs new_version files st =
     (if \<not> make_room b then (BOOT_DEFERRED, st)
      else if bc_heap_now b < MIN_OTA_HEAP then (BOOT_DEFERRED, st)
      else let (allowed, s) = ota_attempt_allowed (bc_open b) nvs new_version (snd st)
           in if \<not> allowed then (BOOT_REFUSED, fst st, s)
              else let (r, st) = updateFirmware (bc_open_planned b) nvs files (fst st, s) in (BOOT_TRIED r, st))"

definition ota_boot_check ::
  "string \<Rightarrow> manifest option \<Rightarrow> boot_check_env \<Rightarrow> 's nvs \<Rightarrow> ota_state \<times> 's \<Rightarrow> boot_outcome \<times> ota_state \<times> 's" where
  "ota_boot_check fw m b nvs st =
     (case m of
        None \<Rightarrow> (BOOT_SKIPPED, st)
      | Some m \<Rightarrow>
          (case (mf_version m, mf_files m) of
             (Some new_version, Some files) \<Rightarrow>
               if ota_version_is_newer new_version fw then boot_install fw b nvs new_version files st
               else (BOOT_SKIPPED, st)
           | _ \<Rightarrow> (BOOT_SKIPPED, st)))"

section \<open>The daily check\<close>

text \<open>
  One iteration: whether the clock reads midnight, the manifest when the fetch works, and whether
  the namespace opens for reading and for the marker. The first result is whether it restarts.
\<close>

definition schedule_tick ::
  "string \<Rightarrow> bool \<Rightarrow> manifest option \<Rightarrow> bool \<Rightarrow> bool \<Rightarrow> 's nvs \<Rightarrow> bool \<times> 's \<Rightarrow> bool \<times> bool \<times> 's" where
  "schedule_tick fw midnight m open_ro open_rw nvs st =
     (let (checked, s) = st in
      if midnight
      then if checked then (False, True, s)
           else (case m of
                   None \<Rightarrow> (False, True, s)
                 | Some m \<Rightarrow>
                     (case mf_version m of
                        None \<Rightarrow> (False, True, s)
                      | Some v \<Rightarrow>
                          if ota_version_is_newer v fw \<and> \<not> ota_attempts_exhausted open_ro nvs v s
                          then (True, True, ota_note_planned_reboot open_rw nvs s)
                          else (False, True, s)))
      else (False, False, s))"

section \<open>The image is complete before it boots\<close>

lemma count_chunk_simps [simp]:
  "o_calls (count_chunk n st) = o_calls st" "total_file_write (count_chunk n st) = total_file_write st + int n"
  "o_www (count_chunk n st) = o_www st" "o_spiffs (count_chunk n st) = o_spiffs st"
  by (simp_all add: count_chunk_def Let_def)

lemma log_call_simps [simp]:
  "o_calls (log_call c st) = o_calls st @ [c]" "total_file_write (log_call c st) = total_file_write st"
  "o_www (log_call c st) = o_www st" "o_spiffs (log_call c st) = o_spiffs st"
  by (simp_all add: log_call_def)

lemma firmware_loop_log:
  "firmware_loop wr fin i cs st = (d, br, st') \<Longrightarrow>
   \<exists>n \<le> length cs. o_calls st' = o_calls st @ map OTA_WRITE (take n cs) \<and> o_www st' = o_www st \<and>
     (br \<or> (n = length cs \<and> d = fin \<and> (\<forall>j < length cs. wr (i + j) = ESP_OK) \<and>
            total_file_write st' = total_file_write st + int (length (concat cs))))"
proof (induction cs arbitrary: i st)
  case (Cons c cs)
  show ?case
  proof (cases "wr i = ESP_OK")
    case False
    then show ?thesis using Cons.prems by (intro exI [of _ 1]) (auto simp: Let_def)
  next
    case True
    then have l: "firmware_loop wr fin (i + 1) cs (count_chunk (length c) (log_call (OTA_WRITE c) st)) = (d, br, st')"
      using Cons.prems by (simp add: Let_def)
    from Cons.IH [OF l] obtain n where n: "n \<le> length cs"
      "o_calls st' = o_calls st @ OTA_WRITE c # map OTA_WRITE (take n cs)" "o_www st' = o_www st"
      "br \<or> (n = length cs \<and> d = fin \<and> (\<forall>j < length cs. wr (i + 1 + j) = ESP_OK) \<and>
         total_file_write st' = total_file_write st + int (length c) + int (length (concat cs)))" by auto
    moreover have "\<forall>j < length (c # cs). wr (i + j) = ESP_OK" if "\<forall>j < length cs. wr (i + 1 + j) = ESP_OK"
      using that True by (auto simp: less_Suc_eq_0_disj)
    ultimately show ?thesis by (intro exI [of _ "Suc n"]) auto
  qed
qed simp

text \<open>
  The calls on the update handle that an installation of an image adds: none, a begin that failed and gave no
  handle, or a begin that succeeded, the writes and exactly one abort or end.
\<close>

definition handle_calls :: "esp_err \<Rightarrow> ota_call list \<Rightarrow> bool" where
  "handle_calls begun cs \<longleftrightarrow> cs = [] \<or> begun \<noteq> ESP_OK \<and> cs = [OTA_BEGIN] \<or>
     begun = ESP_OK \<and>
     (\<exists>ws fin. cs = OTA_BEGIN # map OTA_WRITE ws @ fin \<and> fin \<in> {[OTA_ABORT], [OTA_END], [OTA_END, OTA_SET_BOOT]})"

lemma update_firmware_cases:
  assumes "ota_update_firmware heap ht fl st = (e, st')"
  shows "(o_calls st' = o_calls st \<and> e \<noteq> ESP_OK \<and> o_www st' = o_www st) \<or>
    (fl_begin fl \<noteq> ESP_OK \<and> o_calls st' = o_calls st @ [OTA_BEGIN] \<and> e \<noteq> ESP_OK \<and> o_www st' = o_www st) \<or>
    (fl_begin fl = ESP_OK \<and> ht_status ht = 200 \<and> 0 < ht_length ht \<and> MIN_OTA_HEAP \<le> heap \<and> o_www st' = o_www st \<and>
     (\<exists>d br st1 fin. firmware_loop (fl_write fl) (ht_last ht) 0 (ht_chunks ht) (log_call OTA_BEGIN st) = (d, br, st1) \<and>
       o_calls st' = o_calls st1 @ fin \<and> fin \<in> {[OTA_ABORT], [OTA_END], [OTA_END, OTA_SET_BOOT]} \<and>
       (e = ESP_OK \<longrightarrow> fin = [OTA_END, OTA_SET_BOOT]) \<and>
       (fin = [OTA_END, OTA_SET_BOOT] \<longrightarrow> 0 \<le> d \<and> \<not> br \<and> total_file_write st1 = ht_length ht \<and> fl_end fl = ESP_OK)))"
proof -
  consider (early) "o_calls st' = o_calls st \<and> e \<noteq> ESP_OK \<and> o_www st' = o_www st"
    | (started) "fl_begin fl \<noteq> ESP_OK \<and> o_calls st' = o_calls st @ [OTA_BEGIN] \<and> e \<noteq> ESP_OK \<and> o_www st' = o_www st"
    | (run) d br st1 where "fl_begin fl = ESP_OK \<and> ht_status ht = 200" "0 < ht_length ht" "MIN_OTA_HEAP \<le> heap"
      "firmware_loop (fl_write fl) (ht_last ht) 0 (ht_chunks ht) (log_call OTA_BEGIN st) = (d, br, st1)"
      "firmware_finish fl (ht_length ht) d br st1 = (e, st')"
    using assms by (auto simp: ota_update_firmware_def Let_def split: if_splits prod.splits)
  then show ?thesis
  proof cases
    case run
    have w: "o_www st1 = o_www st" using firmware_loop_log [OF run(4)] by auto
    obtain fin where "o_calls st' = o_calls st1 @ fin \<and> fin \<in> {[OTA_ABORT], [OTA_END], [OTA_END, OTA_SET_BOOT]} \<and>
        (e = ESP_OK \<longrightarrow> fin = [OTA_END, OTA_SET_BOOT]) \<and> o_www st' = o_www st1 \<and>
        (fin = [OTA_END, OTA_SET_BOOT] \<longrightarrow> 0 \<le> d \<and> \<not> br \<and> total_file_write st1 = ht_length ht \<and> fl_end fl = ESP_OK)"
      using run(5) by (auto simp: firmware_finish_def Let_def split: if_splits)
    then show ?thesis using run w by (intro disjI2 conjI exI [of _ d] exI [of _ br] exI [of _ st1] exI [of _ fin]) auto
  qed blast+
qed

text \<open>C8: an image is made the boot image only when it arrived and was written completely: the server
  answered 200, the read ended without an error, every chunk was written without an error and the
  counted bytes are the announced length. Success is reported in no other case. A begin that succeeds gives a
  handle, which is written and then closed exactly once, by an abort or an end, on every path; after
  a begin that fails, or without one, the handle is not used.\<close>

theorem firmware_boots_only_complete:
  "ota_update_firmware heap ht fl st = (e, st') \<Longrightarrow>
   (\<exists>cs. o_calls st' = o_calls st @ cs \<and> handle_calls (fl_begin fl) cs \<and> (e = ESP_OK \<longrightarrow> OTA_SET_BOOT \<in> set cs) \<and>
     (OTA_SET_BOOT \<in> set cs \<longrightarrow>
        ht_status ht = 200 \<and> 0 \<le> ht_last ht \<and> MIN_OTA_HEAP \<le> heap \<and> fl_end fl = ESP_OK \<and>
        cs = OTA_BEGIN # map OTA_WRITE (ht_chunks ht) @ [OTA_END, OTA_SET_BOOT] \<and>
        (\<forall>j < length (ht_chunks ht). fl_write fl j = ESP_OK) \<and>
        total_file_write st + int (length (concat (ht_chunks ht))) = ht_length ht))"
proof -
  assume h: "ota_update_firmware heap ht fl st = (e, st')"
  from update_firmware_cases [OF h] show ?thesis
  proof (elim disjE)
    assume "o_calls st' = o_calls st \<and> e \<noteq> ESP_OK \<and> o_www st' = o_www st"
    then show ?thesis by (intro exI [of _ "[]"]) (simp add: handle_calls_def)
  next
    assume "fl_begin fl \<noteq> ESP_OK \<and> o_calls st' = o_calls st @ [OTA_BEGIN] \<and> e \<noteq> ESP_OK \<and> o_www st' = o_www st"
    then show ?thesis by (intro exI [of _ "[OTA_BEGIN]"]) (simp add: handle_calls_def)
  next
    assume "fl_begin fl = ESP_OK \<and> ht_status ht = 200 \<and> 0 < ht_length ht \<and> MIN_OTA_HEAP \<le> heap \<and> o_www st' = o_www st \<and>
     (\<exists>d br st1 fin. firmware_loop (fl_write fl) (ht_last ht) 0 (ht_chunks ht) (log_call OTA_BEGIN st) = (d, br, st1) \<and>
       o_calls st' = o_calls st1 @ fin \<and> fin \<in> {[OTA_ABORT], [OTA_END], [OTA_END, OTA_SET_BOOT]} \<and>
       (e = ESP_OK \<longrightarrow> fin = [OTA_END, OTA_SET_BOOT]) \<and>
       (fin = [OTA_END, OTA_SET_BOOT] \<longrightarrow> 0 \<le> d \<and> \<not> br \<and> total_file_write st1 = ht_length ht \<and> fl_end fl = ESP_OK))"
    then obtain d br st1 fin where bg: "fl_begin fl = ESP_OK" and r: "ht_status ht = 200" "MIN_OTA_HEAP \<le> heap"
      "firmware_loop (fl_write fl) (ht_last ht) 0 (ht_chunks ht) (log_call OTA_BEGIN st) = (d, br, st1)"
      "o_calls st' = o_calls st1 @ fin" "fin \<in> {[OTA_ABORT], [OTA_END], [OTA_END, OTA_SET_BOOT]}"
      "e = ESP_OK \<longrightarrow> fin = [OTA_END, OTA_SET_BOOT]"
      "fin = [OTA_END, OTA_SET_BOOT] \<longrightarrow> 0 \<le> d \<and> \<not> br \<and> total_file_write st1 = ht_length ht \<and> fl_end fl = ESP_OK"
      by blast
    from firmware_loop_log [OF r(3)] obtain n where n: "n \<le> length (ht_chunks ht)"
      "o_calls st1 = o_calls st @ OTA_BEGIN # map OTA_WRITE (take n (ht_chunks ht))"
      "br \<or> (n = length (ht_chunks ht) \<and> d = ht_last ht \<and> (\<forall>j < length (ht_chunks ht). fl_write fl j = ESP_OK) \<and>
         total_file_write st1 = total_file_write st + int (length (concat (ht_chunks ht))))" by auto
    let ?cs = "OTA_BEGIN # map OTA_WRITE (take n (ht_chunks ht)) @ fin"
    have c: "o_calls st' = o_calls st @ ?cs" "handle_calls (fl_begin fl) ?cs" using bg r(4,5) n(2) by (auto simp: handle_calls_def)
    have b: "OTA_SET_BOOT \<in> set ?cs \<longleftrightarrow> fin = [OTA_END, OTA_SET_BOOT]" using r(5) by auto
    show ?thesis using c b r n(3) by (intro exI [of _ ?cs]) auto
  qed
qed

definition demo_http :: http where
  "demo_http = \<lparr>ht_client = True, ht_open = ESP_OK, ht_length = 3, ht_status = 200, ht_chunks = [[1, 2], [3]], ht_last = 0\<rparr>"

definition demo_app :: app_flash where
  "demo_app = \<lparr>fl_partition = True, fl_begin = ESP_OK, fl_write = (\<lambda>_. ESP_OK), fl_end = ESP_OK, fl_set_boot = ESP_OK\<rparr>"

definition demo_ota :: ota_state where
  "demo_ota = \<lparr>total_file_size = 3, total_file_write = 0, o_calls = [], o_progress = [], o_www = [7, 7, 7, 7], o_spiffs = [7, 7, 7]\<rparr>"

lemmas demo_defs = demo_http_def demo_app_def demo_ota_def ota_update_firmware_def firmware_finish_def log_call_def Let_def

theorem firmware_boots_only_complete_witness:
  "fst (ota_update_firmware 120000 demo_http demo_app demo_ota) = ESP_OK \<and>
   OTA_SET_BOOT \<in> set (o_calls (snd (ota_update_firmware 120000 demo_http demo_app demo_ota)))"
proof -
  let ?r = "ota_update_firmware 120000 demo_http demo_app demo_ota"
  have e: "fst ?r = ESP_OK" by (simp add: demo_defs)
  have "?r = (ESP_OK, snd ?r)" using e by (simp add: prod_eq_iff)
  from firmware_boots_only_complete [OF this] e show ?thesis by (auto simp: demo_ota_def)
qed

text \<open>
  The counter that is compared with the announced length runs over all files of the manifest: an
  image that follows another file that wrote something is refused although it arrived completely.
\<close>

theorem firmware_after_other_file_fails:
  assumes "0 < total_file_write st" "ht_length ht = int (length (concat (ht_chunks ht)))"
  shows "fst (ota_update_firmware heap ht fl st) \<noteq> ESP_OK"
proof
  assume e: "fst (ota_update_firmware heap ht fl st) = ESP_OK"
  obtain st' where h: "ota_update_firmware heap ht fl st = (ESP_OK, st')" using e by (metis prod.collapse)
  from update_firmware_cases [OF h] obtain d br st1 where
    r: "firmware_loop (fl_write fl) (ht_last ht) 0 (ht_chunks ht) (log_call OTA_BEGIN st) = (d, br, st1)"
      "\<not> br" "total_file_write st1 = ht_length ht" by auto
  have "total_file_write st1 = total_file_write st + int (length (concat (ht_chunks ht)))"
    using firmware_loop_log [OF r(1)] r(2) by auto
  then show False using r(3) assms by simp
qed

text \<open>
  A manifest whose image is installed and whose web file then fails reports the failure and claims to
  stay on the running firmware, but the boot selection already points at the new image.
\<close>

theorem failed_update_has_switched_boot:
  assumes "fe_url f = Some u" "\<not> isWWWBinFile u" "fe_url g = Some w"
    and "ota_update_firmware (fe_heap f) (fe_http f) (fe_app f) (calculate_total_file_size [f, g] o1) = (ESP_OK, o2)"
    and "fst (install_file g w o2) \<noteq> ESP_OK"
  shows "case updateFirmware opened nvs [f, g] (o1, s) of (r, o3, s') \<Rightarrow>
    r = RETURNS ESP_FAIL \<and> s' = s \<and> o3 = snd (install_file g w o2) \<and> OTA_SET_BOOT \<in> set (o_calls o2)"
proof -
  have b: "OTA_SET_BOOT \<in> set (o_calls o2)" using update_firmware_cases [OF assms(4)] by auto
  obtain e o3 where g: "install_file g w o2 = (e, o3)" "e \<noteq> ESP_OK"
    using assms(5) by (cases "install_file g w o2") auto
  have f: "install_file f u (calculate_total_file_size [f, g] o1) = (ESP_OK, o2)"
    using assms(2,4) by (simp add: install_file_def)
  show ?thesis using b g f assms(1,3) by (simp add: updateFirmware_def)
qed

section \<open>The web partition\<close>

definition paste :: "'a list \<Rightarrow> nat \<Rightarrow> 'a list \<Rightarrow> 'a list" where
  "paste p off xs = take off p @ xs @ drop (off + length xs) p"

lemma paste_length: "off + length xs \<le> length p \<Longrightarrow> length (paste p off xs) = length p"
  by (simp add: paste_def)

lemma part_write_ok:
  "part_write df e p off xs = (ESP_OK, q) \<Longrightarrow> off + length xs \<le> length p \<and> q = paste p off xs"
  by (auto simp: part_write_def mem_write_def paste_def split: if_splits)

lemma paste_paste:
  "off + length xs \<le> length p \<Longrightarrow> paste (paste p off xs) (off + length xs) ys = paste p off (xs @ ys)"
  by (simp add: paste_def ac_simps)

lemma copy_loop_ok:
  "copy_loop df sp off err www = (ESP_OK, www') \<Longrightarrow> off \<le> length sp \<Longrightarrow>
   www' = paste www off (drop off sp) \<and> (off < length sp \<longrightarrow> length sp \<le> length www)"
proof (induction df sp off err www rule: copy_loop.induct)
  case (1 df sp off err www)
  show ?case
  proof (cases "off < length sp")
    case False
    have "copy_loop df sp off err www = (err, www)" using False by (subst copy_loop.simps) simp
    then show ?thesis using "1.prems" False by (simp add: paste_def)
  next
    case True
    define n where "n = (if off + 1024 > length sp then length sp - off else 1024)"
    have n: "0 < n" "off + n \<le> length sp" using True by (auto simp: n_def)
    have rd: "df_read df off = ESP_OK"
      using "1.prems"(1) True by (simp add: copy_loop.simps [of df sp off] Let_def split: if_splits)
    obtain e w where pw: "part_write df (df_write_www df off) www off (take n (drop off sp)) = (e, w)"
      by (cases "part_write df (df_write_www df off) www off (take n (drop off sp))")
    have step: "copy_loop df sp off err www = (if e \<noteq> ESP_OK then (e, w) else copy_loop df sp (off + n) e w)"
      using True rd pw by (subst copy_loop.simps) (simp add: n_def Let_def)
    have e: "e = ESP_OK" using "1.prems"(1) step by (auto split: if_splits)
    have w: "off + n \<le> length www" "w = paste www off (take n (drop off sp))"
      using part_write_ok [OF pw [unfolded e]] n by auto
    have "copy_loop df sp (off + n) ESP_OK w = (ESP_OK, www')" using step e "1.prems"(1) by simp
    then have i: "www' = paste w (off + n) (drop (off + n) sp)" "off + n < length sp \<longrightarrow> length sp \<le> length w"
      using "1.IH" [OF True n_def _ pw [symmetric] refl] rd e n(2) by auto
    have "www' = paste www off (take n (drop off sp) @ drop n (drop off sp))"
      using i(1) w paste_paste [of off "take n (drop off sp)" www] n by (simp add: add.commute)
    moreover have "length sp \<le> length www" using i(2) w n(2) by (cases "off + n < length sp") (auto simp: paste_length)
    ultimately show ?thesis unfolding append_take_drop_id by blast
  qed
qed

lemma spiffs_loop_ok:
  "spiffs_loop df fin off cs st = (d, off', st') \<Longrightarrow> 0 \<le> d \<Longrightarrow> off \<le> length (o_spiffs st) \<Longrightarrow>
   d = fin \<and> off' = off + length (concat cs) \<and> off' \<le> length (o_spiffs st) \<and>
   o_spiffs st' = paste (o_spiffs st) off (concat cs)"
proof (induction cs arbitrary: off st)
  case Nil
  then show ?case by (simp add: paste_def)
next
  case (Cons c cs)
  obtain e p where pw: "part_write df (df_write_spiffs df off) (o_spiffs st) off c = (e, p)"
    by (cases "part_write df (df_write_spiffs df off) (o_spiffs st) off c")
  have e: "e = ESP_OK" using Cons.prems(1,2) pw by (auto split: if_splits)
  have p: "off + length c \<le> length (o_spiffs st)" "p = paste (o_spiffs st) off c"
    using part_write_ok [OF pw [unfolded e]] by auto
  have l: "spiffs_loop df fin (off + length c) cs (count_chunk (length c) (st\<lparr>o_spiffs := p\<rparr>)) = (d, off', st')"
    using Cons.prems(1) pw e by simp
  have len: "length p = length (o_spiffs st)" using p paste_length by blast
  from Cons.IH [OF l Cons.prems(2)] have "d = fin \<and> off' = off + length c + length (concat cs) \<and> off' \<le> length p \<and>
      o_spiffs st' = paste p (off + length c) (concat cs)" using p(1) len by simp
  then show ?case using p len paste_paste [OF p(1)] by (auto simp: add.assoc)
qed

lemma spiffs_loop_www: "spiffs_loop df fin off cs st = (d, off', st') \<Longrightarrow> o_www st' = o_www st"
  by (induction cs arbitrary: off st) (auto split: prod.splits if_splits)

lemma spiffs_loop_end: "spiffs_loop df fin off cs st = (d, off', st') \<Longrightarrow> 0 \<le> d \<Longrightarrow> d = fin"
  by (induction cs arbitrary: off st) (auto split: prod.splits if_splits)

text \<open>C26: the live web partition is touched only after the whole file arrived, with status 200 and the
  announced length, in the staging partition; and when the update succeeds it holds exactly the
  file, followed by erased bytes up to its unchanged size.\<close>

theorem www_untouched_or_complete:
  "update_SPIFFS heap ht df st = (e, st') \<Longrightarrow>
   (o_www st' \<noteq> o_www st \<longrightarrow> ht_status ht = 200 \<and> 0 \<le> ht_last ht \<and>
      ht_length ht = int (length (concat (ht_chunks ht))) \<and>
      take (length (concat (ht_chunks ht))) (o_spiffs st') = concat (ht_chunks ht)) \<and>
   (e = ESP_OK \<longrightarrow> o_www st' = concat (ht_chunks ht) @
      replicate (length (o_www st) - length (concat (ht_chunks ht))) 0xFF)"
proof -
  assume h: "update_SPIFFS heap ht df st = (e, st')"
  let ?st = "st\<lparr>o_spiffs := erased (o_spiffs st)\<rparr>" and ?x = "concat (ht_chunks ht)"
  consider (early) "e \<noteq> ESP_OK" "o_www st' = o_www st"
    | (run) d off st1 where "ht_status ht = 200" "0 < ht_length ht" "spiffs_loop df (ht_last ht) 0 (ht_chunks ht) ?st = (d, off, st1)"
      "0 \<le> d" "int off = ht_length ht" "copy_file_to_www_partition df st1 = (e, st')"
    using h spiffs_loop_www by (auto simp: update_SPIFFS_def not_less split: if_splits prod.splits) (metis+)?
  then show ?thesis
  proof cases
    case run
    have s: "d = ht_last ht" "off = length ?x" "length ?x \<le> length (o_spiffs st)"
      "o_spiffs st1 = paste (erased (o_spiffs st)) 0 ?x"
      using spiffs_loop_ok [OF run(3,4)] by (auto simp: erased_def)
    have w: "o_www st1 = o_www st" using spiffs_loop_www [OF run(3)] by simp
    have sp: "o_spiffs st1 = ?x @ replicate (length (o_spiffs st) - length ?x) 0xFF"
      using s(4) by (simp add: paste_def erased_def)
    have keep: "o_spiffs st' = o_spiffs st1"
      using run(6) by (auto simp: copy_file_to_www_partition_def split: if_splits prod.splits)
    have ok: "o_www st' = ?x @ replicate (length (o_www st) - length ?x) 0xFF" if "e = ESP_OK"
    proof -
      have "copy_loop df (o_spiffs st1) 0 ESP_OK (erased (o_www st1)) = (ESP_OK, o_www st')"
        using run(6) that by (auto simp: copy_file_to_www_partition_def split: if_splits prod.splits)
      from copy_loop_ok [OF this] have c: "o_www st' = paste (erased (o_www st)) 0 (o_spiffs st1)"
        "0 < length (o_spiffs st1) \<longrightarrow> length (o_spiffs st1) \<le> length (o_www st)" by (simp_all add: w erased_def)
      have "0 < length ?x" using run(2,5) s(2) by linarith
      moreover have "length (o_spiffs st1) = length (o_spiffs st)" using s(3) sp by simp
      ultimately have "length (o_spiffs st) \<le> length (o_www st)" using c(2) s(3) by linarith
      then show ?thesis using c(1) s(3) sp by (simp add: paste_def erased_def flip: replicate_add)
    qed
    show ?thesis using run(1,4,5) s(1,2) sp keep ok by auto
  qed simp
qed

definition demo_df :: data_flash where
  "demo_df = \<lparr>df_www = True, df_spiffs = True, df_erase_www = ESP_OK, df_erase_spiffs = ESP_OK, df_read = (\<lambda>_. ESP_OK),
     df_write_www = (\<lambda>_. ESP_OK), df_write_spiffs = (\<lambda>_. ESP_OK), df_left = id\<rparr>"

lemma demo_spiffs_loop:
  "o_spiffs st = [0xFF, 0xFF, 0xFF] \<Longrightarrow>
   \<exists>st'. spiffs_loop demo_df 0 0 [[1, 2], [3]] st = (0, 3, st') \<and> o_spiffs st' = [1, 2, 3]"
  by (simp add: demo_df_def part_write_def mem_write_def)

lemma demo_copy_loop: "copy_loop demo_df [1, 2, 3] 0 ESP_OK [0xFF, 0xFF, 0xFF, 0xFF] = (ESP_OK, [1, 2, 3, 0xFF])"
  by (subst copy_loop.simps, simp add: demo_df_def part_write_def mem_write_def, subst copy_loop.simps, simp)

lemma demo_update: "fst (update_SPIFFS 120000 demo_http demo_df demo_ota) = ESP_OK"
proof -
  let ?st = "demo_ota\<lparr>o_spiffs := erased (o_spiffs demo_ota)\<rparr>"
  obtain st' where l: "spiffs_loop demo_df 0 0 [[1, 2], [3]] ?st = (0, 3, st')" "o_spiffs st' = [1, 2, 3]"
    using demo_spiffs_loop [of ?st] by (auto simp: erased_def demo_ota_def)
  have w: "erased (o_www st') = [0xFF, 0xFF, 0xFF, 0xFF]"
    using spiffs_loop_www [OF l(1)] by (simp add: demo_ota_def erased_def)
  have c: "fst (copy_file_to_www_partition demo_df st') = ESP_OK"
    unfolding copy_file_to_www_partition_def w l(2) demo_copy_loop by (simp add: demo_df_def)
  show ?thesis
    unfolding update_SPIFFS_def using l(1) c by (simp add: demo_http_def demo_df_def)
qed

theorem www_untouched_or_complete_witness:
  "o_www (snd (update_SPIFFS 120000 demo_http demo_df demo_ota)) = [1, 2, 3, 255]"
proof -
  let ?r = "update_SPIFFS 120000 demo_http demo_df demo_ota"
  have "?r = (ESP_OK, snd ?r)" using demo_update by (simp add: prod_eq_iff)
  from www_untouched_or_complete [OF this] show ?thesis by (simp add: demo_http_def demo_ota_def)
qed

section \<open>Bookings and reboots\<close>

text \<open>C27: the check at boot books an attempt exactly when it goes on to install. On a storage that accepts
  writes: a skipped or deferred check leaves the storage and the update state as they were; a refused one leaves
  them too and found the budget of the published version spent; an installation is tried only for a version newer than
  the running one and with the heap the download needs. When the storage opened for the booking and the version
  text has less than 24 characters, which is what the code reads back, the version had budget
  left and has one attempt more on the books.\<close>

theorem boot_check_books_only_installs:
  assumes "nvs_laws nvs" "nvs_accepts nvs"
    and "ota_boot_check fw m b nvs (o1, s) = (r, o2, s')"
  shows "(r \<in> {BOOT_SKIPPED, BOOT_DEFERRED} \<longrightarrow> o2 = o1 \<and> s' = s) \<and>
    (r = BOOT_REFUSED \<longrightarrow> o2 = o1 \<and> s' = s \<and> (\<exists>v. Option.bind m mf_version = Some v \<and> 3 \<le> unat (attempts_used nvs v s))) \<and>
    (\<forall>u. r = BOOT_TRIED u \<longrightarrow> MIN_OTA_HEAP \<le> bc_heap_now b \<and>
       (\<exists>v. Option.bind m mf_version = Some v \<and> ota_version_is_newer v fw \<and>
         (bc_open b \<and> length v < 24 \<longrightarrow> unat (attempts_used nvs v s) < 3 \<and>
            unat (attempts_used nvs v s') = unat (attempts_used nvs v s) + 1)))"
proof (cases "r \<in> {BOOT_SKIPPED, BOOT_DEFERRED}")
  case True
  then show ?thesis using assms(3)
    by (auto simp: ota_boot_check_def boot_install_def split: option.splits if_splits prod.splits)
next
  case False
  then obtain mm v files where m: "m = Some mm" "mf_version mm = Some v" "mf_files mm = Some files" "ota_version_is_newer v fw"
    and bi: "boot_install fw b nvs v files (o1, s) = (r, o2, s')"
    using assms(3) by (auto simp: ota_boot_check_def split: option.splits if_splits)
  obtain al t where al: "ota_attempt_allowed (bc_open b) nvs v s = (al, t)" by (cases "ota_attempt_allowed (bc_open b) nvs v s")
  have h: "MIN_OTA_HEAP \<le> bc_heap_now b" and r: "(r, o2, s') = (if \<not> al then (BOOT_REFUSED, o1, t)
      else let (r, st) = updateFirmware (bc_open_planned b) nvs files (o1, t) in (BOOT_TRIED r, st))"
    using bi False al by (auto simp: boot_install_def not_less split: if_splits)
  show ?thesis
  proof (cases al)
    case False
    then have "t = s" "3 \<le> unat (attempts_used nvs v s)"
      using al by (auto simp: ota_attempt_allowed_def Let_def word_le_nat_alt split: if_splits)
    then show ?thesis using r False m by simp
  next
    case True
    have u: "attempts_used nvs v s' = attempts_used nvs v t"
      using r True planned_keeps_used [OF assms(1)] by (auto simp: updateFirmware_def split: prod.splits if_splits)
    have "unat (attempts_used nvs v s) < 3 \<and> unat (attempts_used nvs v s') = unat (attempts_used nvs v s) + 1"
      if "bc_open b" "length v < 24"
    proof -
      have al': "ota_attempt_allowed True nvs v s = (True, t)" using al that True by simp
      show ?thesis using attempt_counts [OF assms(1,2) that(2) al'] u
        by (auto simp: word_less_nat_alt u8_inc_below split: if_splits)
    qed
    then show ?thesis using r True h m by (auto split: prod.splits)
  qed
qed

definition demo_boot :: boot_check_env where
  "demo_boot = \<lparr>bc_heap = 100000, bc_ip = True, bc_heap_now = 120000,
     bc_open = True, bc_open_planned = True\<rparr>"

theorem boot_check_books_only_installs_witness:
  "fst (ota_boot_check (version_text 1 1 7) (Some \<lparr>mf_version = Some ''1.1.8'', mf_files = Some []\<rparr>)
     demo_boot map_nvs (demo_ota, fresh_store)) = BOOT_TRIED RESTARTS \<and>
   unat (attempts_used map_nvs ''1.1.8'' (snd (snd (ota_boot_check (version_text 1 1 7)
     (Some \<lparr>mf_version = Some ''1.1.8'', mf_files = Some []\<rparr>) demo_boot map_nvs (demo_ota, fresh_store))))) = 1"
proof -
  let ?r = "ota_boot_check (version_text 1 1 7) (Some \<lparr>mf_version = Some ''1.1.8'', mf_files = Some []\<rparr>)
     demo_boot map_nvs (demo_ota, fresh_store)"
  have u: "attempts_used map_nvs ''1.1.8'' fresh_store = 0"
    by (simp add: attempts_used_def stored_version_is_def map_nvs_def fresh_store_def)
  have v: "scan_version ''1.1.8'' = Some (1, 1, 8)" by code_simp
  have n: "ota_version_is_newer ''1.1.8'' (version_text 1 1 7)" by (simp add: ota_version_is_newer_def v)
  have r: "fst ?r = BOOT_TRIED RESTARTS"
    using n by (simp add: ota_boot_check_def boot_install_def make_room_def demo_boot_def ota_attempt_allowed_def u
        updateFirmware_def split_beta Let_def)
  then have "?r = (BOOT_TRIED RESTARTS, fst (snd ?r), snd (snd ?r))" by (simp add: prod_eq_iff)
  from boot_check_books_only_installs [OF map_nvs_laws map_nvs_accepts this] r u show ?thesis
    by (auto simp: demo_boot_def)
qed

text \<open>C28: what the nightly check promises and what comes of it, exactly. It restarts the device if and only if it
  is midnight, the minute is not yet checked, the manifest has a version that is newer than the running one,
  and the budget of that version is not spent as far as the storage could be opened for reading. The
  check at boot after that restart, with the same manifest and when the storage could be read at night, tries the installation if the
  manifest has a list of files, the room and the heap are there; it defers for lack of room or heap; and
  it skips a manifest without a list of files, so such a restart is in vain and repeats every night.\<close>

theorem daily_restart_outcome:
  assumes "nvs_laws nvs"
    and "schedule_tick fw midnight (Some m) open_ro open_rw nvs (checked, s) = (restart, checked', s')"
  shows "(restart \<longleftrightarrow> midnight \<and> \<not> checked \<and>
      (\<exists>v. mf_version m = Some v \<and> ota_version_is_newer v fw \<and> (open_ro \<longrightarrow> unat (attempts_used nvs v s) < 3))) \<and>
    (restart \<and> open_ro \<longrightarrow>
       (case ota_boot_check fw (Some m) b nvs (o1, s') of (r, o2, s2) \<Rightarrow>
          case mf_files m of
            None \<Rightarrow> r = BOOT_SKIPPED \<and> o2 = o1 \<and> s2 = s'
          | Some files \<Rightarrow>
              if make_room b \<and> MIN_OTA_HEAP \<le> bc_heap_now b then \<exists>u. r = BOOT_TRIED u
              else r = BOOT_DEFERRED \<and> o2 = o1 \<and> s2 = s'))"
proof (intro conjI impI)
  show iff: "restart \<longleftrightarrow> midnight \<and> \<not> checked \<and>
      (\<exists>v. mf_version m = Some v \<and> ota_version_is_newer v fw \<and> (open_ro \<longrightarrow> unat (attempts_used nvs v s) < 3))"
    using assms(2) by (auto simp: schedule_tick_def ota_attempts_exhausted_def word_le_nat_alt not_le split: if_splits option.splits)
  assume r: "restart \<and> open_ro"
  with iff obtain v where v: "mf_version m = Some v" "ota_version_is_newer v fw" "unat (attempts_used nvs v s) < 3" by blast
  have s': "s' = ota_note_planned_reboot open_rw nvs s"
    using assms(2) r by (auto simp: schedule_tick_def split: if_splits option.splits)
  have "\<not> attempts_used nvs v s' \<ge> MAX_OTA_ATTEMPTS"
    using v(3) planned_keeps_used [OF assms(1), of v open_rw s] s' by (simp add: word_le_nat_alt)
  then have a: "fst (ota_attempt_allowed opened nvs v s') = True" for opened
    by (simp add: ota_attempt_allowed_def Let_def)
  show "case ota_boot_check fw (Some m) b nvs (o1, s') of (r, o2, s2) \<Rightarrow>
          case mf_files m of
            None \<Rightarrow> r = BOOT_SKIPPED \<and> o2 = o1 \<and> s2 = s'
          | Some files \<Rightarrow>
              if make_room b \<and> MIN_OTA_HEAP \<le> bc_heap_now b then \<exists>u. r = BOOT_TRIED u
              else r = BOOT_DEFERRED \<and> o2 = o1 \<and> s2 = s'"
    using v(1,2) a [of "bc_open b"] by (auto simp: ota_boot_check_def boot_install_def not_less split: option.splits prod.splits)
qed

theorem daily_restart_outcome_witness:
  "fst (schedule_tick (version_text 1 1 7) True (Some \<lparr>mf_version = Some (version_text 1 1 8), mf_files = Some []\<rparr>)
     True True map_nvs (False, fresh_store)) = True \<and> unat (attempts_used map_nvs (version_text 1 1 8) fresh_store) < 3"
proof -
  let ?m = "\<lparr>mf_version = Some (version_text 1 1 8), mf_files = Some []\<rparr>"
  let ?r = "schedule_tick (version_text 1 1 7) True (Some ?m) True True map_nvs (False, fresh_store)"
  have f: "fst ?r = True"
    by (simp add: schedule_tick_def ota_version_is_newer_def ota_attempts_exhausted_def attempts_used_def
        stored_version_is_def map_nvs_def fresh_store_def)
  then have "?r = (True, fst (snd ?r), snd (snd ?r))" by (simp add: prod_eq_iff)
  from daily_restart_outcome [OF map_nvs_laws this] f show ?thesis by auto
qed

end
