(* ===== verification/Dns_Server.thy ===== *)
theory Dns_Server
  imports Prelude "HOL-Library.Monad_Syntax"
begin

text \<open>
  The captive-portal name server (\<open>src/main/dns_server.c\<close>): the answer to one datagram, and the task's
  life cycle with the functions that start and stop it.

  A datagram of \<open>n\<close> bytes is the front of the receive buffer; every access to the buffers is checked.
  The address of the access point is an argument: four bytes in network order. The life cycle is a step
  relation over the shared variables, one access a step, because the task and the event handlers run
  concurrently.
\<close>

section \<open>One datagram\<close>

abbreviation DNS_RX_MAX :: nat where "DNS_RX_MAX \<equiv> 512"
abbreviation DNS_TX_MAX :: nat where "DNS_TX_MAX \<equiv> DNS_RX_MAX + 16"
abbreviation DNS_HEADER :: nat where "DNS_HEADER \<equiv> 12"

text \<open>A 16-bit field in network order.\<close>

definition be16 :: "u8 list \<Rightarrow> nat \<Rightarrow> u16 option" where
  "be16 rx p = do { hi \<leftarrow> mem_get rx p; lo \<leftarrow> mem_get rx (p + 1); Some (push_bit 8 (ucast hi) OR ucast lo) }"

text \<open>
  The walk over the labels of the name: the position where it stops, or no position for a label that is
  no plain label.
\<close>

function qname_walk :: "u8 list \<Rightarrow> nat \<Rightarrow> nat \<Rightarrow> nat option option" where
  "qname_walk rx n p =
     (if p < n
      then case mem_get rx p of
             None \<Rightarrow> None
           | Some b \<Rightarrow>
               if b = 0 then Some (Some p)
               else if b AND 0xC0 \<noteq> 0 then Some None
               else qname_walk rx n (p + unat b + 1)
      else Some (Some p))"
  by auto
termination by (relation "measure (\<lambda>(rx, n, p). n - p)") auto

declare qname_walk.simps [simp del]

definition dns_answer :: "u8 list \<Rightarrow> u8 list" where
  "dns_answer ip = [0xC0, 0x0C, 0, 1, 0, 1, 0, 0, 0, 0x1E, 0, 4] @ ip"

text \<open>The reply: header and question copied, the header's fields rewritten, the answer appended for an A query.\<close>

definition dns_write_reply :: "u8 list \<Rightarrow> u8 list \<Rightarrow> u8 list \<Rightarrow> nat \<Rightarrow> u16 \<Rightarrow> u8 list option" where
  "dns_write_reply ip tx rx qend qtype = do {
     question \<leftarrow> mem_read rx 0 qend;
     tx \<leftarrow> mem_write tx 0 question;
     tx \<leftarrow> mem_write tx 2 [0x81, 0x80];
     tx \<leftarrow> mem_write tx 4 [0, 1];
     tx \<leftarrow> mem_write tx 8 [0, 0];
     tx \<leftarrow> mem_write tx 10 [0, 0];
     if qtype = 1
     then do {
       tx \<leftarrow> mem_write tx 6 [0, 1];
       tx \<leftarrow> mem_write tx qend (dns_answer ip);
       mem_read tx 0 (qend + 16)
     }
     else do {
       tx \<leftarrow> mem_write tx 6 [0, 0];
       mem_read tx 0 qend
     }
   }"

text \<open>The reply to a datagram, \<open>Some None\<close> when it is ignored.\<close>

definition dns_reply :: "u8 list \<Rightarrow> u8 list \<Rightarrow> u8 list \<Rightarrow> nat \<Rightarrow> u8 list option option" where
  "dns_reply ip tx rx n =
     (if n < DNS_HEADER then Some None
      else do {
        flags \<leftarrow> be16 rx 2;
        if flags AND 0x8000 \<noteq> 0 then Some None
        else do {
          qd \<leftarrow> be16 rx 4;
          if qd \<noteq> 1 then Some None
          else do {
            w \<leftarrow> qname_walk rx n DNS_HEADER;
            case w of
              None \<Rightarrow> Some None
            | Some p \<Rightarrow>
                if p \<ge> n then Some None
                else let p = p + 1
                in if p + 4 > n then Some None
                   else do {
                     qtype \<leftarrow> be16 rx p;
                     let qend = p + 4;
                     if qend + 16 > DNS_TX_MAX then Some None
                     else map_option Some (dns_write_reply ip tx rx qend qtype)
                   }
          }
        }
      })"

section \<open>Every datagram is handled\<close>

lemma be16_Some: "p + 1 < length rx \<Longrightarrow> be16 rx p = Some (push_bit 8 (ucast (rx ! p)) OR ucast (rx ! (p + 1)))"
  by (simp add: be16_def)

lemma qname_walk_total:
  "n \<le> length rx \<Longrightarrow> \<exists>w. qname_walk rx n p = Some w \<and> (\<forall>q. w = Some q \<longrightarrow> p \<le> q)"
proof (induction rx n p rule: qname_walk.induct)
  case (1 rx n p)
  show ?case
  proof (cases "p < n \<and> rx ! p \<noteq> 0 \<and> rx ! p AND 0xC0 = 0")
    case True
    then have g: "mem_get rx p = Some (rx ! p)" using "1.prems" by simp
    from True have c: "rx ! p \<noteq> 0" "\<not> rx ! p AND 0xC0 \<noteq> 0" by auto
    have "p < n" using True by blast
    from "1.IH" [OF this g c "1.prems"] obtain w where
      "qname_walk rx n (p + unat (rx ! p) + 1) = Some w" "\<forall>q. w = Some q \<longrightarrow> p + unat (rx ! p) + 1 \<le> q" by blast
    with True g show ?thesis by (subst qname_walk.simps) auto
  qed (use "1.prems" in \<open>subst qname_walk.simps, auto\<close>)
qed

text \<open>What the bytes before the answer are: the question with a new header.\<close>

definition reply_head :: "u8 list \<Rightarrow> nat \<Rightarrow> bool \<Rightarrow> u8 list" where
  "reply_head rx qend a = take 2 rx @ [0x81, 0x80, 0, 1, 0, (if a then 1 else 0), 0, 0, 0, 0] @ take (qend - 12) (drop 12 rx)"

lemma list_12:
  assumes "12 \<le> length xs"
  obtains a0 a1 a2 a3 a4 a5 a6 a7 a8 a9 b0 b1 r where
    "xs = [a0, a1, a2, a3, a4, a5, a6, a7, a8, a9, b0, b1] @ r"
  using assms by (auto simp: numeral_eq_Suc Suc_le_length_iff)

lemma reply_head_length [simp]: "12 \<le> qend \<Longrightarrow> qend \<le> length rx \<Longrightarrow> length (reply_head rx qend a) = qend"
  by (simp add: reply_head_def)

lemma write_reply_eq:
  assumes "12 \<le> qend" "qend \<le> length rx" "qend + 16 \<le> length tx" "length ip = 4"
  shows "dns_write_reply ip tx rx qend qt = Some (reply_head rx qend (qt = 1) @ (if qt = 1 then dns_answer ip else []))"
proof -
  obtain a0 a1 a2 a3 a4 a5 a6 a7 a8 a9 b0 b1 r where
    x: "rx = [a0, a1, a2, a3, a4, a5, a6, a7, a8, a9, b0, b1] @ r"
    using list_12 [of rx] assms by (metis le_trans)
  define m where "m = qend - 12"
  have q: "qend = Suc (Suc (Suc (Suc (Suc (Suc (Suc (Suc (Suc (Suc (Suc (Suc m)))))))))))"
    using assms(1) by (simp add: m_def)
  define rest where "rest = drop qend tx"
  have t: "take qend rx = [a0, a1, a2, a3, a4, a5, a6, a7, a8, a9, b0, b1] @ take m r" by (simp add: x q)
  define Q where "Q = take qend rx @ rest"
  define H where "H = [a0, a1, 0x81, 0x80, 0, 1, a6, a7, 0, 0, 0, 0] @ take m r @ rest"
  define A where "A = dns_answer ip"
  have 1: "mem_read rx 0 qend = Some (take qend rx)" using assms(2) by simp
  have 2: "mem_write tx 0 (take qend rx) = Some Q" using assms by (simp add: Q_def rest_def min_def)
  have 3: "do { tx \<leftarrow> mem_write Q 2 [0x81, 0x80]; tx \<leftarrow> mem_write tx 4 [0, 1];
      tx \<leftarrow> mem_write tx 8 [0, 0]; tx \<leftarrow> mem_write tx 10 [0, 0]; f tx } = f H" for f :: "u8 list \<Rightarrow> u8 list option"
    unfolding Q_def t H_def by (simp add: mem_write_def)
  have 4: "mem_write H 6 [0, v] = Some (reply_head rx qend (v = 1) @ rest)" if "v = 1 \<or> v = 0" for v
    using that by (auto simp: H_def mem_write_def reply_head_def x q)
  have l: "length A = 16" "length (reply_head rx qend a) = qend" for a
    using assms by (simp_all add: A_def dns_answer_def)
  have 5: "mem_write (reply_head rx qend True @ rest) qend A = Some (reply_head rx qend True @ A @ drop 16 rest)"
    using l assms(3) by (simp add: mem_write_def rest_def)
  have 6: "mem_read (reply_head rx qend True @ A @ drop 16 rest) 0 (qend + 16) = Some (reply_head rx qend True @ A)"
    "mem_read (reply_head rx qend False @ rest) 0 qend = Some (reply_head rx qend False)"
    using l by (simp_all add: mem_read_def)
  show ?thesis
    unfolding dns_write_reply_def 1 2 bind.bind_lunit 3 A_def [symmetric] using 4 [of 1] 4 [of 0] 5 6 by simp
qed

lemma dns_reply_eq:
  assumes b: "length rx = DNS_RX_MAX" "length tx = DNS_TX_MAX" "length ip = 4" "n \<le> DNS_RX_MAX"
    and h: "DNS_HEADER \<le> n" "be16 rx 2 = Some flags" "flags AND 0x8000 = 0" "be16 rx 4 = Some 1"
    and w: "qname_walk rx n DNS_HEADER = Some (Some p)" "p + 5 \<le> n" "be16 rx (p + 1) = Some qt"
  shows "dns_reply ip tx rx n = Some (Some (reply_head rx (p + 5) (qt = 1) @ (if qt = 1 then dns_answer ip else [])))"
proof -
  have p: "12 \<le> p" using qname_walk_total [of n rx 12] b w(1) by auto
  have "dns_write_reply ip tx rx (p + 5) qt = Some (reply_head rx (p + 5) (qt = 1) @ (if qt = 1 then dns_answer ip else []))"
    using p b w(2) by (intro write_reply_eq) simp_all
  then show ?thesis using b h w by (simp add: dns_reply_def Let_def add.commute)
qed

text \<open>Every datagram that fits the buffer is answered or ignored, with every access inside its buffer.\<close>

lemma dns_reply_total:
  assumes "length rx = DNS_RX_MAX" "length tx = DNS_TX_MAX" "length ip = 4" "n \<le> DNS_RX_MAX"
  shows "\<exists>r. dns_reply ip tx rx n = Some r \<and> (\<forall>out. r = Some out \<longrightarrow> length out \<le> n + 16 \<and> take 2 out = take 2 rx \<and>
    be16 out 2 = Some 0x8180)"
proof -
  obtain flags where f: "be16 rx 2 = Some flags" using assms(1) by (simp add: be16_Some)
  obtain qd where q: "be16 rx 4 = Some qd" using assms(1) by (simp add: be16_Some)
  obtain w where w: "qname_walk rx n 12 = Some w" "\<forall>p. w = Some p \<longrightarrow> 12 \<le> p"
    using qname_walk_total [of n rx 12] assms by auto
  show ?thesis
  proof (cases "12 \<le> n \<and> flags AND 0x8000 = 0 \<and> qd = 1 \<and> (\<exists>p. w = Some p \<and> p + 5 \<le> n)")
    case True
    then obtain p where p: "w = Some p" "p + 5 \<le> n" by blast
    obtain qt where t: "be16 rx (p + 1) = Some qt" using assms p(2) by (simp add: be16_Some)
    have "dns_reply ip tx rx n = Some (Some (reply_head rx (p + 5) (qt = 1) @ (if qt = 1 then dns_answer ip else [])))"
      using True f q w(1) p t by (intro dns_reply_eq [OF assms]) auto
    moreover have "12 \<le> p" using w(2) p(1) by simp
    moreover have "length (dns_answer ip) = 16" using assms(3) by (simp add: dns_answer_def)
    ultimately show ?thesis using p(2) assms(1,4)
      by (auto simp: be16_Some nth_append reply_head_def)
  next
    case False
    then show ?thesis using f q w(1) by (auto simp: dns_reply_def Let_def split: option.splits)
  qed
qed

section \<open>A query and its answer\<close>

text \<open>A query on the wire: header, name, type, class, and whatever follows the question.\<close>

definition wire_name :: "u8 list list \<Rightarrow> u8 list" where
  "wire_name labels = concat (map (\<lambda>l. of_nat (length l) # l) labels) @ [0]"

definition labels_ok :: "u8 list list \<Rightarrow> bool" where
  "labels_ok labels \<longleftrightarrow> (\<forall>l \<in> set labels. 0 < length l \<and> length l < 64)"

definition wire_query :: "u8 list \<Rightarrow> u8 \<Rightarrow> u8 \<Rightarrow> u8 list \<Rightarrow> u8 list list \<Rightarrow> u8 list \<Rightarrow> u8 list \<Rightarrow> u8 list \<Rightarrow> u8 list" where
  "wire_query ident f0 f1 counts labels qtype qclass rest =
     ident @ [f0, f1, 0, 1] @ counts @ wire_name labels @ qtype @ qclass @ rest"

lemma label_byte:
  assumes "0 < m" "m < 64" shows "(of_nat m :: u8) \<noteq> 0" "(of_nat m :: u8) AND 0xC0 = 0" "unat (of_nat m :: u8) = m"
proof -
  show u: "unat (of_nat m :: u8) = m" using assms by (simp add: unsigned_of_nat take_bit_nat_eq_self)
  then show "(of_nat m :: u8) \<noteq> 0" using assms by (metis unsigned_0 less_numeral_extra(3))
  have "take_bit 6 (of_nat m :: u8) = of_nat m"
    using assms(2) by (subst take_bit_of_nat) (simp add: take_bit_nat_eq_self)
  then have "(of_nat m :: u8) AND 0xC0 = take_bit 6 (of_nat m) AND 0xC0" by simp
  also have "\<dots> = of_nat m AND (mask 6 AND 0xC0)" by (simp only: take_bit_eq_mask and.assoc)
  also have "mask 6 AND (0xC0 :: u8) = 0" by (simp add: mask_eq_exp_minus_1)
  finally show "(of_nat m :: u8) AND 0xC0 = 0" by simp
qed

lemma walk_labels:
  assumes "labels_ok labels" "drop p rx = wire_name labels @ more" "p + length (wire_name labels) \<le> n" "n \<le> length rx"
  shows "qname_walk rx n p = Some (Some (p + length (wire_name labels) - 1))"
  using assms
proof (induction labels arbitrary: p)
  case Nil
  then have "rx ! p = 0" "p < n" by (auto simp: wire_name_def nth_via_drop)
  then show ?case using Nil by (subst qname_walk.simps) (simp add: wire_name_def)
next
  case (Cons l labels)
  have l: "0 < length l" "length l < 64" "labels_ok labels" using Cons.prems(1) by (simp_all add: labels_ok_def)
  have d: "drop p rx = of_nat (length l) # l @ wire_name labels @ more" using Cons.prems(2) by (simp add: wire_name_def)
  have w: "length (wire_name (l # labels)) = Suc (length l) + length (wire_name labels)" by (simp add: wire_name_def)
  have "drop (p + length l + 1) rx = drop (Suc (length l)) (drop p rx)" by (simp add: add.commute)
  then have d': "drop (p + length l + 1) rx = wire_name labels @ more" by (simp add: d)
  have "mem_get rx p = Some (of_nat (length l))" using Cons.prems(3,4) w nth_via_drop [OF d] by simp
  moreover have "p < n" using Cons.prems(3) w by simp
  moreover have "qname_walk rx n (p + length l + 1) = Some (Some (p + length l + 1 + length (wire_name labels) - 1))"
    using Cons.prems(3,4) w d' l(3) by (intro Cons.IH) simp_all
  ultimately show ?case using label_byte [OF l(1,2)] w by (subst qname_walk.simps) simp
qed

lemma be16_bit15: "(push_bit 8 (ucast (hi :: u8)) OR ucast (lo :: u8) :: u16) AND 0x8000 = 0 \<longleftrightarrow> hi AND 0x80 = 0"
proof -
  have "(push_bit 8 (ucast hi) OR ucast lo :: u16) AND 2 ^ 15 = 0 \<longleftrightarrow> hi AND 2 ^ 7 = 0"
    unfolding and_exp_eq_0_iff_not_bit by (auto simp: bit_simps dest: bit_imp_le_length)
  then show ?thesis by simp
qed

lemma be16_eq_1: "(push_bit 8 (ucast (hi :: u8)) OR ucast (lo :: u8) :: u16) = 1 \<longleftrightarrow> hi = 0 \<and> lo = 1"
proof
  assume a: "(push_bit 8 (ucast hi) OR ucast lo :: u16) = 1"
  have b: "bit (push_bit 8 (ucast hi) OR ucast lo :: u16) k = bit (1 :: u16) k" for k by (simp only: a)
  have "hi = 0"
  proof (rule bit_word_eqI)
    fix k assume "k < LENGTH(8)"
    then show "bit hi k = bit (0 :: u8) k" using b [of "k + 8"] by (auto simp: bit_simps dest: bit_imp_le_length)
  qed
  moreover have "lo = 1"
  proof (rule bit_word_eqI)
    fix k assume "k < LENGTH(8)"
    then show "bit lo k = bit (1 :: u8) k" using b [of k] by (auto simp: bit_simps)
  qed
  ultimately show "hi = 0 \<and> lo = 1" by simp
qed simp

lemma be16_append:
  "p = length xs \<Longrightarrow> be16 (xs @ hi # lo # ys) p = Some (push_bit 8 (ucast hi) OR ucast lo)"
  by (simp add: be16_def nth_append)

text \<open>C19: The captive portal answers every well-formed query. A single-question query, with any flags but
  the response bit, any labels of 1 to 63 bytes and anything after the question, gets exactly one reply:
  its own identifier, the flags of an answer, the question unchanged, nothing of what followed the question,
  and the address of the access point when an address was asked for; for any other type the reply holds no
  answer.\<close>

theorem dns_answers_query:
  assumes "labels_ok labels" "length ident = 2" "f0 AND 0x80 = 0" "length counts = 6" "length qclass = 2"
    and "q = wire_query ident f0 f1 counts labels [t0, t1] qclass rest" "length q \<le> DNS_RX_MAX"
    and "rx = q @ garbage" "length rx = DNS_RX_MAX" "length tx = DNS_TX_MAX" "length ip = 4"
  shows "dns_reply ip tx rx (length q) = Some (Some (ident @
    [0x81, 0x80, 0, 1, 0, if t0 = 0 \<and> t1 = 1 then 1 else 0, 0, 0, 0, 0] @ wire_name labels @ [t0, t1] @ qclass @
    (if t0 = 0 \<and> t1 = 1 then dns_answer ip else [])))"
proof -
  let ?N = "length (wire_name labels)"
  obtain i0 i1 where i: "ident = [i0, i1]" using assms(2) by (auto simp: numeral_eq_Suc length_Suc_conv)
  have N: "0 < ?N" by (simp add: wire_name_def)
  define tl' where "tl' = [t0, t1] @ qclass @ rest @ garbage"
  have rx: "rx = (ident @ [f0, f1, 0, 1] @ counts) @ wire_name labels @ tl'"
    using assms(6,8) by (simp add: wire_query_def tl'_def)
  have lq: "length q = 16 + ?N + length rest" using assms(2,4,5,6) by (simp add: wire_query_def)
  have d: "drop 12 rx = wire_name labels @ tl'" using assms(2,4) by (simp add: rx)
  have w: "qname_walk rx (length q) DNS_HEADER = Some (Some (11 + ?N))"
    using walk_labels [OF assms(1) d, of "length q"] lq N assms(7,9) by simp
  have t: "be16 rx (11 + ?N + 1) = Some (push_bit 8 (ucast t0) OR ucast t1)"
    using be16_append [of "11 + ?N + 1" "ident @ [f0, f1, 0, 1] @ counts @ wire_name labels" t0 t1] assms(2,4)
    by (simp add: rx tl'_def)
  have f: "be16 rx 2 = Some (push_bit 8 (ucast f0) OR ucast f1)" "be16 rx 4 = Some 1"
    by (simp_all add: rx be16_def i)
  have "dns_reply ip tx rx (length q) =
      Some (Some (reply_head rx (11 + ?N + 5) (t0 = 0 \<and> t1 = 1) @ (if t0 = 0 \<and> t1 = 1 then dns_answer ip else [])))"
    using dns_reply_eq [OF assms(9,10,11,7) _ f(1) _ f(2) w _ t] lq assms(3) by (simp add: be16_bit15 be16_eq_1)
  moreover have "take (4 + ?N) (drop 12 rx) = wire_name labels @ [t0, t1] @ qclass"
    using assms(5) by (simp add: d tl'_def)
  then have "reply_head rx (11 + ?N + 5) a =
      ident @ [0x81, 0x80, 0, 1, 0, if a then 1 else 0, 0, 0, 0, 0] @ wire_name labels @ [t0, t1] @ qclass" for a
    by (simp add: reply_head_def) (simp add: rx i)
  ultimately show ?thesis by simp
qed

text \<open>No datagram harms the name server, and it never answers an answer. Every datagram of at most 512
  bytes, malformed ones included, is answered or ignored with every access inside the receive and transmit
  buffers; an answer keeps the identifier and is at most 16 bytes longer than the datagram; and an answer
  that comes back as a datagram is ignored.\<close>

theorem dns_total_and_quiet:
  assumes "length rx = DNS_RX_MAX" "length tx = DNS_TX_MAX" "length ip = 4" "n \<le> DNS_RX_MAX"
  shows "\<exists>r. dns_reply ip tx rx n = Some r \<and>
    (\<forall>out. r = Some out \<longrightarrow> length out \<le> n + 16 \<and> take 2 out = take 2 rx \<and>
      (\<forall>garbage tx' ip'. length (out @ garbage) = DNS_RX_MAX \<longrightarrow> dns_reply ip' tx' (out @ garbage) (length out) = Some None))"
proof -
  obtain r where r: "dns_reply ip tx rx n = Some r"
    "\<forall>out. r = Some out \<longrightarrow> length out \<le> n + 16 \<and> take 2 out = take 2 rx \<and> be16 out 2 = Some 0x8180"
    using dns_reply_total [OF assms] by blast
  have "dns_reply ip' tx' (out @ garbage) (length out) = Some None"
    if "be16 out 2 = Some 0x8180" for out garbage ip' tx'
  proof -
    have "4 \<le> length out" using that by (auto simp: be16_def mem_get_def split: if_splits Option.bind_splits)
    then have "be16 (out @ garbage) 2 = Some 0x8180" using that by (simp add: be16_def nth_append)
    then show ?thesis by (simp add: dns_reply_def)
  qed
  with r show ?thesis by blast
qed

definition demo_query :: "u8 list" where
  "demo_query = wire_query [7, 9] 1 0 [0, 0, 0, 0, 0, 0] [[0x61, 0x62]] [0, 1] [0, 1] [5]"

theorem dns_answers_query_witness:
  "dns_reply [192, 168, 4, 1] (replicate 528 0) (demo_query @ replicate 491 0) (length demo_query) =
    Some (Some ([7, 9] @ [0x81, 0x80, 0, 1, 0, if (0 :: u8) = 0 \<and> (1 :: u8) = 1 then 1 else 0, 0, 0, 0, 0] @
    wire_name [[0x61, 0x62]] @ [0, 1] @ [0, 1] @
    (if (0 :: u8) = 0 \<and> (1 :: u8) = 1 then dns_answer [192, 168, 4, 1] else [])))"
  by (rule dns_answers_query [where counts = "[0, 0, 0, 0, 0, 0]" and rest = "[5]" and ?f0.0 = 1 and ?f1.0 = 0])
    (simp_all add: demo_query_def labels_ok_def wire_query_def wire_name_def)

theorem dns_total_and_quiet_witness:
  "\<exists>r. dns_reply [1, 2, 3, 4] (replicate 528 0) (replicate 512 0xC0) 512 = Some r \<and>
    (\<forall>out. r = Some out \<longrightarrow> length out \<le> 512 + 16 \<and> take 2 out = take 2 (replicate 512 0xC0) \<and>
      (\<forall>garbage tx' ip'. length (out @ garbage) = DNS_RX_MAX \<longrightarrow> dns_reply ip' tx' (out @ garbage) (length out) = Some None))"
  by (rule dns_total_and_quiet) simp_all

section \<open>The life of the task\<close>

text \<open>
  Where the task is, and where a call of \<open>dns_hijack_stop\<close> is; starts and stops come from the same event
  loop and do not overlap. Descriptors are numbered as they are opened; \<open>d_closed\<close> logs the ones passed
  to \<open>close\<close>.
\<close>

datatype task_pc = Gone | Opening | Binding | Serving | After_Loop | Closing nat | Clearing | Finishing

datatype stop_pc = Idle | Reading | Unsetting "nat option" | Shutting "nat option" | Waiting nat

record dns =
  s_dns_task :: bool
  s_run :: bool
  s_sock :: "nat option"
  d_task :: task_pc
  d_stop :: stop_pc
  d_next :: nat
  d_closed :: "nat list"

definition dns_zero :: dns where
  "dns_zero = \<lparr>s_dns_task = False, s_run = False, s_sock = None, d_task = Gone, d_stop = Idle, d_next = 0, d_closed = []\<rparr>"

inductive dns_hijack_start :: "dns \<Rightarrow> dns \<Rightarrow> bool" where
  created: "d_stop d = Idle \<Longrightarrow> \<not> s_dns_task d \<Longrightarrow>
    dns_hijack_start d (d\<lparr>s_run := True, s_dns_task := True, d_task := Opening\<rparr>)"
| not_created: "d_stop d = Idle \<Longrightarrow> \<not> s_dns_task d \<Longrightarrow> dns_hijack_start d (d\<lparr>s_run := False\<rparr>)"

inductive dns_hijack_stop :: "dns \<Rightarrow> dns \<Rightarrow> bool" where
  begins: "d_stop d = Idle \<Longrightarrow> s_dns_task d \<Longrightarrow> dns_hijack_stop d (d\<lparr>s_run := False, d_stop := Reading\<rparr>)"
| reads: "d_stop d = Reading \<Longrightarrow> dns_hijack_stop d (d\<lparr>d_stop := Unsetting (s_sock d)\<rparr>)"
| unsets: "d_stop d = Unsetting v \<Longrightarrow> dns_hijack_stop d (d\<lparr>s_sock := None, d_stop := Shutting v\<rparr>)"
| shuts: "d_stop d = Shutting (Some k) \<Longrightarrow> dns_hijack_stop d (d\<lparr>d_closed := d_closed d @ [k], d_stop := Waiting 50\<rparr>)"
| no_socket: "d_stop d = Shutting None \<Longrightarrow> dns_hijack_stop d (d\<lparr>d_stop := Waiting 50\<rparr>)"
| waits: "d_stop d = Waiting (Suc n) \<Longrightarrow> s_dns_task d \<Longrightarrow> dns_hijack_stop d (d\<lparr>d_stop := Waiting n\<rparr>)"
| returns: "d_stop d = Waiting n \<Longrightarrow> n = 0 \<or> \<not> s_dns_task d \<Longrightarrow> dns_hijack_stop d (d\<lparr>d_stop := Idle\<rparr>)"

inductive dns_task :: "dns \<Rightarrow> dns \<Rightarrow> bool" where
  no_open: "d_task d = Opening \<Longrightarrow> dns_task d (d\<lparr>s_dns_task := False, d_task := Gone\<rparr>)"
| opens: "d_task d = Opening \<Longrightarrow> dns_task d (d\<lparr>s_sock := Some (d_next d), d_next := d_next d + 1, d_task := Binding\<rparr>)"
| binds: "d_task d = Binding \<Longrightarrow> s_sock d \<noteq> None \<Longrightarrow> dns_task d (d\<lparr>d_task := Serving\<rparr>)"
| bind_fails: "d_task d = Binding \<Longrightarrow>
    dns_task d (d\<lparr>d_task := (case s_sock d of Some k \<Rightarrow> Closing k | None \<Rightarrow> Clearing)\<rparr>)"
| serves: "d_task d = Serving \<Longrightarrow> s_run d \<Longrightarrow> dns_task d d"
| leaves: "d_task d = Serving \<Longrightarrow> dns_task d (d\<lparr>d_task := After_Loop\<rparr>)"
| own_socket: "d_task d = After_Loop \<Longrightarrow> s_sock d = Some k \<Longrightarrow> dns_task d (d\<lparr>d_task := Closing k\<rparr>)"
| no_own_socket: "d_task d = After_Loop \<Longrightarrow> s_sock d = None \<Longrightarrow> dns_task d (d\<lparr>d_task := Finishing\<rparr>)"
| closes: "d_task d = Closing k \<Longrightarrow> dns_task d (d\<lparr>d_closed := d_closed d @ [k], d_task := Clearing\<rparr>)"
| clears: "d_task d = Clearing \<Longrightarrow> dns_task d (d\<lparr>s_sock := None, d_task := Finishing\<rparr>)"
| finishes: "d_task d = Finishing \<Longrightarrow> dns_task d (d\<lparr>s_dns_task := False, d_task := Gone\<rparr>)"

definition dns_step :: "dns \<Rightarrow> dns \<Rightarrow> bool" where
  "dns_step d e \<longleftrightarrow> dns_hijack_start d e \<or> dns_hijack_stop d e \<or> dns_task d e"

text \<open>There is at most one task, and no descriptor is named that was not opened.\<close>

definition dns_inv :: "dns \<Rightarrow> bool" where
  "dns_inv d \<longleftrightarrow> (s_dns_task d \<longleftrightarrow> d_task d \<noteq> Gone) \<and> (\<forall>k \<in> set (d_closed d). k < d_next d) \<and>
     (\<forall>k. s_sock d = Some k \<longrightarrow> k < d_next d) \<and> (\<forall>k. d_task d = Closing k \<longrightarrow> k < d_next d) \<and>
     (\<forall>k. d_stop d \<in> {Unsetting (Some k), Shutting (Some k)} \<longrightarrow> k < d_next d)"

interpretation dns_machine: machine_invariant "\<lambda>d. d = dns_zero" dns_step dns_inv
proof
  show "dns_inv d" if "d = dns_zero" for d using that by (simp add: dns_inv_def dns_zero_def)
  show "dns_inv e" if "dns_inv d" "dns_step d e" for d e
    using that(2,1) unfolding dns_step_def
    by (elim disjE dns_hijack_start.cases dns_hijack_stop.cases dns_task.cases)
      (auto simp: dns_inv_def less_Suc_eq split: option.splits)
qed

text \<open>A start creates a task only when the previous one is gone, and every descriptor closed was one the
  task opened.\<close>

theorem dns_one_task:
  assumes "reach (\<lambda>d. d = dns_zero) dns_step d"
  shows "(s_dns_task d \<longleftrightarrow> d_task d \<noteq> Gone) \<and> (dns_hijack_start d e \<longrightarrow> d_task d = Gone) \<and>
    (\<forall>k \<in> set (d_closed d). k < d_next d)"
  using dns_machine.reach_inv [OF assms] by (auto simp: dns_inv_def elim: dns_hijack_start.cases)

text \<open>A stop that runs while the task leaves its loop by itself closes the same descriptor twice.\<close>

lemma dns_moves:
  assumes "reach (\<lambda>d. d = dns_zero) dns_step d"
  shows "dns_hijack_start d e \<Longrightarrow> reach (\<lambda>d. d = dns_zero) dns_step e"
    "dns_hijack_stop d e \<Longrightarrow> reach (\<lambda>d. d = dns_zero) dns_step e"
    "dns_task d e \<Longrightarrow> reach (\<lambda>d. d = dns_zero) dns_step e"
  using reach.move [OF assms] by (simp_all add: dns_step_def)

theorem dns_double_close_reachable: "\<exists>d. reach (\<lambda>d. d = dns_zero) dns_step d \<and> d_closed d = [0, 0]"
proof -
  let ?R = "reach (\<lambda>d. d = dns_zero) dns_step"
  note i = dns_zero_def
  have "?R dns_zero" by (rule reach.start) simp
  from dns_moves(1) [OF this dns_hijack_start.created] have "?R (dns_zero\<lparr>s_run := True, s_dns_task := True, d_task := Opening\<rparr>)"
    by (simp add: i)
  from dns_moves(3) [OF this dns_task.opens] have 1: "?R (dns_zero\<lparr>s_run := True, s_dns_task := True, s_sock := Some 0, d_next := 1, d_task := Binding\<rparr>)"
    by (simp add: i)
  from dns_moves(3) [OF this dns_task.binds] have "?R (dns_zero\<lparr>s_run := True, s_dns_task := True, s_sock := Some 0, d_next := 1, d_task := Serving\<rparr>)"
    by (simp add: i)
  from dns_moves(3) [OF this dns_task.leaves] have "?R (dns_zero\<lparr>s_run := True, s_dns_task := True, s_sock := Some 0, d_next := 1, d_task := After_Loop\<rparr>)"
    by (simp add: i)
  from dns_moves(3) [OF this dns_task.own_socket [where k = 0]] have "?R (dns_zero\<lparr>s_run := True, s_dns_task := True, s_sock := Some 0, d_next := 1, d_task := Closing 0\<rparr>)"
    by (simp add: i)
  from dns_moves(2) [OF this dns_hijack_stop.begins] have "?R (dns_zero\<lparr>s_run := False, s_dns_task := True, s_sock := Some 0, d_next := 1, d_task := Closing 0, d_stop := Reading\<rparr>)"
    by (simp add: i)
  from dns_moves(2) [OF this dns_hijack_stop.reads] have "?R (dns_zero\<lparr>s_run := False, s_dns_task := True, s_sock := Some 0, d_next := 1, d_task := Closing 0, d_stop := Unsetting (Some 0)\<rparr>)"
    by (simp add: i)
  from dns_moves(2) [OF this dns_hijack_stop.unsets [where v = "Some 0"]] have "?R (dns_zero\<lparr>s_run := False, s_dns_task := True, s_sock := None, d_next := 1, d_task := Closing 0, d_stop := Shutting (Some 0)\<rparr>)"
    by (simp add: i)
  from dns_moves(2) [OF this dns_hijack_stop.shuts [where k = 0]] have "?R (dns_zero\<lparr>s_run := False, s_dns_task := True, s_sock := None, d_next := 1, d_task := Closing 0, d_stop := Waiting 50, d_closed := [0]\<rparr>)"
    by (simp add: i)
  from dns_moves(3) [OF this dns_task.closes [where k = 0]] have "?R (dns_zero\<lparr>s_run := False, s_dns_task := True, s_sock := None, d_next := 1, d_task := Clearing, d_stop := Waiting 50, d_closed := [0, 0]\<rparr>)"
    by (simp add: i)
  then show ?thesis by (intro exI conjI, assumption, simp)
qed

end
