(* ===== verification/Web_Config.thy ===== *)
theory Web_Config
  imports Config_Store Nmea_Util Text_Format
begin

text \<open>
  The configuration page of the web server (\<open>config_get_handler\<close>, \<open>config_post_handler\<close> and their
  helpers in \<open>src/main/web_server.c\<close>): the table of settings as a JSON object with the secrets hidden,
  and the settings of a posted object applied one by one.

  A JSON value is the tree of nodes the code builds or reads; parsing and printing are arguments (the
  cJSON library). The numeric readers of the C library work on a 32-bit \<open>long\<close>.
\<close>

section \<open>JSON values\<close>

datatype json = J_Null | J_Bool bool | J_Num int | J_Str string | J_Arr "json list" | J_Obj "(string \<times> json) list"

text \<open>The lookup of the library ignores the case of letters and takes the first match.\<close>

definition json_item :: "string \<Rightarrow> json \<Rightarrow> json option" where
  "json_item key j =
     (case j of J_Obj l \<Rightarrow> map_option snd (find (\<lambda>kv. map lower (fst kv) = map lower key) l) | _ \<Rightarrow> None)"

section \<open>Numbers in text\<close>

text \<open>Sign and rest after white space.\<close>

definition split_sign :: "string \<Rightarrow> bool \<times> string" where
  "split_sign s = (case dropWhile is_space s of
     [] \<Rightarrow> (False, [])
   | c # r \<Rightarrow> if c = CHR ''-'' then (True, r) else if c = CHR ''+'' then (False, r) else (False, c # r))"

abbreviation LONG_MAX :: int where "LONG_MAX \<equiv> 2147483647"
abbreviation LONG_MIN :: int where "LONG_MIN \<equiv> -2147483648"
abbreviation ULONG_MAX :: int where "ULONG_MAX \<equiv> 4294967295"

text \<open>\<open>strtol\<close> in base ten, with whether it reports a range error.\<close>

definition strtol10 :: "string \<Rightarrow> int \<times> bool" where
  "strtol10 s =
     (let (neg, r) = split_sign s; v = digits_val (takeWhile is_digit r); v = (if neg then - v else v)
      in if v > LONG_MAX then (LONG_MAX, True) else if v < LONG_MIN then (LONG_MIN, True) else (v, False))"

text \<open>The end of \<open>strtoul\<close>: a value out of range is the largest one, a negated one wraps.\<close>

definition ulong :: "bool \<Rightarrow> int \<Rightarrow> int" where
  "ulong neg v = (if v > ULONG_MAX then ULONG_MAX else if neg then (- v) mod 4294967296 else v)"

definition strtoul10 :: "string \<Rightarrow> int" where
  "strtoul10 s = (let (neg, r) = split_sign s in ulong neg (digits_val (takeWhile is_digit r)))"

definition hex_digit_val :: "char \<Rightarrow> int option" where
  "hex_digit_val c = (if is_digit c then Some (of_char c - 48)
     else if CHR ''a'' \<le> lower c \<and> lower c \<le> CHR ''f'' then Some (of_char (lower c) - 87) else None)"

definition is_hex_digit :: "char \<Rightarrow> bool" where "is_hex_digit c \<longleftrightarrow> hex_digit_val c \<noteq> None"

definition hexes_val :: "string \<Rightarrow> int" where
  "hexes_val s = foldl (\<lambda>n c. 16 * n + (case hex_digit_val c of Some d \<Rightarrow> d | None \<Rightarrow> 0)) 0 s"

definition skip_0x :: "string \<Rightarrow> string" where
  "skip_0x s = (case s of a # b # c # r \<Rightarrow> if a = CHR ''0'' \<and> lower b = CHR ''x'' \<and> is_hex_digit c then c # r else s | _ \<Rightarrow> s)"

definition strtoul16 :: "string \<Rightarrow> int" where
  "strtoul16 s = (let (neg, r) = split_sign s in ulong neg (hexes_val (takeWhile is_hex_digit (skip_0x r))))"

section \<open>The page\<close>

definition CONFIG_VALUE_UNCHANGED :: string where
  "CONFIG_VALUE_UNCHANGED = replicate 8 CHR 0x1A"

text \<open>Two lower-case hexadecimal digits; a colour is red, green, blue, alpha from the highest byte down.\<close>

definition hex_pair :: "u8 \<Rightarrow> string" where
  "hex_pair b = map lower (hex02 b)"

definition color_red :: "u32 \<Rightarrow> u8" where "color_red c = ucast (drop_bit 24 c)"
definition color_green :: "u32 \<Rightarrow> u8" where "color_green c = ucast (drop_bit 16 c)"
definition color_blue :: "u32 \<Rightarrow> u8" where "color_blue c = ucast (drop_bit 8 c)"
definition color_alpha :: "u32 \<Rightarrow> u8" where "color_alpha c = ucast c"

definition rgba :: "u8 \<Rightarrow> u8 \<Rightarrow> u8 \<Rightarrow> u8 \<Rightarrow> u32" where
  "rgba r g b a = push_bit 24 (ucast r) OR push_bit 16 (ucast g) OR push_bit 8 (ucast b) OR ucast a"

definition prim :: "'s nvs \<Rightarrow> 's \<Rightarrow> config_item \<Rightarrow> u64" where
  "prim nvs s item = snd (config_get_primitive nvs item s)"

definition ip_byte :: "u32 \<Rightarrow> nat \<Rightarrow> u8" where
  "ip_byte ip b = ucast (drop_bit (8 * b) ip)"

text \<open>The text of a string or blob item; an item that cannot be read has the text of the zeroed buffer.\<close>

definition str_text :: "'s nvs \<Rightarrow> 's \<Rightarrow> config_item \<Rightarrow> string" where
  "str_text nvs s item =
     (case snd (config_get_str_blob nvs item s) of
        Some (NStr x) \<Rightarrow> x
      | Some (NBlob bs) \<Rightarrow> map (\<lambda>b. char_of (unat b)) (takeWhile (\<lambda>b. b \<noteq> 0) bs)
      | _ \<Rightarrow> [])"

definition item_text :: "'s nvs \<Rightarrow> 's \<Rightarrow> config_item \<Rightarrow> string" where
  "item_text nvs s item =
     (let v = prim nvs s item
      in case ci_type item of
           TYPE_STRING \<Rightarrow> str_text nvs s item
         | TYPE_BLOB \<Rightarrow> str_text nvs s item
         | TYPE_COLOR \<Rightarrow> CHR ''#'' # hex_pair (color_red (ucast v)) @ hex_pair (color_green (ucast v)) @ hex_pair (color_blue (ucast v))
         | TYPE_UINT8 \<Rightarrow> dec (unat v) | TYPE_UINT16 \<Rightarrow> dec (unat v) | TYPE_UINT32 \<Rightarrow> dec (unat v) | TYPE_UINT64 \<Rightarrow> dec (unat v)
         | TYPE_BOOL \<Rightarrow> dec_int (sint v) | TYPE_INT8 \<Rightarrow> dec_int (sint v) | TYPE_INT16 \<Rightarrow> dec_int (sint v)
         | TYPE_INT32 \<Rightarrow> dec_int (sint v) | TYPE_INT64 \<Rightarrow> dec_int (sint v)
         | _ \<Rightarrow> [])"

definition item_entry :: "'s nvs \<Rightarrow> 's \<Rightarrow> config_item \<Rightarrow> string \<times> json" where
  "item_entry nvs s item =
     (ci_key item,
      if ci_type item = TYPE_IP then J_Arr (map (\<lambda>b. J_Num (uint (ip_byte (ucast (prim nvs s item)) b))) [0..<4])
      else let t = item_text nvs s item
           in J_Str (if ci_secret item \<and> t \<noteq> [] then CONFIG_VALUE_UNCHANGED else t))"

definition config_json :: "string \<Rightarrow> 's nvs \<Rightarrow> 's \<Rightarrow> json" where
  "config_json fw nvs s = J_Obj ((''version'', J_Str (''v'' @ fw)) # map (item_entry nvs s) CONFIG_ITEMS)"

section \<open>A posted setting\<close>

definition ip_part :: "json \<Rightarrow> u8 option" where
  "ip_part j = (case j of
     J_Str t \<Rightarrow> (let (v, range) = strtol10 t in if range \<or> v < 0 \<or> v > 255 then None else Some (word_of_int v))
   | _ \<Rightarrow> None)"

definition ip_parts :: "json \<Rightarrow> u8 list option" where
  "ip_parts j = (case j of
     J_Arr l \<Rightarrow> if length l = 4 then those (map ip_part l) else None
   | _ \<Rightarrow> None)"

text \<open>The address as stored: its first byte lowest.\<close>

definition ip_word :: "u8 list \<Rightarrow> u32" where
  "ip_word a = push_bit 24 (ucast (a ! 3)) OR push_bit 16 (ucast (a ! 2)) OR push_bit 8 (ucast (a ! 1)) OR ucast (a ! 0)"

definition write_config_value :: "'s nvs \<Rightarrow> config_item \<Rightarrow> json \<Rightarrow> nat \<Rightarrow> 's \<Rightarrow> esp_err \<times> 's" where
  "write_config_value nvs item entry length' s =
     (let bad = (ESP_ERR_INVALID_ARG, s);
          number = (\<lambda>t v. if v = 0 \<and> t \<noteq> ''0'' then bad else config_set nvs item (VNum (word_of_int v)) s)
      in case ci_type item of
           TYPE_STRING \<Rightarrow> (case entry of J_Str t \<Rightarrow> config_set_str nvs (ci_key item) t s | _ \<Rightarrow> bad)
         | TYPE_BLOB \<Rightarrow> (case entry of J_Str t \<Rightarrow>
               config_set_blob nvs (ci_key item) (take length' (map (\<lambda>c. of_char c) t)) s | _ \<Rightarrow> bad)
         | TYPE_COLOR \<Rightarrow> (case entry of
               J_Str t \<Rightarrow>
                 if length t \<noteq> 7 \<or> hd t \<noteq> CHR ''#'' then bad
                 else let black = (t = ''#000000''); c = push_bit 8 (word_of_int (strtoul16 (tl t))) :: u32
                      in if \<not> black \<and> c = 0 then bad
                         else if \<not> black
                         then config_set_color nvs (ci_key item)
                                (rgba (color_red c) (color_green c) (color_blue c) (color_alpha (ucast (ci_bits item)))) s
                         else (ESP_OK, s)
             | _ \<Rightarrow> bad)
         | TYPE_IP \<Rightarrow> (case ip_parts entry of Some a \<Rightarrow> config_set_u32 nvs (ci_key item) (ip_word a) s | None \<Rightarrow> bad)
         | TYPE_MAX \<Rightarrow> (ESP_FAIL, s)
         | ty \<Rightarrow> (case entry of
               J_Str t \<Rightarrow> number t (if ty \<in> {TYPE_UINT8, TYPE_UINT16, TYPE_UINT32, TYPE_UINT64} then strtoul10 t else fst (strtol10 t))
             | _ \<Rightarrow> bad))"

definition apply_config_value :: "'s nvs \<Rightarrow> config_item \<Rightarrow> json \<Rightarrow> 's \<Rightarrow> esp_err \<times> 's" where
  "apply_config_value nvs item entry s =
     (let is_ip = (ci_type item = TYPE_IP);
          text = (case entry of J_Str t \<Rightarrow> Some t | _ \<Rightarrow> None);
          len = (case text of Some t \<Rightarrow> length t | None \<Rightarrow> 0)
      in if \<not> is_ip \<and> text = None then (ESP_ERR_INVALID_ARG, s)
         else if \<not> is_ip \<and> len = 0 \<and> ci_type item \<noteq> TYPE_BLOB \<and> ci_type item \<noteq> TYPE_STRING then (ESP_OK, s)
         else if text = Some CONFIG_VALUE_UNCHANGED then (ESP_OK, s)
         else write_config_value nvs item entry len s)"

text \<open>The settings of a posted object, in the order of the table; a failing one does not stop the others.\<close>

definition apply_item :: "'s nvs \<Rightarrow> json \<Rightarrow> config_item \<Rightarrow> 's \<Rightarrow> 's" where
  "apply_item nvs root item s =
     (case json_item (ci_key item) root of None \<Rightarrow> s | Some entry \<Rightarrow> snd (apply_config_value nvs item entry s))"

definition apply_config :: "'s nvs \<Rightarrow> json \<Rightarrow> 's \<Rightarrow> 's" where
  "apply_config nvs root s = fold (apply_item nvs root) CONFIG_ITEMS s"

section \<open>The page hides the secrets\<close>

lemma secret_types: "list_all (\<lambda>item. ci_secret item \<longrightarrow> ci_type item \<noteq> TYPE_IP \<and> ci_type item \<noteq> TYPE_COLOR) CONFIG_ITEMS"
  by code_simp

text \<open>Two storages a visitor of the page may not tell apart: they agree on every public setting, and the same secrets are set.\<close>

definition public_equal :: "'s nvs \<Rightarrow> 's \<Rightarrow> 's \<Rightarrow> bool" where
  "public_equal nvs s t \<longleftrightarrow> (\<forall>item \<in> set CONFIG_ITEMS.
     (\<not> ci_secret item \<longrightarrow> (\<forall>ty. nvs_get nvs s (ci_key item) ty = nvs_get nvs t (ci_key item) ty)) \<and>
     (ci_secret item \<longrightarrow> (item_text nvs s item = [] \<longleftrightarrow> item_text nvs t item = [])))"

lemma agree_reads:
  assumes "\<And>ty. nvs_get nvs s (ci_key item) ty = nvs_get nvs t (ci_key item) ty"
  shows "config_get_primitive nvs item s = config_get_primitive nvs item t"
    "config_get_str_blob nvs item s = config_get_str_blob nvs item t"
proof -
  have "nvs_get nvs s (ci_key item) = nvs_get nvs t (ci_key item)" using assms by (rule ext)
  then show "config_get_primitive nvs item s = config_get_primitive nvs item t"
    "config_get_str_blob nvs item s = config_get_str_blob nvs item t"
    by (cases "ci_type item"; simp add: config_get_primitive_def config_get_str_blob_def get_over_def)+
qed

lemma agree_texts:
  assumes "\<And>ty. nvs_get nvs s (ci_key item) ty = nvs_get nvs t (ci_key item) ty"
  shows "prim nvs s item = prim nvs t item" "str_text nvs s item = str_text nvs t item"
    "item_text nvs s item = item_text nvs t item" "item_entry nvs s item = item_entry nvs t item"
proof -
  note r = agree_reads [OF assms]
  show p: "prim nvs s item = prim nvs t item" and t: "str_text nvs s item = str_text nvs t item"
    using r by (simp_all add: prim_def str_text_def)
  show i: "item_text nvs s item = item_text nvs t item" using p t by (cases "ci_type item"; simp add: item_text_def)
  show "item_entry nvs s item = item_entry nvs t item" using p i by (simp add: item_entry_def)
qed

text \<open>C16: The settings page does not leak a secret. Every secret setting appears as the empty text or as the
  placeholder, and the whole page is the same for any two storages that agree on the public settings and
  on which secrets are set: nothing else about a password, pin or key can be read from it.\<close>

theorem config_page_hides_secrets:
  assumes "public_equal nvs s t"
  shows "config_json fw nvs s = config_json fw nvs t \<and>
    (\<forall>item \<in> set CONFIG_ITEMS. ci_secret item \<longrightarrow> snd (item_entry nvs s item) \<in> {J_Str [], J_Str CONFIG_VALUE_UNCHANGED})"
proof -
  have "item_entry nvs s item = item_entry nvs t item" if m: "item \<in> set CONFIG_ITEMS" for item
  proof (cases "ci_secret item")
    case True
    then show ?thesis using assms m secret_types
      by (auto simp: public_equal_def item_entry_def list_all_iff Let_def)
  next
    case False
    then show ?thesis using assms m by (intro agree_texts(4)) (auto simp: public_equal_def)
  qed
  then show ?thesis using secret_types by (auto simp: config_json_def item_entry_def list_all_iff Let_def)
qed

theorem config_page_hides_secrets_witness:
  "config_json ''1'' map_nvs [''w_sta_pass'' \<mapsto> NStr ''a''] = config_json ''1'' map_nvs [''w_sta_pass'' \<mapsto> NStr ''b'']"
proof -
  have p: "list_all (\<lambda>item. ci_key item = ''w_sta_pass'' \<longrightarrow> ci_secret item \<and> ci_type item = TYPE_STRING) CONFIG_ITEMS"
    by code_simp
  have t: "item_text map_nvs [''w_sta_pass'' \<mapsto> NStr (c # r)] item = c # r"
    if "item \<in> set CONFIG_ITEMS" "ci_key item = ''w_sta_pass''" for item c r
    using p that by (auto simp: list_all_iff item_text_def str_text_def config_get_str_blob_def map_nvs_def Let_def)
  have o: "item_text map_nvs [''w_sta_pass'' \<mapsto> v] item = item_text map_nvs Map.empty item"
    if "ci_key item \<noteq> ''w_sta_pass''" for item v
    using that by (intro agree_texts(3)) (simp add: map_nvs_def)
  have "public_equal map_nvs [''w_sta_pass'' \<mapsto> NStr ''a''] [''w_sta_pass'' \<mapsto> NStr ''b'']"
    unfolding public_equal_def
  proof (intro ballI conjI impI allI)
    fix item ty assume a: "item \<in> set CONFIG_ITEMS" "\<not> ci_secret item"
    then have "ci_key item \<noteq> ''w_sta_pass''" using p by (auto simp: list_all_iff)
    then show "nvs_get map_nvs [''w_sta_pass'' \<mapsto> NStr ''a''] (ci_key item) ty =
        nvs_get map_nvs [''w_sta_pass'' \<mapsto> NStr ''b''] (ci_key item) ty" by (simp add: map_nvs_def)
  next
    fix item assume a: "item \<in> set CONFIG_ITEMS"
    show "(item_text map_nvs [''w_sta_pass'' \<mapsto> NStr ''a''] item = []) = (item_text map_nvs [''w_sta_pass'' \<mapsto> NStr ''b''] item = [])"
      using t [OF a] o [of item] by (cases "ci_key item = ''w_sta_pass''") simp_all
  qed
  then show ?thesis by (rule config_page_hides_secrets [THEN conjunct1])
qed

section \<open>Reading the numbers back\<close>

lemma digit_facts: "is_digit c \<Longrightarrow> \<not> is_space c \<and> c \<noteq> CHR ''-'' \<and> c \<noteq> CHR ''+''"
  by (auto simp: is_digit_def is_space_def less_eq_char_def)

lemma dec_hd: "\<exists>c r. dec n = c # r \<and> is_digit c"
  using dec_digits [of n] dec_nonempty [of n] by (cases "dec n") auto

lemma split_sign_dec: "split_sign (dec n) = (False, dec n)"
proof -
  obtain c r where "dec n = c # r" "is_digit c" using dec_hd by blast
  then show ?thesis using digit_facts [of c] by (simp add: split_sign_def)
qed

lemma takeWhile_digits [simp]: "takeWhile is_digit (dec n) = dec n"
  using takeWhile_dec [of "[]" n] by simp

lemma strtol10_dec: "int n \<le> LONG_MAX \<Longrightarrow> strtol10 (dec n) = (int n, False)"
  by (simp add: strtol10_def split_sign_dec)

lemma strtoul10_dec: "int n \<le> ULONG_MAX \<Longrightarrow> strtoul10 (dec n) = int n"
  by (simp add: strtoul10_def split_sign_dec ulong_def)

lemma hex_table: "list_all (\<lambda>n. let c = lower (hex_digit n) in is_hex_digit c \<and> \<not> is_space c \<and> c \<noteq> CHR ''-'' \<and> c \<noteq> CHR ''+'' \<and>
    lower c \<noteq> CHR ''x'' \<and> hex_digit_val c = Some (int n)) [0..<16]"
  by code_simp

lemma hex_lower_facts:
  assumes "n < 16"
  shows "is_hex_digit (lower (hex_digit n))" "\<not> is_space (lower (hex_digit n))" "lower (hex_digit n) \<noteq> CHR ''-''"
    "lower (hex_digit n) \<noteq> CHR ''+''" "lower (lower (hex_digit n)) \<noteq> CHR ''x''" "hex_digit_val (lower (hex_digit n)) = Some (int n)"
  using hex_table assms unfolding list_all_iff Let_def by auto

lemma nibbles:
  fixes b :: u8
  shows "unat (drop_bit 4 b) < 16" "unat (b AND 0x0F) < 16" "16 * unat (drop_bit 4 b) + unat (b AND 0x0F) = unat b"
proof -
  have d: "unat (drop_bit 4 b) = unat b div 16" by (simp only: unat_drop_bit_eq) (simp add: drop_bit_eq_div)
  have "b AND 0x0F = take_bit 4 b" by (simp add: take_bit_eq_mask mask_eq_exp_minus_1)
  then have "unat (b AND 0x0F) = take_bit 4 (unat b)" by (simp only: unsigned_take_bit_eq)
  then have m: "unat (b AND 0x0F) = unat b mod 16" by (simp add: take_bit_eq_mod)
  show "unat (drop_bit 4 b) < 16" "unat (b AND 0x0F) < 16" using unat_u8_less [of b] by (simp_all add: d m)
  show "16 * unat (drop_bit 4 b) + unat (b AND 0x0F) = unat b" by (simp add: d m)
qed

lemma hex_pair_facts:
  "length (hex_pair b) = 2" "list_all is_hex_digit (hex_pair b)" "hexes_val (hex_pair b) = uint b"
  "list_all (\<lambda>c. \<not> is_space c \<and> c \<noteq> CHR ''-'' \<and> c \<noteq> CHR ''+'' \<and> lower c \<noteq> CHR ''x'') (hex_pair b)"
proof -
  note f = hex_lower_facts [OF nibbles(1) [of b]] hex_lower_facts [OF nibbles(2) [of b]]
  show "length (hex_pair b) = 2" "list_all is_hex_digit (hex_pair b)"
    "list_all (\<lambda>c. \<not> is_space c \<and> c \<noteq> CHR ''-'' \<and> c \<noteq> CHR ''+'' \<and> lower c \<noteq> CHR ''x'') (hex_pair b)"
    using f by (simp_all add: hex_pair_def hex02_def)
  have "hexes_val (hex_pair b) = int (16 * unat (drop_bit 4 b) + unat (b AND 0x0F))"
    using f by (simp add: hex_pair_def hex02_def hexes_val_def)
  then show "hexes_val (hex_pair b) = uint b" by (simp only: nibbles(3)) simp
qed

lemma hexes_foldl: "foldl (\<lambda>n c. 16 * n + (case hex_digit_val c of Some d \<Rightarrow> d | None \<Rightarrow> 0)) m s = 16 ^ length s * m + hexes_val s"
proof (induction s arbitrary: m)
  case (Cons c s)
  show ?case unfolding hexes_val_def using Cons [of "16 * m + (case hex_digit_val c of Some d \<Rightarrow> d | None \<Rightarrow> 0)"]
      Cons [of "case hex_digit_val c of Some d \<Rightarrow> d | None \<Rightarrow> 0"] by (simp add: algebra_simps)
qed (simp add: hexes_val_def)

lemma hexes_append: "hexes_val (a @ b) = 16 ^ length b * hexes_val a + hexes_val b"
proof -
  have "hexes_val (a @ b) = foldl (\<lambda>n c. 16 * n + (case hex_digit_val c of Some d \<Rightarrow> d | None \<Rightarrow> 0)) (hexes_val a) b"
    by (simp add: hexes_val_def)
  then show ?thesis by (simp only: hexes_foldl)
qed

lemma strtoul16_color:
  "strtoul16 (hex_pair r @ hex_pair g @ hex_pair b) = uint r * 65536 + uint g * 256 + uint b"
proof -
  let ?t = "hex_pair r @ hex_pair g @ hex_pair b"
  obtain c d where h: "hex_pair r = [c, d]" using hex_pair_facts(1) [of r] by (auto simp: numeral_2_eq_2 length_Suc_conv)
  have s: "split_sign ?t = (False, ?t)" using hex_pair_facts(4) [of r] by (simp add: h split_sign_def)
  have x: "skip_0x ?t = ?t" using hex_pair_facts(4) [of r] by (simp add: h skip_0x_def split: list.splits)
  have w: "takeWhile is_hex_digit ?t = ?t" using hex_pair_facts(2) by (auto simp: list_all_iff takeWhile_eq_all_conv)
  have v: "hexes_val ?t = uint r * 65536 + uint g * 256 + uint b" by (simp add: hexes_append hex_pair_facts)
  have "uint r < 256" "uint g < 256" "uint b < 256" using unsigned_less [of _, where ?'a = int and ?'b = 8] by simp_all
  then show ?thesis by (simp add: strtoul16_def s x w v ulong_def)
qed

section \<open>Colours as words\<close>

lemma rgba_parts [simp]:
  "color_red (rgba r g b a) = r" "color_green (rgba r g b a) = g" "color_blue (rgba r g b a) = b" "color_alpha (rgba r g b a) = a"
  by (rule bit_word_eqI, auto simp: color_red_def color_green_def color_blue_def color_alpha_def rgba_def bit_simps
    dest: bit_imp_le_length)+

lemma rgb_sum: "rgba 0 r g b = word_of_int (uint r * 65536 + uint g * 256 + uint b)"
proof -
  let ?x = "push_bit 16 (ucast r) :: u32" and ?y = "push_bit 8 (ucast g) :: u32" and ?z = "ucast b :: u32"
  have "rgba 0 r g b = ?x OR (?y OR ?z)" by (simp add: rgba_def or.assoc)
  also have "\<dots> = ?x + (?y OR ?z)"
    by (rule disjunctive_add [symmetric]) (auto simp: bit_simps dest: bit_imp_le_length)
  also have "?y OR ?z = ?y + ?z"
    by (rule disjunctive_add [symmetric]) (auto simp: bit_simps dest: bit_imp_le_length)
  also have "?x + (?y + ?z) = word_of_int (uint r * 65536 + uint g * 256 + uint b)"
    by (simp add: push_bit_eq_mult mult.commute)
  finally show ?thesis .
qed

lemma rgb_shift: "push_bit 8 (rgba 0 r g b) = rgba r g b 0"
  by (rule bit_word_eqI) (auto simp: rgba_def bit_simps dest: bit_imp_le_length)

lemma rgba_zero: "rgba r g b 0 = 0 \<longleftrightarrow> r = 0 \<and> g = 0 \<and> b = 0"
proof
  assume "rgba r g b 0 = 0"
  then have "color_red 0 = r" "color_green 0 = g" "color_blue 0 = b" using rgba_parts [of r g b 0] by simp_all
  then show "r = 0 \<and> g = 0 \<and> b = 0" by (simp add: color_red_def color_green_def color_blue_def)
qed (simp add: rgba_def)

lemma hex_pair_inj: "hex_pair a = hex_pair b \<longleftrightarrow> a = b"
  using hex_pair_facts(3) [of a] hex_pair_facts(3) [of b] by (metis word_uint_eq_iff)

lemma hex_pair_00: "hex_pair 0 = ''00''"
  by code_simp

text \<open>A colour posted as the page shows it: the same red, green and blue, and the default alpha unless it is black.\<close>

lemma black_text:
  "CHR ''#'' # hex_pair r @ hex_pair g @ hex_pair b = ''#000000'' \<longleftrightarrow> r = 0 \<and> g = 0 \<and> b = 0"
proof -
  have "''#000000'' = CHR ''#'' # hex_pair 0 @ hex_pair 0 @ hex_pair 0" by (simp add: hex_pair_00)
  then show ?thesis using hex_pair_facts(1) hex_pair_inj by (metis append_eq_append_conv list.inject)
qed

lemma post_color:
  assumes "ci_type item = TYPE_COLOR"
  shows "write_config_value nvs item (J_Str (CHR ''#'' # hex_pair r @ hex_pair g @ hex_pair b)) n s =
    (if r = 0 \<and> g = 0 \<and> b = 0 then (ESP_OK, s)
     else config_set_color nvs (ci_key item) (rgba r g b (color_alpha (ucast (ci_bits item)))) s)"
proof -
  let ?t = "CHR ''#'' # hex_pair r @ hex_pair g @ hex_pair b"
  have c: "push_bit 8 (word_of_int (strtoul16 (tl ?t))) = rgba r g b 0"
    using rgb_sum [of r g b] rgb_shift [of r g b] by (simp add: strtoul16_color)
  have l: "length ?t = 7" "hd ?t = CHR ''#''" by (simp_all add: hex_pair_facts)
  show ?thesis using assms l black_text [of r g b] rgba_zero [of r g b]
    by (simp only: write_config_value_def Let_def c config_item_type.case json.case rgba_parts if_False) auto
qed

section \<open>Posting the page back\<close>

text \<open>A colour after the page was posted back: its red, green and blue with the default alpha of its setting; black is not written.\<close>

definition posted_color :: "config_item \<Rightarrow> u32 \<Rightarrow> u32" where
  "posted_color item v =
     (if color_red v = 0 \<and> color_green v = 0 \<and> color_blue v = 0 then v
      else rgba (color_red v) (color_green v) (color_blue v) (color_alpha (ucast (ci_bits item))))"

text \<open>A setting reads as before, and a colour as what posting it gives.\<close>

definition same_setting :: "'s nvs \<Rightarrow> config_item \<Rightarrow> 's \<Rightarrow> 's \<Rightarrow> bool" where
  "same_setting nvs item s t \<longleftrightarrow>
     (if ci_type item = TYPE_STRING then str_text nvs t item = str_text nvs s item
      else if ci_type item = TYPE_COLOR then ucast (prim nvs t item) = posted_color item (ucast (prim nvs s item))
      else prim nvs t item = prim nvs s item)"

text \<open>The types of the table, and its keys: already in lower case, and none is \<open>version\<close>.\<close>

lemma table_types: "list_all (\<lambda>item. ci_type item \<in> {TYPE_BOOL, TYPE_INT8, TYPE_UINT8, TYPE_UINT16, TYPE_UINT32,
    TYPE_STRING, TYPE_COLOR, TYPE_IP} \<and> map lower (ci_key item) = ci_key item \<and> ci_key item \<noteq> ''version'') CONFIG_ITEMS"
  by code_simp

lemma own_entry:
  assumes "item \<in> set CONFIG_ITEMS"
  shows "json_item (ci_key item) (config_json fw nvs s) = Some (snd (item_entry nvs s item))"
proof -
  have k: "\<And>i. i \<in> set CONFIG_ITEMS \<Longrightarrow> map lower (ci_key i) = ci_key i \<and> ci_key i \<noteq> ''version''"
    using table_types by (auto simp: list_all_iff)
  have v: "map lower ''version'' = ''version''" by code_simp
  have f: "find (\<lambda>kv. map lower (fst kv) = ci_key item) (map (item_entry nvs s) L) = Some (item_entry nvs s item)"
    if "item \<in> set L" "set L \<subseteq> set CONFIG_ITEMS" "distinct (map ci_key L)" for L
    using that
  proof (induction L)
    case (Cons i L)
    then show ?case using k by (cases "i = item") (auto simp: item_entry_def)
  qed simp
  have "ci_key item \<noteq> ''version''" "map lower (ci_key item) = ci_key item" using k [OF assms] by simp_all
  then show ?thesis using f [OF assms] config_keys_distinct v
    by (auto simp: json_item_def config_json_def)
qed

text \<open>A storage whose writes succeed and whose reads fail only for absent keys.\<close>

definition nvs_healthy :: "'s nvs \<Rightarrow> bool" where
  "nvs_healthy nvs \<longleftrightarrow> nvs_laws nvs \<and> (\<forall>s k v. fst (nvs_set nvs s k v) = ESP_OK) \<and>
     (\<forall>s k ty e. nvs_get nvs s k ty = Inl e \<longrightarrow> e = ESP_ERR_NVS_NOT_FOUND)"

lemma healthy_set:
  assumes "nvs_healthy nvs"
  shows "nvs_set nvs s k v = (ESP_OK, snd (nvs_set nvs s k v))"
    "nvs_get nvs (snd (nvs_set nvs s k v)) k (ntype_of v) = Inr v"
    "k' \<noteq> k \<Longrightarrow> nvs_get nvs (snd (nvs_set nvs s k v)) k' ty = nvs_get nvs s k' ty"
proof -
  show e: "nvs_set nvs s k v = (ESP_OK, snd (nvs_set nvs s k v))"
    using assms by (metis nvs_healthy_def prod.collapse)
  have l: "nvs_laws nvs" using assms by (simp add: nvs_healthy_def)
  show "nvs_get nvs (snd (nvs_set nvs s k v)) k (ntype_of v) = Inr v" by (rule nvs_lawsD(2) [OF l e])
  show "k' \<noteq> k \<Longrightarrow> nvs_get nvs (snd (nvs_set nvs s k v)) k' ty = nvs_get nvs s k' ty" by (rule nvs_lawsD(3) [OF l e])
qed

text \<open>The number of an item has the width of its type.\<close>

lemma prim_width:
  assumes "nvs_laws nvs"
  shows "ci_type item \<in> {TYPE_BOOL, TYPE_INT8, TYPE_UINT8} \<Longrightarrow> \<exists>x :: u8. prim nvs s item = ucast x"
    "ci_type item = TYPE_UINT16 \<Longrightarrow> \<exists>x :: u16. prim nvs s item = ucast x"
    "ci_type item = TYPE_UINT32 \<Longrightarrow> \<exists>x :: u32. prim nvs s item = ucast x"
proof -
  have g: "snd (get_over nvs s k ty d) = d \<or> (\<exists>v. ntype_of v = ty \<and> snd (get_over nvs s k ty d) = nbits v)" for k ty d
    using nvs_lawsD(1) [OF assms, of s k ty] by (cases "nvs_get nvs s k ty") (auto simp: get_over_def)
  have n: "\<exists>x :: u8. nbits v = ucast x" if "ntype_of v \<in> {TI8, TU8}" for v using that by (cases v) auto
  have n16: "\<exists>x :: u16. nbits v = ucast x" if "ntype_of v = TU16" for v using that by (cases v) auto
  have n32: "\<exists>x :: u32. nbits v = ucast x" if "ntype_of v = TU32" for v using that by (cases v) auto
  show "\<exists>x :: u8. prim nvs s item = ucast x" if "ci_type item \<in> {TYPE_BOOL, TYPE_INT8, TYPE_UINT8}"
    using that g [of "ci_key item" TI8 "take_bit 8 (ci_bits item)"] g [of "ci_key item" TU8 "take_bit 8 (ci_bits item)"] n
    by (auto simp: prim_def config_get_primitive_def Let_def split_beta ucast_ucast_take(1) [symmetric])
  show "\<exists>x :: u16. prim nvs s item = ucast x" if "ci_type item = TYPE_UINT16"
    using that g [of "ci_key item" TU16 "take_bit 16 (ci_bits item)"] n16
    by (auto simp: prim_def config_get_primitive_def Let_def split_beta ucast_ucast_take(2) [symmetric])
  show "\<exists>x :: u32. prim nvs s item = ucast x" if "ci_type item = TYPE_UINT32"
    using that g [of "ci_key item" TU32 "take_bit 32 (ci_bits item)"] n32
    by (auto simp: prim_def config_get_primitive_def Let_def split_beta ucast_ucast_take(3) [symmetric])
qed

lemma take_bit_ucast:
  "take_bit 8 (ucast (x :: u8) :: u64) = ucast x" "take_bit 16 (ucast (y :: u16) :: u64) = ucast y"
  "take_bit 32 (ucast (z :: u32) :: u64) = ucast z"
  by (rule bit_word_eqI, auto simp: bit_simps dest: bit_imp_le_length)+

lemma number_text:
  assumes "nvs_laws nvs" "ci_type item \<in> {TYPE_BOOL, TYPE_INT8, TYPE_UINT8, TYPE_UINT16, TYPE_UINT32}"
  shows "item_text nvs s item = dec (unat (prim nvs s item))" "unat (prim nvs s item) < 2 ^ 32"
    "ci_type item \<in> {TYPE_BOOL, TYPE_INT8} \<Longrightarrow> unat (prim nvs s item) < 256"
    "take_bit (type_width (ci_type item)) (prim nvs s item) = prim nvs s item \<or> ci_type item = TYPE_BOOL"
proof -
  note w = prim_width [OF assms(1), of item s]
  have b8: "unat (ucast x :: u64) < 256" for x :: u8 using unat_u8_less [of x] by (simp add: unsigned_ucast_eq take_bit_nat_eq_self)
  have b16: "unat (ucast x :: u64) < 2 ^ 16" for x :: u16
    using unsigned_less [of x, where ?'a = nat] by (simp add: unsigned_ucast_eq take_bit_nat_eq_self)
  have b32: "unat (ucast x :: u64) < 2 ^ 32" for x :: u32
    using unsigned_less [of x, where ?'a = nat] by (simp add: unsigned_ucast_eq take_bit_nat_eq_self)
  show l: "unat (prim nvs s item) < 2 ^ 32"
  proof -
    have "unat (ucast x :: u64) < 2 ^ 32" for x :: u8 using b8 [of x] by simp
    moreover have "unat (ucast x :: u64) < 2 ^ 32" for x :: u16 using b16 [of x] by simp
    ultimately show ?thesis using assms(2) w b32 by fastforce
  qed
  show l8: "unat (prim nvs s item) < 256" if "ci_type item \<in> {TYPE_BOOL, TYPE_INT8}" using that w(1) b8 by auto
  have "sint (prim nvs s item) = int (unat (prim nvs s item))" if "unat (prim nvs s item) < 256"
  proof -
    have "uint (prim nvs s item) < 256" using that by (metis of_nat_less_iff of_nat_numeral of_nat_unat)
    then have "signed_take_bit 63 (uint (prim nvs s item)) = uint (prim nvs s item)"
      by (intro signed_take_bit_int_eq_self) (auto intro: order_trans [OF _ uint_ge_0])
    then show ?thesis by (simp add: sint_uint)
  qed
  then show "item_text nvs s item = dec (unat (prim nvs s item))"
    using assms(2) l8 by (auto simp: item_text_def dec_int_def Let_def)
  show "take_bit (type_width (ci_type item)) (prim nvs s item) = prim nvs s item \<or> ci_type item = TYPE_BOOL"
    using assms(2) w by (auto simp: take_bit_ucast)
qed

lemma dec_not_placeholder: "dec n \<noteq> CONFIG_VALUE_UNCHANGED"
proof -
  obtain c r where "dec n = c # r" "is_digit c" using dec_hd by blast
  then show ?thesis by (auto simp: CONFIG_VALUE_UNCHANGED_def is_digit_def less_eq_char_def numeral_eq_Suc)
qed

text \<open>A number posted as the page shows it.\<close>

lemma post_number:
  assumes h: "nvs_healthy nvs" and t: "ci_type item \<in> {TYPE_BOOL, TYPE_INT8, TYPE_UINT8, TYPE_UINT16, TYPE_UINT32}"
    and b: "ci_type item = TYPE_BOOL \<Longrightarrow> unat (prim nvs s item) \<le> 1"
  shows "prim nvs (snd (apply_config_value nvs item (J_Str (dec (unat (prim nvs s item)))) t)) item = prim nvs s item"
proof -
  let ?v = "prim nvs s item" and ?t = "dec (unat (prim nvs s item))"
  have l: "nvs_laws nvs" using h by (simp add: nvs_healthy_def)
  note n = number_text [OF l t, of s]
  have r: "(if ci_type item \<in> {TYPE_UINT8, TYPE_UINT16, TYPE_UINT32, TYPE_UINT64} then strtoul10 ?t else fst (strtol10 ?t)) = int (unat ?v)"
  proof -
    have u: "strtoul10 ?t = int (unat ?v)" proof (rule strtoul10_dec)
      have "unat ?v \<le> 4294967295" using n(2) by simp
      then show "int (unat ?v) \<le> ULONG_MAX" by (metis of_nat_le_iff of_nat_numeral)
    qed
    have "strtol10 ?t = (int (unat ?v), False)" if "unat ?v < 256" proof (rule strtol10_dec)
      have "unat ?v \<le> 2147483647" using that by simp
      then show "int (unat ?v) \<le> LONG_MAX" by (metis of_nat_le_iff of_nat_numeral)
    qed
    then show ?thesis using t u n(3) by (cases "ci_type item \<in> {TYPE_BOOL, TYPE_INT8}") (auto simp del: of_nat_unat)
  qed
  have z: "\<not> (int (unat ?v) = 0 \<and> ?t \<noteq> ''0'')"   proof -
    have "dec 0 = ''0''" by code_simp
    then show ?thesis by (metis of_nat_eq_0_iff)
  qed
  have w: "word_of_int (int (unat ?v)) = ?v" by simp
  have a: "apply_config_value nvs item (J_Str ?t) t = config_set nvs item (VNum ?v) t"
    using t r z w dec_not_placeholder [of "unat ?v"] dec_nonempty [of "unat ?v"]
    by (auto simp: apply_config_value_def write_config_value_def Let_def)
  have e: "fst (config_set nvs item (VNum ?v) t) = ESP_OK"
    using t h by (auto simp: config_set_def config_set_bool1_def config_set_i8_def config_set_u8_def config_set_u16_def
      config_set_u32_def nvs_healthy_def)
  show ?thesis
  proof (cases "ci_type item = TYPE_BOOL")
    case True
    have "?v = 0 \<or> ?v = 1" using b [OF True] by (metis le_Suc_eq le_zero_eq One_nat_def unat_eq_zero unsigned_1 word_unat_eq_iff)
    moreover have "nvs_get nvs (snd (nvs_set nvs t (ci_key item) (NI8 x))) (ci_key item) TI8 = Inr (NI8 x)" for x
      using healthy_set(2) [OF h, of t "ci_key item" "NI8 x"] by simp
    ultimately show ?thesis unfolding a
      by (auto simp: True prim_def config_get_primitive_def get_over_def config_set_def config_set_bool1_def num_of_def Let_def)
  next
    case False
    then have "type_width (ci_type item) \<noteq> 0" using t by auto
    with e config_set_read [OF l this, of "?v" t "snd (config_set nvs item (VNum ?v) t)"] n(4) False
    have "config_get_primitive nvs item (snd (config_set nvs item (VNum ?v) t)) = (ESP_OK, ?v)" by (metis prod.collapse)
    then show ?thesis unfolding a by (simp add: prim_def [of nvs "snd _"])
  qed
qed

text \<open>Applying a setting writes at most its own key.\<close>

lemma config_set_shape:
  "snd (config_set nvs item c t) = t \<or> (\<exists>v. snd (config_set nvs item c t) = snd (nvs_set nvs t (ci_key item) v))"
  by (cases "ci_type item") (auto simp: config_set_def config_set_bool1_def config_set_i8_def config_set_i16_def config_set_i32_def
    config_set_i64_def config_set_u8_def config_set_u16_def config_set_u32_def config_set_u64_def config_set_str_def)

lemma apply_shape:
  "snd (apply_config_value nvs item e t) = t \<or> (\<exists>v. snd (apply_config_value nvs item e t) = snd (nvs_set nvs t (ci_key item) v))"
proof -
  have w: "snd (write_config_value nvs item e n t) = t \<or> (\<exists>v. snd (write_config_value nvs item e n t) = snd (nvs_set nvs t (ci_key item) v))" for n
    using config_set_shape [of nvs item _ t]
    by (cases "ci_type item"; cases e)
      (auto simp: write_config_value_def Let_def config_set_str_def config_set_blob_def config_set_color_def config_set_u32_def
        split: option.splits)
  then show ?thesis by (auto simp: apply_config_value_def Let_def)
qed

lemma apply_other:
  assumes "nvs_healthy nvs" "k \<noteq> ci_key item"
  shows "nvs_get nvs (apply_item nvs root item t) k ty = nvs_get nvs t k ty"
proof (cases "json_item (ci_key item) root")
  case (Some e)
  then show ?thesis using apply_shape [of nvs item e t] healthy_set(3) [OF assms(1) assms(2), of t] by (auto simp: apply_item_def)
qed (simp add: apply_item_def)

lemma post_own:
  assumes h: "nvs_healthy nvs" and m: "item \<in> set CONFIG_ITEMS"
    and a: "\<And>ty. nvs_get nvs t (ci_key item) ty = nvs_get nvs s (ci_key item) ty"
    and b: "ci_type item = TYPE_BOOL \<Longrightarrow> unat (prim nvs s item) \<le> 1"
  shows "same_setting nvs item s (apply_item nvs (config_json fw nvs s) item t)"
proof -
  let ?e = "snd (item_entry nvs s item)" and ?s' = "snd (apply_config_value nvs item (snd (item_entry nvs s item)) t)"
  have i: "apply_item nvs (config_json fw nvs s) item t = ?s'" by (simp add: apply_item_def own_entry [OF m])
  note r = agree_texts(1,2) [of nvs t item s, OF a]
  have refl: "same_setting nvs item s t" if "ci_type item \<noteq> TYPE_COLOR" using r that by (simp add: same_setting_def)
  have ty: "ci_type item \<in> {TYPE_BOOL, TYPE_INT8, TYPE_UINT8, TYPE_UINT16, TYPE_UINT32, TYPE_STRING, TYPE_COLOR, TYPE_IP}"
    using table_types m by (auto simp: list_all_iff)
  show ?thesis
  proof (cases "?e = J_Str CONFIG_VALUE_UNCHANGED")
    case True
    have "CONFIG_VALUE_UNCHANGED \<noteq> []" by (simp add: CONFIG_VALUE_UNCHANGED_def)
    then have "?s' = t" unfolding True by (auto simp: apply_config_value_def Let_def)
    moreover have "ci_type item \<noteq> TYPE_COLOR"
    proof
      assume c: "ci_type item = TYPE_COLOR"
      then have "\<not> ci_secret item" using secret_types m by (auto simp: list_all_iff)
      moreover have "length CONFIG_VALUE_UNCHANGED = 8" by (simp add: CONFIG_VALUE_UNCHANGED_def)
      ultimately show False using True c
        by (auto simp: item_entry_def item_text_def Let_def hex_pair_facts dest: arg_cong [of _ _ length])
    qed
    ultimately show ?thesis using i refl by simp
  next
    case False
    consider (str) "ci_type item = TYPE_STRING" | (col) "ci_type item = TYPE_COLOR" | (ip) "ci_type item = TYPE_IP"
      | (num) "ci_type item \<in> {TYPE_BOOL, TYPE_INT8, TYPE_UINT8, TYPE_UINT16, TYPE_UINT32}" using ty by auto
    then show ?thesis
    proof cases
      case str
      have e: "?e = J_Str (str_text nvs s item)" using False str by (auto simp: item_entry_def item_text_def Let_def split: if_splits)
      have "str_text nvs s item \<noteq> CONFIG_VALUE_UNCHANGED" using False e by simp
      then have "?s' = snd (nvs_set nvs t (ci_key item) (NStr (str_text nvs s item)))"
        unfolding e by (simp add: apply_config_value_def write_config_value_def str Let_def config_set_str_def)
      moreover have "nvs_get nvs (snd (nvs_set nvs t (ci_key item) (NStr x))) (ci_key item) TStr = Inr (NStr x)" for x
        using healthy_set(2) [OF h, of t "ci_key item" "NStr x"] by simp
      ultimately show ?thesis unfolding i
        by (simp add: same_setting_def str str_text_def [of nvs "snd _"] config_get_str_blob_def)
    next
      case col
      let ?v = "ucast (prim nvs s item) :: u32"
      let ?t = "CHR ''#'' # hex_pair (color_red ?v) @ hex_pair (color_green ?v) @ hex_pair (color_blue ?v)"
      have e: "?e = J_Str ?t" using False col by (auto simp: item_entry_def item_text_def Let_def split: if_splits)
      have ne: "?t \<noteq> CONFIG_VALUE_UNCHANGED" using False e by simp
      have "apply_config_value nvs item (J_Str ?t) t = write_config_value nvs item (J_Str ?t) (length ?t) t"
        using ne by (simp add: apply_config_value_def col Let_def)
      then have w: "?s' = (if color_red ?v = 0 \<and> color_green ?v = 0 \<and> color_blue ?v = 0 then t
          else snd (nvs_set nvs t (ci_key item) (NU32 (rgba (color_red ?v) (color_green ?v) (color_blue ?v) (color_alpha (ucast (ci_bits item)))))))"
        unfolding e by (simp add: post_color [OF col] config_set_color_def)
      have g: "ucast (prim nvs (snd (nvs_set nvs t (ci_key item) (NU32 x))) item) = x" for x :: u32
        using healthy_set(2) [OF h, of t "ci_key item" "NU32 x"]
        by (simp add: prim_def config_get_primitive_def col get_over_def Let_def ucast_up_ucast_id is_up)
      have "prim nvs t item = prim nvs s item" using r by simp
      then show ?thesis unfolding i w by (simp add: same_setting_def posted_color_def col g)
    next
      case ip
      have "ip_part (J_Num x) = None" for x by (simp add: ip_part_def)
      then have "?s' = t"
        by (simp add: item_entry_def ip apply_config_value_def write_config_value_def ip_parts_def Let_def upt_rec)
      then show ?thesis using i refl ip by simp
    next
      case num
      have l: "nvs_laws nvs" using h by (simp add: nvs_healthy_def)
      have e: "?e = J_Str (dec (unat (prim nvs s item)))"
        using False num number_text(1) [OF l num, of s] by (auto simp: item_entry_def Let_def split: if_splits)
      have "prim nvs ?s' item = prim nvs s item" unfolding e using num b by (intro post_number [OF h]) auto
      then show ?thesis unfolding i using num by (auto simp: same_setting_def)
    qed
  qed
qed

text \<open>C18: Saving the settings page unchanged changes nothing but the alpha of colours. When the object the page was filled from
  is posted back, over a storage whose writes succeed, whose reads fail only for absent keys and in which every switch
  reads as 0 or 1, every text, number, switch and address reads as before, secrets included, and every colour reads as its
  red, green and blue of before with the default alpha of its setting; a black one keeps its alpha too, since it is not written.\<close>

theorem config_save_unchanged:
  assumes "nvs_healthy nvs"
    and "\<forall>item \<in> set CONFIG_ITEMS. ci_type item = TYPE_BOOL \<longrightarrow> unat (prim nvs s item) \<le> 1"
  shows "\<forall>item \<in> set CONFIG_ITEMS. same_setting nvs item s (apply_config nvs (config_json fw nvs s) s)"
proof -
  let ?f = "apply_item nvs (config_json fw nvs s)"
  have "(\<forall>item \<in> set L. same_setting nvs item s (fold ?f L t)) \<and>
      (\<forall>k ty. k \<notin> ci_key ` set L \<longrightarrow> nvs_get nvs (fold ?f L t) k ty = nvs_get nvs t k ty)"
    if "set L \<subseteq> set CONFIG_ITEMS" "distinct (map ci_key L)"
      "\<forall>item \<in> set L. \<forall>ty. nvs_get nvs t (ci_key item) ty = nvs_get nvs s (ci_key item) ty" for L t
    using that
  proof (induction L arbitrary: t)
    case (Cons i L)
    have o: "nvs_get nvs (?f i t) k ty = nvs_get nvs t k ty" if "k \<noteq> ci_key i" for k ty using that by (rule apply_other [OF assms(1)])
    have d: "ci_key i \<notin> ci_key ` set L" "distinct (map ci_key L)" using Cons.prems(2) by auto
    have "\<forall>item \<in> set L. \<forall>ty. nvs_get nvs (?f i t) (ci_key item) ty = nvs_get nvs s (ci_key item) ty"
      using o d(1) Cons.prems(3) by (metis image_eqI list.set_intros(2))
    from Cons.IH [OF _ d(2) this] Cons.prems(1) have ih: "\<forall>item \<in> set L. same_setting nvs item s (fold ?f L (?f i t))"
      "\<forall>k ty. k \<notin> ci_key ` set L \<longrightarrow> nvs_get nvs (fold ?f L (?f i t)) k ty = nvs_get nvs (?f i t) k ty" by simp_all
    have "same_setting nvs i s (?f i t)" using Cons.prems assms by (intro post_own) auto
    moreover have "prim nvs (fold ?f L (?f i t)) i = prim nvs (?f i t) i" "str_text nvs (fold ?f L (?f i t)) i = str_text nvs (?f i t) i"
      using ih(2) d(1) by (auto intro!: agree_texts(1,2))
    ultimately have "same_setting nvs i s (fold ?f L (?f i t))" by (simp add: same_setting_def)
    with ih o show ?case by auto
  qed simp
  from this [of CONFIG_ITEMS s] config_keys_distinct show ?thesis by (simp add: apply_config_def)
qed

lemma map_nvs_healthy: "nvs_healthy map_nvs"
  by (simp add: nvs_healthy_def map_nvs_laws) (auto simp: map_nvs_def split: option.splits if_splits)

theorem config_save_unchanged_witness:
  "list_all (\<lambda>item. same_setting map_nvs item [''w_ap_ssid'' \<mapsto> NStr ''RTKdata_1'']
    (apply_config map_nvs (config_json ''9'' map_nvs [''w_ap_ssid'' \<mapsto> NStr ''RTKdata_1'']) [''w_ap_ssid'' \<mapsto> NStr ''RTKdata_1'']))
    CONFIG_ITEMS"
  unfolding list_all_iff
proof (rule config_save_unchanged [OF map_nvs_healthy], intro ballI impI)
  have t: "list_all (\<lambda>item. ci_type item = TYPE_BOOL \<longrightarrow> take_bit 8 (ci_bits item) \<le> 1) CONFIG_ITEMS" by code_simp
  fix item assume "item \<in> set CONFIG_ITEMS" "ci_type item = TYPE_BOOL"
  with t show "unat (prim map_nvs [''w_ap_ssid'' \<mapsto> NStr ''RTKdata_1''] item) \<le> 1"
    by (auto simp: list_all_iff prim_def config_get_primitive_def get_over_def map_nvs_def Let_def word_le_nat_alt)
qed

end
