(* ===== verification/Wifi.thy ===== *)
theory Wifi
  imports Config_Store Retry_Backoff Nmea_Util
begin

text \<open>
  The Wi-Fi control of \<open>src/main/wifi.c\<close>: the event handlers of the access point and the station, the
  auto-off of the setup access point with its timer and control task, the reconnect task, the set-up of
  the interfaces and of the access point's name, the scan.

  The driver is outside: what its calls return is an argument, and the calls the code makes are logged
  in order. \<open>None\<close> is the abort of \<open>ESP_ERROR_CHECK\<close>, or a shift the language leaves undefined. Log and
  NMEA lines and the status lights are not modelled.
\<close>

section \<open>State\<close>

abbreviation AP_AUTO_OFF_MS :: nat where "AP_AUTO_OFF_MS \<equiv> 900000"
abbreviation AP_MAX_REARMS :: nat where "AP_MAX_REARMS \<equiv> 2"

datatype wifi_mode = MODE_STA | MODE_AP | MODE_APSTA

datatype wifi_call = Set_Mode wifi_mode | Connect | Disconnect | Driver_Stop | Driver_Start | Note_Sta_Ip bool |
  Dns_Hijack bool | Napt u32 | Dhcps_Dns u32 | Scan

record ip_info =
  ip_addr :: u32
  ip_gw :: u32
  ip_netmask :: u32

record ap_config =
  ap_ssid :: string
  ap_ssid_len :: nat
  ap_hidden :: bool
  ap_password :: string
  ap_authmode :: u8

record sta_config =
  sta_ssid :: string
  sta_password :: string
  sta_scan_all :: bool

text \<open>
  The module's variables. The event group is its four bits; the timer is absent before its creation, and
  holds the milliseconds left while it runs. \<open>w_mode\<close> is the mode the driver was last set to.
\<close>

record wifi =
  got_ipv4 :: bool
  got_ipv6 :: bool
  ap_sta_connected :: bool
  ap_stop_due :: bool
  ap_rearm_count :: nat
  ap_stop_timer :: "nat option option"
  w_config_ap :: ap_config
  w_config_sta :: sta_config
  delay_handle :: "retry_delay_t option"
  ap_active :: bool
  sta_active :: bool
  sta_connected :: bool
  dhcps_dns_propagated :: bool
  esp_netif_ap :: "ip_info option"
  esp_netif_sta :: "ip_info option option"
  w_mode :: wifi_mode
  failed_attempts :: nat
  w_calls :: "wifi_call list"

definition w_call :: "wifi_call \<Rightarrow> wifi \<Rightarrow> wifi" where
  "w_call c w = w\<lparr>w_calls := w_calls w @ [c]\<rparr>"

definition esp_wifi_set_mode :: "wifi_mode \<Rightarrow> wifi \<Rightarrow> wifi" where
  "esp_wifi_set_mode m w = w_call (Set_Mode m) (w\<lparr>w_mode := m\<rparr>)"

text \<open>What the driver answers: the calls that set the mode, the configuration and the address information, the
  creation and the start of the timer, the address of the radio, and the lengths that failing reads leave.\<close>

record driver =
  dr_mode_ok :: bool
  dr_config_ok :: bool
  dr_netif_ok :: bool
  dr_timer_create :: bool
  dr_timer_start :: bool
  dr_mac :: "u8 list"
  dr_elen :: "string \<Rightarrow> nat"

section \<open>The auto-off timer\<close>

definition ap_stop_timer_cb :: "wifi \<Rightarrow> wifi" where
  "ap_stop_timer_cb w = w\<lparr>ap_stop_due := True\<rparr>"

definition wifi_ap_start_timer :: "driver \<Rightarrow> wifi \<Rightarrow> wifi" where
  "wifi_ap_start_timer dr w =
     (let w = (if ap_stop_timer w = None \<and> dr_timer_create dr then w\<lparr>ap_stop_timer := Some None\<rparr> else w)
      in case ap_stop_timer w of
           None \<Rightarrow> w
         | Some t \<Rightarrow>
             let w = (if t \<noteq> None then w\<lparr>ap_stop_timer := Some None\<rparr> else w)
             in if dr_timer_start dr then w\<lparr>ap_stop_timer := Some (Some AP_AUTO_OFF_MS)\<rparr> else w)"

section \<open>The access point\<close>

definition wifi_ap_stop_only :: "driver \<Rightarrow> wifi \<Rightarrow> wifi option" where
  "wifi_ap_stop_only dr w =
     (if esp_netif_ap w = None then Some w
      else if \<not> dr_mode_ok dr then None
      else Some ((esp_wifi_set_mode MODE_STA w)\<lparr>ap_active := False, dhcps_dns_propagated := False\<rparr>))"

text \<open>Network byte order of a 32-bit value, and the mask of a prefix length: the shift by 32 or more is undefined.\<close>

definition htonl :: "u32 \<Rightarrow> u32" where
  "htonl x = push_bit 24 (x AND 0xFF) OR push_bit 8 (x AND 0xFF00) OR drop_bit 8 (x AND 0xFF0000) OR drop_bit 24 x"

definition netmask_of :: "u8 \<Rightarrow> u32 option" where
  "netmask_of subnet =
     (let k = unat (32 - ucast subnet :: u32) in if k < 32 then Some (htonl (push_bit k (-1))) else None)"

definition cfg_ip :: "'s nvs \<Rightarrow> 's \<Rightarrow> string \<Rightarrow> u32" where
  "cfg_ip nvs s key = ucast (snd (config_get_primitive nvs (CONF_ITEM key) s))"

definition net_init_softap :: "'s nvs \<Rightarrow> 's \<Rightarrow> driver \<Rightarrow> bool \<Rightarrow> wifi \<Rightarrow> wifi option" where
  "net_init_softap nvs s dr ap_enable w =
     (if ap_enable
      then let gw = cfg_ip nvs s ''w_ap_gw''
           in case netmask_of (config_get_u8 nvs (CONF_ITEM ''w_sta_subnet'') s) of
                None \<Rightarrow> None
              | Some m \<Rightarrow>
                  let w = w\<lparr>esp_netif_ap := Some \<lparr>ip_addr = gw, ip_gw = gw, ip_netmask = m\<rparr>\<rparr>
                  in if \<not> dr_netif_ok dr then None
                     else if \<not> config_get_bool1 nvs (CONF_ITEM ''w_sta_ap_fwd'') s then Some (w_call (Dhcps_Dns gw) w) else Some w
      else Some w)"

text \<open>
  A string of the configuration read into a field of \<open>n\<close> bytes: the field afterwards and the length
  reported. A read that fails leaves the field, and the length \<open>elen\<close>.
\<close>

definition read_field :: "'s nvs \<Rightarrow> 's \<Rightarrow> string \<Rightarrow> nat \<Rightarrow> nat \<Rightarrow> string \<Rightarrow> string \<times> nat" where
  "read_field nvs s key n elen old =
     (case snd (config_get_str_blob nvs (CONF_ITEM key) s) of
        Some (NStr x) \<Rightarrow> if length x + 1 \<le> n then (x, length x + 1) else (old, elen)
      | _ \<Rightarrow> (old, elen))"

text \<open>The length without the terminator.\<close>

definition drop_nul :: "nat \<Rightarrow> nat" where "drop_nul n = (if n > 0 then n - 1 else n)"

definition ap_name :: "u8 list \<Rightarrow> string" where
  "ap_name mac = ''RTKdata_'' @ hex02 (mac ! 3) @ hex02 (mac ! 4) @ hex02 (mac ! 5)"

definition wifi_init_softap :: "'s nvs \<Rightarrow> driver \<Rightarrow> bool \<Rightarrow> wifi \<times> 's \<Rightarrow> (wifi \<times> 's) option" where
  "wifi_init_softap nvs dr ap_enable ws =
     (if ap_enable
      then let (w, s) = ws;
               c = w_config_ap w;
               (ssid, n) = read_field nvs s ''w_ap_ssid'' 32 (dr_elen dr ''w_ap_ssid'') (ap_ssid c);
               n = drop_nul n;
               c = c\<lparr>ap_ssid := ssid, ap_ssid_len := n\<rparr>;
               (c, s) = (if n = 0 \<or> \<not> starts_with ssid ''RTKdata_''
                         then let name = ap_name (dr_mac dr)
                              in (c\<lparr>ap_ssid := name, ap_ssid_len := length name\<rparr>,
                                  snd (config_set_str nvs ''w_ap_ssid'' name s))
                         else (c, s));
               (password, _) = read_field nvs s ''w_ap_pass'' 64 (dr_elen dr ''w_ap_pass'') (ap_password c);
               c = c\<lparr>ap_hidden := (ucast (snd (config_get_primitive nvs (CONF_ITEM ''w_ap_ssid_hid'') s)) :: u8) \<noteq> 0,
                     ap_password := password,
                     ap_authmode := ucast (snd (config_get_primitive nvs (CONF_ITEM ''w_ap_auth_mode'') s))\<rparr>
           in if dr_config_ok dr then Some (w\<lparr>w_config_ap := c\<rparr>, s) else None
      else Some ws)"

definition wifi_ap_start_only :: "'s nvs \<Rightarrow> driver \<Rightarrow> wifi \<times> 's \<Rightarrow> (wifi \<times> 's) option" where
  "wifi_ap_start_only nvs dr ws =
     (let (w, s) = ws
      in case (if esp_netif_ap w = None then net_init_softap nvs s dr True w else Some w) of
           None \<Rightarrow> None
         | Some w \<Rightarrow>
             if \<not> dr_mode_ok dr then Some (w, s)
             else map_option (\<lambda>(w, s). (w\<lparr>ap_active := True, dhcps_dns_propagated := False\<rparr>, s))
                    (wifi_init_softap nvs dr True (esp_wifi_set_mode MODE_APSTA w, s)))"

section \<open>The control task\<close>

text \<open>One wake-up: the stop bit is consumed; while a client is connected the window is re-armed, at most twice.\<close>

definition wifi_control_task :: "driver \<Rightarrow> wifi \<Rightarrow> wifi option" where
  "wifi_control_task dr w =
     (if \<not> ap_stop_due w then Some w
      else let w = w\<lparr>ap_stop_due := False\<rparr>
           in if ap_sta_connected w \<and> ap_rearm_count w < AP_MAX_REARMS
              then Some (wifi_ap_start_timer dr (w\<lparr>ap_rearm_count := ap_rearm_count w + 1\<rparr>))
              else if w_mode w \<noteq> MODE_STA then wifi_ap_stop_only dr w else Some w)"

definition wifi_ap_stop_now :: "wifi \<Rightarrow> wifi" where
  "wifi_ap_stop_now w = (if \<not> ap_active w then w else w\<lparr>ap_stop_due := True\<rparr>)"

definition wifi_driver_restart :: "wifi \<Rightarrow> wifi" where
  "wifi_driver_restart w = w_call Driver_Start (w_call Driver_Stop w)"

section \<open>The reconnect task\<close>

text \<open>One iteration: the milliseconds it sleeps, and the new state.\<close>

definition wifi_sta_reconnect_task :: "wifi \<Rightarrow> int \<times> wifi" where
  "wifi_sta_reconnect_task w =
     (if \<not> sta_active w then (1000, w)
      else if sta_connected w then (1000, w\<lparr>failed_attempts := 0\<rparr>)
      else let (attempts, slept, h) = retry_delay (delay_handle w);
               w = w_call Connect (w\<lparr>delay_handle := h, failed_attempts := failed_attempts w + 1\<rparr>)
           in if failed_attempts w > 60
              then (slept + 6000, (wifi_driver_restart w)\<lparr>failed_attempts := 0\<rparr>)
              else (slept + 5000, w))"

section \<open>The event handlers\<close>

definition handle_sta_start :: "wifi \<Rightarrow> wifi" where
  "handle_sta_start w = w_call Connect (w\<lparr>sta_active := True\<rparr>)"

definition handle_sta_stop :: "wifi \<Rightarrow> wifi" where
  "handle_sta_stop w = w\<lparr>sta_active := False\<rparr>"

definition handle_sta_connected :: "driver \<Rightarrow> wifi \<Rightarrow> wifi" where
  "handle_sta_connected dr w =
     wifi_ap_start_timer dr (w\<lparr>sta_connected := True, delay_handle := retry_reset (delay_handle w)\<rparr>)"

text \<open>\<open>oom\<close>: the allocation of the name's copy fails, which reads as not provisioned.\<close>

definition provisioned :: "'s nvs \<Rightarrow> bool \<Rightarrow> 's \<Rightarrow> bool" where
  "provisioned nvs oom s =
     (case snd (config_get_str_blob_alloc oom nvs (CONF_ITEM ''w_sta_ssid'') s) of Some (NStr x) \<Rightarrow> x \<noteq> [] | _ \<Rightarrow> False)"

definition handle_sta_disconnected :: "'s nvs \<Rightarrow> bool \<Rightarrow> driver \<Rightarrow> wifi \<times> 's \<Rightarrow> (wifi \<times> 's) option" where
  "handle_sta_disconnected nvs oom dr ws =
     (let (w, s) = ws;
          w = w_call (Note_Sta_Ip False) (w\<lparr>sta_connected := False, got_ipv4 := False\<rparr>);
          w = w\<lparr>got_ipv6 := False\<rparr>
      in if provisioned nvs oom s then Some (w, s)
         else map_option (\<lambda>(w, s). (wifi_ap_start_timer dr w, s)) (wifi_ap_start_only nvs dr (w, s)))"

definition handle_ap_start :: "'s nvs \<Rightarrow> 's \<Rightarrow> wifi \<Rightarrow> wifi" where
  "handle_ap_start nvs s w =
     (let fwd = config_get_bool1 nvs (CONF_ITEM ''w_sta_ap_fwd'') s;
          w = (if fwd then w_call (Napt (case esp_netif_ap w of Some i \<Rightarrow> ip_addr i | None \<Rightarrow> 0)) w else w);
          w = w\<lparr>ap_active := True, ap_rearm_count := 0\<rparr>;
          w = (if \<not> fwd then w_call (Dns_Hijack True) w else w)
      in w\<lparr>dhcps_dns_propagated := False\<rparr>)"

definition handle_ap_stop :: "wifi \<Rightarrow> wifi" where
  "handle_ap_stop w = (w_call (Dns_Hijack False) w)\<lparr>ap_sta_connected := False, ap_rearm_count := 0,
     ap_active := False, dhcps_dns_propagated := False\<rparr>"

definition handle_ap_sta_connected :: "wifi \<Rightarrow> wifi" where
  "handle_ap_sta_connected w = w\<lparr>ap_sta_connected := True\<rparr>"

text \<open>\<open>num\<close>: the clients the driver still lists.\<close>

definition handle_ap_sta_disconnected :: "nat \<Rightarrow> wifi \<Rightarrow> wifi" where
  "handle_ap_sta_disconnected num w = (if num = 0 then w\<lparr>ap_sta_connected := False\<rparr> else w)"

definition handle_sta_got_ip :: "'s nvs \<Rightarrow> 's \<Rightarrow> bool \<Rightarrow> u32 \<Rightarrow> wifi \<Rightarrow> wifi option" where
  "handle_sta_got_ip nvs s dns_ok dns w =
     (let fwd = ap_active w \<and> config_get_bool1 nvs (CONF_ITEM ''w_sta_ap_fwd'') s \<and> \<not> dhcps_dns_propagated w
      in if fwd \<and> \<not> dns_ok then None
         else let w = (if fwd then (w_call (Dhcps_Dns dns) w)\<lparr>dhcps_dns_propagated := True\<rparr> else w)
              in Some (w_call (Note_Sta_Ip True) (w\<lparr>got_ipv4 := True\<rparr>)))"

definition handle_sta_lost_ip :: "wifi \<Rightarrow> wifi" where
  "handle_sta_lost_ip w = w_call Disconnect (w_call (Note_Sta_Ip False) (w\<lparr>got_ipv4 := False\<rparr>))"

definition wait_for_ip :: "bool \<Rightarrow> wifi \<Rightarrow> bool" where
  "wait_for_ip arrives_in_time w \<longleftrightarrow> got_ipv4 w \<or> arrives_in_time"

section \<open>Start\<close>

definition net_init_sta :: "'s nvs \<Rightarrow> 's \<Rightarrow> driver \<Rightarrow> bool \<Rightarrow> wifi \<Rightarrow> wifi option" where
  "net_init_sta nvs s dr sta_enable w =
     (if sta_enable
      then let w = w\<lparr>esp_netif_sta := Some None\<rparr>
           in if config_get_bool1 nvs (CONF_ITEM ''w_sta_static'') s
              then case netmask_of (config_get_u8 nvs (CONF_ITEM ''w_sta_subnet'') s) of
                     None \<Rightarrow> None
                   | Some m \<Rightarrow>
                       if \<not> dr_netif_ok dr then None
                       else Some (w\<lparr>esp_netif_sta := Some (Some \<lparr>ip_addr = cfg_ip nvs s ''w_sta_ip'',
                              ip_gw = cfg_ip nvs s ''w_sta_gw'', ip_netmask = m\<rparr>)\<rparr>)
              else Some w
      else Some w)"

definition net_init :: "'s nvs \<Rightarrow> 's \<Rightarrow> driver \<Rightarrow> wifi \<Rightarrow> wifi option" where
  "net_init nvs s dr w = Option.bind (net_init_softap nvs s dr True w) (net_init_sta nvs s dr True)"

definition wifi_init_sta :: "'s nvs \<Rightarrow> driver \<Rightarrow> bool \<Rightarrow> wifi \<times> 's \<Rightarrow> (wifi \<times> 's) option" where
  "wifi_init_sta nvs dr sta_enable ws =
     (if sta_enable
      then let (w, s) = ws;
               c = w_config_sta w;
               (ssid, _) = read_field nvs s ''w_sta_ssid'' 32 (dr_elen dr ''w_sta_ssid'') (sta_ssid c);
               (password, _) = read_field nvs s ''w_sta_pass'' 64 (dr_elen dr ''w_sta_pass'') (sta_password c);
               c = \<lparr>sta_ssid = ssid, sta_password = password,
                    sta_scan_all = config_get_bool1 nvs (CONF_ITEM ''w_sta_scan_mode'') s\<rparr>
           in if dr_config_ok dr then Some (w\<lparr>w_config_sta := c\<rparr>, s) else None
      else Some ws)"

definition wifi_init :: "'s nvs \<Rightarrow> driver \<Rightarrow> bool \<Rightarrow> wifi \<times> 's \<Rightarrow> (wifi \<times> 's) option" where
  "wifi_init nvs dr oom ws =
     (let (w, s) = ws;
          w = w\<lparr>delay_handle := retry_init oom True 5 2000 60000\<rparr>
      in if \<not> dr_mode_ok dr then None
         else let w = wifi_ap_start_timer dr (esp_wifi_set_mode MODE_APSTA w)
              in Option.bind (wifi_init_softap nvs dr True (w, s)) (\<lambda>ws.
                 Option.bind (wifi_init_sta nvs dr True ws) (\<lambda>(w, s). Some (w_call Driver_Start w, s))))"

section \<open>Status and scan\<close>

text \<open>The scan: the records the driver found and whether the memory for them is there. \<open>None\<close> is an abort.\<close>

definition wifi_scan :: "driver \<Rightarrow> bool \<Rightarrow> 'r list \<Rightarrow> wifi \<Rightarrow> ('r list option \<times> nat \<times> wifi) option" where
  "wifi_scan dr malloc_ok found w =
     (let prev = w_mode w
      in if prev = MODE_AP \<and> \<not> dr_mode_ok dr then None
         else let w = (if prev = MODE_AP then esp_wifi_set_mode MODE_APSTA w else w);
                  w = w_call Scan w;
                  w = (if prev = MODE_AP then esp_wifi_set_mode prev w else w)
              in if found = [] then Some (None, 0, w)
                 else if \<not> malloc_ok then Some (None, 0, w)
                 else Some (Some found, length found, w))"

definition wifi_auth_mode_name :: "nat \<Rightarrow> string" where
  "wifi_auth_mode_name m = (if m = 0 then ''OPEN'' else if m = 1 then ''WEP'' else if m = 2 then ''WPA_PSK''
     else if m = 3 then ''WPA2_PSK'' else if m = 4 then ''WPA/2_PSK'' else if m = 5 then ''WPA2_ENTERPRISE''
     else ''Unknown'')"

section \<open>The name of the access point\<close>

lemma conf_ap_ssid: "CONF_ITEM ''w_ap_ssid'' = cfg_item ''w_ap_ssid'' TYPE_STRING False 0 []"
  by code_simp

lemma hex02_length [simp]: "length (hex02 b) = 2"
  by (simp add: hex02_def)

lemma ap_name_facts: "length (ap_name mac) = 14" "starts_with (ap_name mac) ''RTKdata_''"
  by (simp_all add: ap_name_def starts_with_def)

lemma read_field_stored:
  assumes "nvs_get nvs s ''w_ap_ssid'' TStr = Inr (NStr x)" "length x < n"
  shows "read_field nvs s ''w_ap_ssid'' n e old = (x, length x + 1)"
  using assms by (simp add: read_field_def conf_ap_ssid cfg_item_def config_get_str_blob_def)

text \<open>The name and the storage after the initialisation of the access point.\<close>

lemma softap_ssid:
  assumes "wifi_init_softap nvs dr True (w, s) = Some (w', s')"
  defines "r \<equiv> read_field nvs s ''w_ap_ssid'' 32 (dr_elen dr ''w_ap_ssid'') (ap_ssid (w_config_ap w))"
  shows "if drop_nul (snd r) = 0 \<or> \<not> starts_with (fst r) ''RTKdata_''
    then ap_ssid (w_config_ap w') = ap_name (dr_mac dr) \<and>
      s' = snd (nvs_set nvs s ''w_ap_ssid'' (NStr (ap_name (dr_mac dr))))
    else ap_ssid (w_config_ap w') = fst r \<and> s' = s"
  using assms(1)
  by (auto simp: wifi_init_softap_def r_def [symmetric] Let_def split_beta config_set_str_def split: if_splits)

text \<open>The setup network never carries a foreign name. Whatever name the storage holds, or when it cannot be
  read, the access point comes up as \<open>RTKdata_\<close> and a suffix; no other key of the configuration is touched.
  When the name had to be made up, it is stored, and every later start takes the stored name and writes
  nothing.\<close>

theorem ap_name_branded:
  assumes "nvs_laws nvs" and "\<And>v. fst (nvs_set nvs s ''w_ap_ssid'' v) = ESP_OK"
    and "wifi_init_softap nvs dr True (w, s) = Some (w', s')"
  shows "starts_with (ap_ssid (w_config_ap w')) ''RTKdata_'' \<and>
    (\<forall>k ty. k \<noteq> ''w_ap_ssid'' \<longrightarrow> nvs_get nvs s' k ty = nvs_get nvs s k ty) \<and>
    (s' = s \<or> (\<forall>dr2 w2 w3 s3. wifi_init_softap nvs dr2 True (w2, s') = Some (w3, s3) \<longrightarrow>
       ap_ssid (w_config_ap w3) = ap_ssid (w_config_ap w') \<and> s3 = s'))"
proof -
  let ?r = "read_field nvs s ''w_ap_ssid'' 32 (dr_elen dr ''w_ap_ssid'') (ap_ssid (w_config_ap w))"
  let ?n = "ap_name (dr_mac dr)"
  show ?thesis
  proof (cases "drop_nul (snd ?r) = 0 \<or> \<not> starts_with (fst ?r) ''RTKdata_''")
    case True
    with softap_ssid [OF assms(3)] have r: "ap_ssid (w_config_ap w') = ?n" "s' = snd (nvs_set nvs s ''w_ap_ssid'' (NStr ?n))"
      by simp_all
    then have st: "nvs_set nvs s ''w_ap_ssid'' (NStr ?n) = (ESP_OK, s')" using assms(2) [of "NStr ?n"] by (metis prod.collapse)
    have g: "nvs_get nvs s' ''w_ap_ssid'' TStr = Inr (NStr ?n)" "\<forall>k ty. k \<noteq> ''w_ap_ssid'' \<longrightarrow> nvs_get nvs s' k ty = nvs_get nvs s k ty"
      using nvs_lawsD(2) [OF assms(1) st] nvs_lawsD(3) [OF assms(1) st] by simp_all
    have "ap_ssid (w_config_ap w3) = ?n \<and> s3 = s'" if "wifi_init_softap nvs dr2 True (w2, s') = Some (w3, s3)" for dr2 w2 w3 s3
      using softap_ssid [OF that] read_field_stored [OF g(1)] ap_name_facts [of "dr_mac dr"] by (simp add: drop_nul_def)
    with r g(2) ap_name_facts show ?thesis by simp
  next
    case False
    with softap_ssid [OF assms(3)] show ?thesis by simp
  qed
qed

section \<open>The time box of the setup access point\<close>

text \<open>
  The module with time: how long the access point has been on since it came up, and how often the station
  joined a network in that time. The timer is one of the machine's clocks, not its time: the access point ages
  whether or not the timer runs.
\<close>

record box =
  bx_w :: wifi
  bx_open :: nat
  bx_joins :: nat

definition good_driver :: "driver \<Rightarrow> bool" where
  "good_driver dr \<longleftrightarrow> dr_mode_ok dr \<and> dr_config_ok dr \<and> dr_netif_ok dr \<and> dr_timer_create dr \<and> dr_timer_start dr"

text \<open>Milliseconds pass. A running timer counts down, and when none are left its callback runs.\<close>

definition tick_timer :: "nat \<Rightarrow> wifi \<Rightarrow> wifi" where
  "tick_timer t w =
     (case ap_stop_timer w of
        Some (Some r) \<Rightarrow>
          if t = r then ap_stop_timer_cb (w\<lparr>ap_stop_timer := Some None\<rparr>) else w\<lparr>ap_stop_timer := Some (Some (r - t))\<rparr>
      | _ \<Rightarrow> w)"

definition pass :: "nat \<Rightarrow> box \<Rightarrow> box" where
  "pass t b = b\<lparr>bx_w := tick_timer t (bx_w b),
     bx_open := (if w_mode (bx_w b) = MODE_STA then bx_open b else bx_open b + t)\<rparr>"

text \<open>
  Time stops only for the two things that happen at their moment: the callback of the timer, and the control
  task once the stop is due. When the link is lost the allocation of the name's copy succeeds.
\<close>

inductive box_step :: "'s nvs \<Rightarrow> driver \<Rightarrow> 's \<Rightarrow> box \<Rightarrow> box \<Rightarrow> bool" for nvs :: "'s nvs" and dr and s where
  time: "\<not> ap_stop_due (bx_w b) \<Longrightarrow> (\<And>r. ap_stop_timer (bx_w b) = Some (Some r) \<Longrightarrow> t \<le> r) \<Longrightarrow> box_step nvs dr s b (pass t b)"
| control: "wifi_control_task dr (bx_w b) = Some w \<Longrightarrow> box_step nvs dr s b (b\<lparr>bx_w := w\<rparr>)"
| joined: "box_step nvs dr s b (b\<lparr>bx_w := handle_sta_connected dr (bx_w b), bx_joins := bx_joins b + 1\<rparr>)"
| lost: "handle_sta_disconnected nvs False dr (bx_w b, s) = Some (w, s') \<Longrightarrow> box_step nvs dr s b (b\<lparr>bx_w := w\<rparr>)"
| ap_up: "box_step nvs dr s b (b\<lparr>bx_w := handle_ap_start nvs s (bx_w b), bx_open := 0, bx_joins := 0\<rparr>)"
| ap_down: "box_step nvs dr s b (b\<lparr>bx_w := handle_ap_stop (bx_w b), bx_open := 0, bx_joins := 0\<rparr>)"
| client: "box_step nvs dr s b (b\<lparr>bx_w := handle_ap_sta_connected (bx_w b)\<rparr>)"
| client_gone: "box_step nvs dr s b (b\<lparr>bx_w := handle_ap_sta_disconnected n (bx_w b)\<rparr>)"
| sta_up: "box_step nvs dr s b (b\<lparr>bx_w := handle_sta_start (bx_w b)\<rparr>)"
| sta_down: "box_step nvs dr s b (b\<lparr>bx_w := handle_sta_stop (bx_w b)\<rparr>)"
| got_ip: "handle_sta_got_ip nvs s True dns (bx_w b) = Some w \<Longrightarrow> box_step nvs dr s b (b\<lparr>bx_w := w\<rparr>)"
| lost_ip: "box_step nvs dr s b (b\<lparr>bx_w := handle_sta_lost_ip (bx_w b)\<rparr>)"
| stop_now: "box_step nvs dr s b (b\<lparr>bx_w := wifi_ap_stop_now (bx_w b)\<rparr>)"
| reconnect: "box_step nvs dr s b (b\<lparr>bx_w := snd (wifi_sta_reconnect_task (bx_w b))\<rparr>)"
| restart: "box_step nvs dr s b (b\<lparr>bx_w := wifi_driver_restart (bx_w b)\<rparr>)"

definition wifi_zero :: wifi where
  "wifi_zero = \<lparr>got_ipv4 = False, got_ipv6 = False, ap_sta_connected = False, ap_stop_due = False, ap_rearm_count = 0,
     ap_stop_timer = None, w_config_ap = \<lparr>ap_ssid = [], ap_ssid_len = 0, ap_hidden = False, ap_password = [], ap_authmode = 0\<rparr>,
     w_config_sta = \<lparr>sta_ssid = [], sta_password = [], sta_scan_all = False\<rparr>, delay_handle = None, ap_active = False,
     sta_active = False, sta_connected = False, dhcps_dns_propagated = False, esp_netif_ap = None, esp_netif_sta = None,
     w_mode = MODE_STA, failed_attempts = 0, w_calls = []\<rparr>"

text \<open>The start of the program: the interfaces, then the Wi-Fi.\<close>

definition box_start :: "'s nvs \<Rightarrow> driver \<Rightarrow> 's \<Rightarrow> box \<Rightarrow> bool" where
  "box_start nvs dr s b \<longleftrightarrow> (\<exists>w0 w s'. net_init nvs s dr wifi_zero = Some w0 \<and> wifi_init nvs dr False (w0, s) = Some (w, s') \<and>
     b = \<lparr>bx_w = w, bx_open = 0, bx_joins = 0\<rparr>)"

definition left_ms :: "wifi \<Rightarrow> nat" where
  "left_ms w = (case ap_stop_timer w of Some (Some r) \<Rightarrow> r | _ \<Rightarrow> 0)"

definition box_inv :: "box \<Rightarrow> bool" where
  "box_inv b \<longleftrightarrow> (let w = bx_w b in esp_netif_ap w \<noteq> None \<and> left_ms w \<le> AP_AUTO_OFF_MS \<and> ap_rearm_count w \<le> AP_MAX_REARMS \<and>
     (w_mode w \<noteq> MODE_STA \<longrightarrow> ap_stop_due w \<or> 0 < left_ms w) \<and>
     (w_mode w \<noteq> MODE_STA \<longrightarrow>
        bx_open b + left_ms w + (AP_MAX_REARMS - ap_rearm_count w) * AP_AUTO_OFF_MS \<le> (3 + bx_joins b) * AP_AUTO_OFF_MS))"

lemma start_timer_good:
  "good_driver dr \<Longrightarrow> wifi_ap_start_timer dr w = w\<lparr>ap_stop_timer := Some (Some AP_AUTO_OFF_MS)\<rparr>"
  by (cases "ap_stop_timer w") (auto simp: wifi_ap_start_timer_def good_driver_def Let_def)

lemmas wifi_defs = w_call_def wifi_driver_restart_def handle_sta_start_def handle_sta_stop_def handle_ap_start_def
  handle_ap_stop_def handle_ap_sta_connected_def handle_ap_sta_disconnected_def handle_sta_lost_ip_def
  wifi_ap_stop_now_def wifi_sta_reconnect_task_def handle_sta_connected_def Let_def split_beta

lemma box_step_inv:
  assumes "good_driver dr" "provisioned nvs False s" "box_inv b" "box_step nvs dr s b b'"
  shows "box_inv b'"
  using assms(4,3)
proof cases
  case (time t)
  then show ?thesis using assms(3)
    by (auto simp: box_inv_def pass_def tick_timer_def left_ms_def ap_stop_timer_cb_def Let_def split: option.splits if_splits)
next
  case (control w)
  then show ?thesis using assms(1,3) start_timer_good [OF assms(1)]
    by (auto simp: box_inv_def wifi_control_task_def left_ms_def Let_def wifi_ap_stop_only_def esp_wifi_set_mode_def w_call_def
      less_Suc_eq numeral_2_eq_2 split: if_splits)
next
  case joined
  then show ?thesis using assms(3) start_timer_good [OF assms(1)]
    by (auto simp: box_inv_def left_ms_def handle_sta_connected_def Let_def)
next
  case (lost w s')
  then show ?thesis using assms(2,3) by (auto simp: box_inv_def left_ms_def handle_sta_disconnected_def w_call_def Let_def)
next
  case ap_up
  then show ?thesis using assms(3) by (auto simp: box_inv_def left_ms_def wifi_defs)
next
  case (got_ip dns w)
  then show ?thesis using assms(3) by (auto simp: box_inv_def left_ms_def handle_sta_got_ip_def wifi_defs split: if_splits)
qed (use assms(3) in \<open>auto simp: box_inv_def left_ms_def wifi_defs\<close>)

lemma net_init_netif:
  "net_init nvs s dr w = Some w' \<Longrightarrow> esp_netif_ap w' \<noteq> None \<and> ap_rearm_count w' = ap_rearm_count w"
  by (auto simp: net_init_def net_init_softap_def net_init_sta_def w_call_def Let_def
    split: if_splits option.splits Option.bind_splits)

lemma softap_keeps:
  "wifi_init_softap nvs dr a (w, s) = Some (w', s') \<Longrightarrow> \<exists>c. w' = w\<lparr>w_config_ap := c\<rparr>"
  "wifi_init_sta nvs dr a (w, s) = Some (w', s') \<Longrightarrow> \<exists>c. w' = w\<lparr>w_config_sta := c\<rparr>"
  by (auto simp: wifi_init_softap_def wifi_init_sta_def Let_def split_beta split: if_splits intro: exI [of _ "w_config_ap w"]
    exI [of _ "w_config_sta w"])

lemma wifi_init_result:
  assumes "good_driver dr" "wifi_init nvs dr oom (w, s) = Some (w', s')"
  shows "esp_netif_ap w' = esp_netif_ap w \<and> ap_rearm_count w' = ap_rearm_count w \<and> ap_stop_due w' = ap_stop_due w \<and>
    ap_stop_timer w' = Some (Some AP_AUTO_OFF_MS) \<and> w_mode w' = MODE_APSTA"
proof -
  let ?w = "wifi_ap_start_timer dr (esp_wifi_set_mode MODE_APSTA (w\<lparr>delay_handle := retry_init oom True 5 2000 60000\<rparr>))"
  from assms obtain w1 s1 w2 s2 where i: "wifi_init_softap nvs dr True (?w, s) = Some (w1, s1)"
    "wifi_init_sta nvs dr True (w1, s1) = Some (w2, s2)" "w' = w_call Driver_Start w2"
    by (auto simp: wifi_init_def Let_def good_driver_def split: if_splits Option.bind_splits)
  from softap_keeps(1) [OF i(1)] softap_keeps(2) [OF i(2)] i(3) show ?thesis
    by (auto simp: start_timer_good [OF assms(1)] esp_wifi_set_mode_def w_call_def)
qed

lemma box_start_inv:
  assumes "good_driver dr" "box_start nvs dr s b" shows "box_inv b \<and> w_mode (bx_w b) = MODE_APSTA \<and>
    ap_stop_timer (bx_w b) = Some (Some AP_AUTO_OFF_MS) \<and> \<not> ap_stop_due (bx_w b)"
proof -
  from assms(2) obtain w0 w s' where b: "net_init nvs s dr wifi_zero = Some w0" "wifi_init nvs dr False (w0, s) = Some (w, s')"
    "b = \<lparr>bx_w = w, bx_open = 0, bx_joins = 0\<rparr>" by (auto simp: box_start_def)
  have n: "esp_netif_ap w0 \<noteq> None" "ap_rearm_count w0 = 0" "\<not> ap_stop_due w0"
    using b(1) by (auto simp: net_init_def net_init_softap_def net_init_sta_def w_call_def Let_def wifi_zero_def
      split: if_splits option.splits Option.bind_splits)
  from wifi_init_result [OF assms(1) b(2)] n show ?thesis
    by (auto simp: b(3) box_inv_def left_ms_def Let_def)
qed

text \<open>A closed access point stays closed.\<close>

lemma box_stays_closed:
  assumes "provisioned nvs False s" "box_step nvs dr s b b'" "w_mode (bx_w b) = MODE_STA"
  shows "w_mode (bx_w b') = MODE_STA"
  using assms(2,3)
proof cases
  case (time t)
  with assms(3) show ?thesis by (auto simp: pass_def tick_timer_def ap_stop_timer_cb_def split: option.splits)
next
  case (lost w s')
  with assms(1,3) show ?thesis by (auto simp: handle_sta_disconnected_def w_call_def Let_def)
qed (use assms(3) in \<open>auto simp: wifi_defs wifi_control_task_def wifi_ap_start_timer_def handle_sta_got_ip_def
  split: if_splits option.splits\<close>)

interpretation box_machine: machine_invariant "box_start nvs dr s" "box_step nvs dr s"
  "\<lambda>b. good_driver dr \<and> provisioned nvs False s \<longrightarrow> box_inv b" for nvs dr s
  by unfold_locales (auto dest: box_start_inv [THEN conjunct1] intro: box_step_inv)

text \<open>C15: The setup access point of a provisioned unit is time-boxed, provided that the calls of the driver and the creation
  and start of the timer succeed and no allocation fails when the link is lost, and with the control task
  running before more time passes once the stop is due. From the start of the program on, through every order of driver events,
  reconnects, clients coming and going and early stop requests, the access point has been on, since it came up, for at most
  three windows of fifteen minutes plus one more for each time the station joined a network in that time, where time passes
  whether or not the timer runs: whenever the access point is on, its timer runs or its stop is due. Once
  closed it is not opened again by any of these; and whenever its stop is due, it closes at once
  unless a client is connected and a re-arm is left.\<close>

theorem ap_time_boxed:
  assumes "good_driver dr" and "provisioned nvs False s" and "reach (box_start nvs dr s) (box_step nvs dr s) b"
  shows "(w_mode (bx_w b) \<noteq> MODE_STA \<longrightarrow> bx_open b \<le> (3 + bx_joins b) * AP_AUTO_OFF_MS \<and>
      (ap_stop_due (bx_w b) \<or> (\<exists>r > 0. ap_stop_timer (bx_w b) = Some (Some r)))) \<and>
    (\<forall>b'. box_step nvs dr s b b' \<longrightarrow> w_mode (bx_w b) = MODE_STA \<longrightarrow> w_mode (bx_w b') = MODE_STA) \<and>
    (ap_stop_due (bx_w b) \<longrightarrow> \<not> (ap_sta_connected (bx_w b) \<and> ap_rearm_count (bx_w b) < AP_MAX_REARMS) \<longrightarrow>
      (\<exists>w. wifi_control_task dr (bx_w b) = Some w \<and> w_mode w = MODE_STA))"
proof -
  have "box_inv b" using box_machine.reach_inv [OF assms(3)] assms(1,2) by blast
  then have i: "esp_netif_ap (bx_w b) \<noteq> None" "w_mode (bx_w b) \<noteq> MODE_STA \<longrightarrow> bx_open b \<le> (3 + bx_joins b) * AP_AUTO_OFF_MS \<and>
      (ap_stop_due (bx_w b) \<or> (\<exists>r > 0. ap_stop_timer (bx_w b) = Some (Some r)))"
    by (auto simp: box_inv_def left_ms_def Let_def split: option.splits)
  have "\<exists>w. wifi_control_task dr (bx_w b) = Some w \<and> w_mode w = MODE_STA"
    if "ap_stop_due (bx_w b)" "\<not> (ap_sta_connected (bx_w b) \<and> ap_rearm_count (bx_w b) < AP_MAX_REARMS)"
    using that i(1) assms(1)
    by (auto simp: wifi_control_task_def wifi_ap_stop_only_def good_driver_def esp_wifi_set_mode_def w_call_def Let_def)
  with i(2) box_stays_closed [OF assms(2)] show ?thesis by blast
qed

text \<open>A station that keeps rejoining holds the access point open without end: every join starts a new window,
  and no re-arm is spent.\<close>

theorem ap_window_unbounded:
  assumes "good_driver dr" "provisioned nvs False s" "box_start nvs dr s b0"
  shows "\<exists>b. reach (box_start nvs dr s) (box_step nvs dr s) b \<and> w_mode (bx_w b) = MODE_APSTA \<and> n * 899999 \<le> bx_open b"
proof -
  have "\<exists>b. reach (box_start nvs dr s) (box_step nvs dr s) b \<and> w_mode (bx_w b) = MODE_APSTA \<and> n * 899999 \<le> bx_open b \<and>
      \<not> ap_stop_due (bx_w b)"
  proof (induction n)
    case 0
    show ?case using reach.start [of "box_start nvs dr s", OF assms(3)] box_start_inv [OF assms(1,3)] by auto
  next
    case (Suc n)
    then obtain b where b: "reach (box_start nvs dr s) (box_step nvs dr s) b" "w_mode (bx_w b) = MODE_APSTA"
      "n * 899999 \<le> bx_open b" "\<not> ap_stop_due (bx_w b)" by blast
    define c where "c = b\<lparr>bx_w := handle_sta_connected dr (bx_w b), bx_joins := bx_joins b + 1\<rparr>"
    have c: "ap_stop_timer (bx_w c) = Some (Some AP_AUTO_OFF_MS)" "\<not> ap_stop_due (bx_w c)" "w_mode (bx_w c) = MODE_APSTA"
      "bx_open c = bx_open b"
      using b by (simp_all add: c_def handle_sta_connected_def start_timer_good [OF assms(1)])
    have "box_step nvs dr s b c" unfolding c_def by (rule box_step.joined)
    from reach.move [OF b(1) this] have r: "reach (box_start nvs dr s) (box_step nvs dr s) c" .
    have "box_step nvs dr s c (pass 899999 c)" by (rule box_step.time [OF c(2)]) (simp add: c(1))
    from reach.move [OF r this] show ?case using b(3) c
      by (intro exI [of _ "pass 899999 c"]) (simp add: pass_def tick_timer_def)
  qed
  then show ?thesis by blast
qed

section \<open>Concrete runs\<close>

lemma conf_wifi:
  "CONF_ITEM ''w_sta_subnet'' = cfg_item ''w_sta_subnet'' TYPE_UINT8 False 24 []"
  "CONF_ITEM ''w_sta_ap_fwd'' = cfg_item ''w_sta_ap_fwd'' TYPE_BOOL False 0 []"
  "CONF_ITEM ''w_sta_static'' = cfg_item ''w_sta_static'' TYPE_BOOL False 0 []"
  "CONF_ITEM ''w_sta_ssid'' = cfg_item ''w_sta_ssid'' TYPE_STRING False 0 []"
  by code_simp+

definition demo_driver :: driver where
  "demo_driver = \<lparr>dr_mode_ok = True, dr_config_ok = True, dr_netif_ok = True, dr_timer_create = True, dr_timer_start = True,
     dr_mac = [0, 0, 0, 0xAB, 1, 2], dr_elen = (\<lambda>_. 0)\<rparr>"

definition wifi_demo_store :: "string \<Rightarrow> nval option" where
  "wifi_demo_store = [''w_sta_ssid'' \<mapsto> NStr ''home'', ''w_ap_ssid'' \<mapsto> NStr ''OnoLink_1'']"

lemma demo_ok: "good_driver demo_driver" "provisioned map_nvs False wifi_demo_store"
  by (simp_all add: good_driver_def demo_driver_def provisioned_def config_get_str_blob_alloc_def conf_wifi cfg_item_def
    config_get_str_blob_def map_nvs_def wifi_demo_store_def not_found_ok_def)

lemma wifi_demo_start: "\<exists>b. box_start map_nvs demo_driver wifi_demo_store b"
proof -
  obtain m where m: "netmask_of 24 = Some m" by (simp add: netmask_of_def Let_def)
  have g: "config_get_u8 map_nvs (CONF_ITEM ''w_sta_subnet'') wifi_demo_store = 24"
    "\<not> config_get_bool1 map_nvs (CONF_ITEM ''w_sta_static'') wifi_demo_store"
    by (simp_all add: conf_wifi cfg_item_def config_get_u8_def config_get_bool1_def config_get_i8_def get_over_def
      map_nvs_def wifi_demo_store_def)
  have n: "dr_netif_ok demo_driver" by (simp add: demo_driver_def)
  obtain w0 where w0: "net_init map_nvs wifi_demo_store demo_driver wifi_zero = Some w0"
    by (cases "config_get_bool1 map_nvs (CONF_ITEM ''w_sta_ap_fwd'') wifi_demo_store")
      (simp_all add: net_init_def net_init_softap_def net_init_sta_def Let_def m g n)
  have "wifi_init map_nvs demo_driver False (w0, wifi_demo_store) \<noteq> None"
    by (simp add: wifi_init_def wifi_init_softap_def wifi_init_sta_def demo_driver_def Let_def split_beta
      split: Option.bind_splits)
  with w0 show ?thesis by (auto simp: box_start_def)
qed

theorem ap_name_branded_witness:
  "\<exists>w' s'. wifi_init_softap map_nvs demo_driver True (wifi_zero, wifi_demo_store) = Some (w', s') \<and> s' \<noteq> wifi_demo_store \<and>
    starts_with (ap_ssid (w_config_ap w')) ''RTKdata_''"
proof -
  obtain w' s' where r: "wifi_init_softap map_nvs demo_driver True (wifi_zero, wifi_demo_store) = Some (w', s')"
    by (auto simp: wifi_init_softap_def demo_driver_def Let_def split_beta)
  have st: "s' ''w_ap_ssid'' = Some (NStr (ap_name (dr_mac demo_driver)))"
    using softap_ssid [OF r]
    by (simp add: read_field_def conf_ap_ssid cfg_item_def config_get_str_blob_def map_nvs_def wifi_demo_store_def starts_with_def)
  have "ap_name (dr_mac demo_driver) \<noteq> ''OnoLink_1''" by (auto dest!: arg_cong [of _ _ length] simp: ap_name_facts)
  then have "s' ''w_ap_ssid'' \<noteq> wifi_demo_store ''w_ap_ssid''" by (simp add: st wifi_demo_store_def)
  then have "s' \<noteq> wifi_demo_store" by blast
  moreover have "starts_with (ap_ssid (w_config_ap w')) ''RTKdata_''"
    using ap_name_branded [OF map_nvs_laws _ r] by (simp add: map_nvs_def)
  ultimately show ?thesis using r by blast
qed

theorem ap_time_boxed_witness:
  "\<exists>b. reach (box_start map_nvs demo_driver wifi_demo_store) (box_step map_nvs demo_driver wifi_demo_store) b \<and>
    (w_mode (bx_w b) = MODE_STA \<or> bx_open b \<le> (3 + bx_joins b) * AP_AUTO_OFF_MS)"
proof -
  obtain b where "box_start map_nvs demo_driver wifi_demo_store b" using wifi_demo_start by blast
  from reach.start [of "box_start map_nvs demo_driver wifi_demo_store", OF this]
  have r: "reach (box_start map_nvs demo_driver wifi_demo_store) (box_step map_nvs demo_driver wifi_demo_store) b" .
  from ap_time_boxed [OF demo_ok r] r show ?thesis by blast
qed

section \<open>The other operations\<close>

text \<open>A scan leaves the mode as it was.\<close>

lemma scan_keeps_mode: "wifi_scan dr ok found w = Some (r, n, w') \<Longrightarrow> w_mode w' = w_mode w \<and> (case r of None \<Rightarrow> n = 0 | Some l \<Rightarrow> n = length l)"
  by (auto simp: wifi_scan_def esp_wifi_set_mode_def w_call_def Let_def split: if_splits)

text \<open>The sixty-first attempt in a row restarts the driver and starts counting again.\<close>

lemma reconnect_counts:
  assumes "sta_active w" "\<not> sta_connected w" "failed_attempts w \<le> 60"
  shows "failed_attempts (snd (wifi_sta_reconnect_task w)) = (if failed_attempts w = 60 then 0 else failed_attempts w + 1)"
    and "Driver_Stop \<in> set (drop (length (w_calls w)) (w_calls (snd (wifi_sta_reconnect_task w)))) \<longleftrightarrow> failed_attempts w = 60"
  using assms by (auto simp: wifi_sta_reconnect_task_def wifi_driver_restart_def w_call_def Let_def split_beta)

end
