(* ===== verification/Web_Server.thy ===== *)
theory Web_Server
  imports Web_Config Wifi Stream_Stats Ntrip_Ingest
begin

text \<open>
  The web server (\<open>src/main/web_server.c\<close>): authentication, the table of handlers, the pages for the log,
  the core dump, the heap, the status, the scan and the sender statistics, the files of the web partition with
  their cached checksums, and the posting of settings.

  The HTTP library, the JSON library, the file system calls' results, the base64 encoder and the ROM checksum
  are arguments. A request is its method, its target and its headers.
\<close>

section \<open>Requests and replies\<close>

datatype http_method = GET | POST

record request =
  rq_method :: http_method
  rq_uri :: string
  rq_header :: "string \<Rightarrow> string option"

text \<open>\<open>No_Reply\<close>: the handler returns without having sent anything; \<open>Broken\<close>: only the front of the body was sent.\<close>

datatype http_reply = Reply string "(string \<times> string) list" string | No_Reply | Broken string

datatype auth_method = AUTH_METHOD_OPEN | AUTH_METHOD_HOTSPOT | AUTH_METHOD_BASIC

record web =
  basic_authentication :: string
  auth_method :: auth_method
  isFirmwareUpdating :: bool
  isFirmwareUpdatingCompleted :: bool
  firmwareUpdateProgress :: int
  countWebHandler :: nat

abbreviation BUFFER_SIZE :: nat where "BUFFER_SIZE \<equiv> 4096"
abbreviation maxWebHandlerCount :: nat where "maxWebHandlerCount \<equiv> 16"

section \<open>Update events\<close>

datatype web_ota_event = OTA_EVENT_UPDATE_STARTED | OTA_EVENT_UPDATE_PROGRESS int | OTA_EVENT_UPDATE_COMPLETED | OTA_EVENT_OTHER

definition handle_ota_events :: "web_ota_event \<Rightarrow> web \<Rightarrow> web" where
  "handle_ota_events ev w =
     (case ev of
        OTA_EVENT_UPDATE_STARTED \<Rightarrow>
          w\<lparr>isFirmwareUpdating := True, isFirmwareUpdatingCompleted := False, firmwareUpdateProgress := 0\<rparr>
      | OTA_EVENT_UPDATE_PROGRESS p \<Rightarrow>
          w\<lparr>isFirmwareUpdating := True, isFirmwareUpdatingCompleted := False, firmwareUpdateProgress := p\<rparr>
      | OTA_EVENT_UPDATE_COMPLETED \<Rightarrow>
          w\<lparr>isFirmwareUpdating := False, isFirmwareUpdatingCompleted := True, firmwareUpdateProgress := 0\<rparr>
      | OTA_EVENT_OTHER \<Rightarrow> w)"

section \<open>Authentication\<close>

text \<open>The expected header: \<open>b64\<close> is the encoder.\<close>

definition http_auth_basic_header :: "(string \<Rightarrow> string) \<Rightarrow> string \<Rightarrow> string \<Rightarrow> string" where
  "http_auth_basic_header b64 username password = ''Basic '' @ b64 (username @ '':'' @ password)"

text \<open>
  A missing header leaves the allocated byte as it was, and the comparison reads on from there: \<open>junk\<close> is
  what it finds.
\<close>

definition unauthorized :: "string \<Rightarrow> (string \<times> string) list \<Rightarrow> http_reply" where
  "unauthorized text headers = Reply ''401'' headers text"

definition basic_auth :: "string \<Rightarrow> web \<Rightarrow> request \<Rightarrow> http_reply option" where
  "basic_auth junk w rq =
     (let authorization_header = (case rq_header rq ''Authorization'' of Some h \<Rightarrow> h | None \<Rightarrow> junk)
      in if map lower (basic_authentication w) = map lower authorization_header then None
         else Some (unauthorized ''401 Unauthorized - Incorrect or no password provided''
                [(''WWW-Authenticate'', ''Basic realm=\"RTKdata Station Config\"'')]))"

definition hotspot_auth :: "http_reply option" where
  "hotspot_auth = Some (unauthorized ''401 Unauthorized - Configured to only accept connections from hotspot devices'' [])"

text \<open>\<open>None\<close> when the request may go on, else the reply that refuses it.\<close>

definition check_auth :: "string \<Rightarrow> web \<Rightarrow> request \<Rightarrow> http_reply option" where
  "check_auth junk w rq =
     (case auth_method w of
        AUTH_METHOD_HOTSPOT \<Rightarrow> hotspot_auth
      | AUTH_METHOD_BASIC \<Rightarrow> basic_auth junk w rq
      | AUTH_METHOD_OPEN \<Rightarrow> None)"

section \<open>JSON replies\<close>

text \<open>\<open>pr\<close> prints into the buffer; it fails when the text does not fit.\<close>

definition json_response :: "(json \<Rightarrow> string option) \<Rightarrow> json \<Rightarrow> http_reply" where
  "json_response pr tree =
     (case pr tree of
        None \<Rightarrow> Reply ''500 Internal Server Error'' [] ''Not enough space in buffer to output JSON''
      | Some t \<Rightarrow> Reply ''200 OK'' [(''Content-Type'', ''application/json'')] t)"

section \<open>Log, core dump, heap\<close>

definition log_page :: "string option \<Rightarrow> http_reply" where
  "log_page log_data = Reply ''200 OK'' [(''Content-Type'', ''text/plain'')] (case log_data of None \<Rightarrow> [] | Some d \<Rightarrow> d)"

text \<open>The chunks of the dump from an offset: the buffer's size, the last one what is left.\<close>

function core_dump_chunks :: "(nat \<Rightarrow> nat \<Rightarrow> string) \<Rightarrow> nat \<Rightarrow> nat \<Rightarrow> string list" where
  "core_dump_chunks rd size' offset =
     (if offset < size'
      then let n = (if size' - offset > BUFFER_SIZE then BUFFER_SIZE else size' - offset)
           in rd offset n # core_dump_chunks rd size' (offset + BUFFER_SIZE)
      else [])"
  by auto
termination by (relation "measure (\<lambda>(rd, n, k). n - k)") auto

declare core_dump_chunks.simps [simp del]

definition core_dump_page :: "string \<Rightarrow> (nat \<Rightarrow> nat \<Rightarrow> string) \<Rightarrow> nat \<Rightarrow> http_reply" where
  "core_dump_page disposition rd size' =
     (if size' = 0 then Reply ''200 OK'' [] ''No core dump available''
      else Reply ''200 OK'' [(''Content-Type'', ''application/octet-stream''), (''Content-Disposition'', disposition)]
             (concat (core_dump_chunks rd size' 0)))"

record heap_info =
  total_free_bytes :: int
  total_allocated_bytes :: int
  largest_free_block :: int
  minimum_free_bytes :: int
  allocated_blocks :: int
  free_blocks :: int
  total_blocks :: int

definition heap_info_page :: "heap_info \<Rightarrow> json" where
  "heap_info_page i = J_Obj [(''total_free_bytes'', J_Num (total_free_bytes i)),
     (''total_allocated_bytes'', J_Num (total_allocated_bytes i)), (''largest_free_block'', J_Num (largest_free_block i)),
     (''minimum_free_bytes'', J_Num (minimum_free_bytes i)), (''allocated_blocks'', J_Num (allocated_blocks i)),
     (''free_blocks'', J_Num (free_blocks i)), (''total_blocks'', J_Num (total_blocks i))]"

section \<open>Files\<close>

text \<open>The longest path of the file system: 15 for the mount point, 32 for a name.\<close>

abbreviation FILE_PATH_MAX :: nat where "FILE_PATH_MAX \<equiv> 15 + 32"
abbreviation FILE_HASH_SUFFIX :: string where "FILE_HASH_SUFFIX \<equiv> ''.crc''"
abbreviation WWW_PARTITION_PATH :: string where "WWW_PARTITION_PATH \<equiv> ''/www''"

text \<open>The whole path and the length of the base; the target is cut at a query or a fragment.\<close>

definition get_path_from_uri :: "string \<Rightarrow> string \<Rightarrow> nat \<Rightarrow> string option" where
  "get_path_from_uri base_path uri destsize =
     (let q = takeWhile (\<lambda>c. c \<noteq> CHR ''?'') uri; h = takeWhile (\<lambda>c. c \<noteq> CHR ''#'') uri;
          pathlen = min (min (length uri) (length q)) (length h)
      in if length base_path + pathlen + 1 > destsize then None else Some (base_path @ take pathlen uri))"

definition is_file_ext :: "string \<Rightarrow> string \<Rightarrow> bool" where
  "is_file_ext path ext \<longleftrightarrow> map lower (drop (length path - length ext) path) = map lower ext"

definition set_content_type_from_file :: "string \<Rightarrow> string" where
  "set_content_type_from_file path =
     (if is_file_ext path ''.html'' then ''text/html''
      else if is_file_ext path ''.js'' then ''application/javascript''
      else if is_file_ext path ''.css'' then ''text/css''
      else if is_file_ext path ''.ico'' then ''image/x-icon''
      else ''text/plain'')"

type_synonym files = "string \<Rightarrow> u8 list option"

text \<open>A checksum in a file: four bytes, the lowest first.\<close>

definition crc_le_bytes :: "u32 \<Rightarrow> u8 list" where
  "crc_le_bytes crc = map (ip_byte crc) [0..<4]"

definition hex_u32 :: "u32 \<Rightarrow> string" where
  "hex_u32 w = hex02 (color_red w) @ hex02 (color_green w) @ hex02 (color_blue w) @ hex02 (color_alpha w)"

datatype etag_result = ETAG_MATCH | ETAG_MISMATCH | ETAG_NOT_SENT | ETAG_NO_HASH | ETAG_READ_ERROR

definition file_check_etag_hash :: "request \<Rightarrow> files \<Rightarrow> string \<Rightarrow> etag_result \<times> string" where
  "file_check_etag_hash rq fs hash_path =
     (case fs hash_path of
        None \<Rightarrow> (ETAG_NO_HASH, [])
      | Some bs \<Rightarrow>
          if length bs < 4 then (ETAG_READ_ERROR, [])
          else let etag = ''\"'' @ hex_u32 (ip_word (take 4 bs)) @ ''\"''
               in case rq_header rq ''If-None-Match'' of
                    Some h \<Rightarrow> if h = [] then (ETAG_NOT_SENT, etag)
                              else if etag = h then (ETAG_MATCH, etag) else (ETAG_MISMATCH, etag)
                  | None \<Rightarrow> (ETAG_NOT_SENT, etag))"

text \<open>
  The file in chunks of the buffer's size up to the empty one: the body sent, the checksum, and whether
  every chunk was sent. \<open>ok k\<close>: the \<open>k\<close>-th chunk is sent.
\<close>

function send_file :: "(u32 \<Rightarrow> u8 list \<Rightarrow> u32) \<Rightarrow> (nat \<Rightarrow> bool) \<Rightarrow> nat \<Rightarrow> u8 list \<Rightarrow> u8 list \<Rightarrow> u32 \<Rightarrow> u8 list \<times> u32 \<times> bool" where
  "send_file crc32_le ok k rest sent crc =
     (let chunk = take BUFFER_SIZE rest
      in if \<not> ok k then (sent, crc, False)
         else let crc = crc32_le crc chunk
              in if chunk = [] then (sent, crc, True)
                 else send_file crc32_le ok (k + 1) (drop BUFFER_SIZE rest) (sent @ chunk) crc)"
  by auto
termination by (relation "measure (\<lambda>(c, ok, k, rest, sent, crc). length rest)") auto

declare send_file.simps [simp del]

text \<open>
  The path of the file, and whether it became the index page of a directory, which is appended in place:
  \<open>None\<close> when it does not fit the path's buffer, \<open>Some None\<close> when the target is too long.
\<close>

definition file_path_of :: "string \<Rightarrow> (string \<times> bool) option option" where
  "file_path_of uri =
     (let destsize = FILE_PATH_MAX - length FILE_HASH_SUFFIX
      in case get_path_from_uri WWW_PARTITION_PATH uri destsize of
           None \<Rightarrow> Some None
         | Some path \<Rightarrow>
             let name_len = length path - length WWW_PARTITION_PATH
             in if last path = CHR ''/'' \<and> name_len + length ''index.html'' < FILE_PATH_MAX
                then if length path + length ''index.html'' + 1 \<le> destsize then Some (Some (path @ ''index.html'', True)) else None
                else Some (Some (path, False)))"

definition bytes_text :: "u8 list \<Rightarrow> string" where
  "bytes_text bs = map (\<lambda>b. char_of (unat b)) bs"

text \<open>\<open>wr_ok\<close>: the checksum file can be written. The result is the reply and the files afterwards.\<close>

definition file_page ::
  "(u32 \<Rightarrow> u8 list \<Rightarrow> u32) \<Rightarrow> (nat \<Rightarrow> bool) \<Rightarrow> bool \<Rightarrow> bool \<Rightarrow> request \<Rightarrow> files \<Rightarrow> (http_reply \<times> files) option" where
  "file_page crc32_le ok open_ok wr_ok rq fs =
     (case file_path_of (rq_uri rq) of
        None \<Rightarrow> None
      | Some None \<Rightarrow> Some (Reply ''500 Internal Server Error'' [] ''Filename too long'', fs)
      | Some (Some (path, index)) \<Rightarrow>
          let origin = (if index then [(''Access-Control-Allow-Origin'', ''*'')] else []);
              headers = (''Content-Type'', set_content_type_from_file path) # origin
          in case fs path of
               None \<Rightarrow> Some (Reply ''302 Found'' (headers @ [(''Location'', ''/'')]) [], fs)
             | Some content \<Rightarrow>
                 let hash_path = path @ FILE_HASH_SUFFIX;
                     (r, etag) = file_check_etag_hash rq fs hash_path
                 in if r = ETAG_MATCH then Some (Reply ''304 Not Modified'' headers [], fs)
                    else let tag = (if etag \<noteq> [] then [(''ETag'', etag)] else []); headers = headers @ tag
                         in if \<not> open_ok then Some (Reply ''500 Internal Server Error'' (origin @ tag) ''Could not read file'', fs)
                    else let (sent, crc, done) = send_file crc32_le ok 0 content [] 0
                         in if \<not> done then Some (Broken (bytes_text sent), fs)
                            else Some (Reply ''200 OK'' headers (bytes_text sent),
                                   (if wr_ok then fs(hash_path \<mapsto> crc_le_bytes crc) else fs)))"

section \<open>The status page\<close>

text \<open>Dotted text of an address in network order.\<close>

definition ip_text :: "u32 \<Rightarrow> string" where
  "ip_text ip = dec (unat (ip_byte ip 0)) @ ''.'' @ dec (unat (ip_byte ip 1)) @ ''.'' @ dec (unat (ip_byte ip 2)) @ ''.'' @
     dec (unat (ip_byte ip 3))"

record ap_status =
  as_active :: bool
  as_ssid :: string
  as_authmode :: nat
  as_devices :: nat
  as_ip4 :: u32
  as_ip6 :: string

record sta_status =
  ss_active :: bool
  ss_connected :: bool
  ss_ssid :: string
  ss_authmode :: nat
  ss_rssi :: int
  ss_ip4 :: u32
  ss_ip6 :: string

definition wifi_ap_status :: "wifi \<Rightarrow> nat \<Rightarrow> string \<Rightarrow> ap_status" where
  "wifi_ap_status w devices ip6 = \<lparr>as_active = ap_active w, as_ssid = ap_ssid (w_config_ap w),
     as_authmode = unat (ap_authmode (w_config_ap w)), as_devices = devices,
     as_ip4 = (case esp_netif_ap w of Some i \<Rightarrow> ip_addr i | None \<Rightarrow> 0), as_ip6 = ip6\<rparr>"

text \<open>Name, authentication and signal of the network joined come from the last status of the driver.\<close>

definition wifi_sta_status :: "wifi \<Rightarrow> string \<times> nat \<times> int \<Rightarrow> u32 \<Rightarrow> string \<Rightarrow> sta_status" where
  "wifi_sta_status w info addr ip6 = \<lparr>ss_active = sta_active w, ss_connected = sta_connected w,
     ss_ssid = (if sta_connected w then fst info else sta_ssid (w_config_sta w)), ss_authmode = fst (snd info),
     ss_rssi = snd (snd info), ss_ip4 = addr, ss_ip6 = ip6\<rparr>"

definition ap_json :: "ap_status \<Rightarrow> json" where
  "ap_json a = J_Obj ((''active'', J_Bool (as_active a)) # (if as_active a then
     [(''ssid'', J_Str (as_ssid a)), (''authmode'', J_Str (wifi_auth_mode_name (as_authmode a))),
      (''devices'', J_Num (int (as_devices a))), (''ip4'', J_Str (ip_text (as_ip4 a))), (''ip6'', J_Str (as_ip6 a))] else []))"

definition sta_json :: "sta_status \<Rightarrow> json" where
  "sta_json a = J_Obj ((''active'', J_Bool (ss_active a)) # (if ss_active a then
     (''connected'', J_Bool (ss_connected a)) # (if ss_connected a then
       [(''ssid'', J_Str (ss_ssid a)), (''authmode'', J_Str (wifi_auth_mode_name (ss_authmode a))),
        (''rssi'', J_Num (ss_rssi a)), (''ip4'', J_Str (ip_text (ss_ip4 a))), (''ip6'', J_Str (ss_ip6 a))] else []) else []))"

text \<open>Each stream with its totals and rates; \<open>name\<close> is the text of a name.\<close>

definition stream_json :: "(nat \<Rightarrow> string) \<Rightarrow> stream_stats \<Rightarrow> string \<times> json" where
  "stream_json name st =
     (let (n, ti, to', ri, ro) = stream_stats_values st
      in (name n, J_Obj [(''total'', J_Obj [(''in'', J_Num (uint ti)), (''out'', J_Num (uint to'))]),
            (''rate'', J_Obj [(''in'', J_Num (uint ri)), (''out'', J_Num (uint ro))])]))"

text \<open>A socket: its type, and its two ends where they are known.\<close>

definition socket_json :: "string \<times> string option \<times> string option \<Rightarrow> json" where
  "socket_json so = J_Obj ((''type'', J_Str (fst so)) # (case fst (snd so) of Some a \<Rightarrow> [(''local'', J_Str a)] | None \<Rightarrow> []) @
     (case snd (snd so) of Some a \<Rightarrow> [(''peer'', J_Str a)] | None \<Rightarrow> []))"

text \<open>The side a request came in on: the local end of its socket names the address of the access point.\<close>

definition via :: "ap_status \<Rightarrow> string option \<Rightarrow> string" where
  "via a local = (case local of
     Some l \<Rightarrow> if as_active a \<and> strstr_by (\<lambda>c. c) l (ip_text (as_ip4 a)) \<noteq> None then ''ap'' else ''sta''
   | None \<Rightarrow> ''sta'')"

definition status_page :: "web \<Rightarrow> int \<Rightarrow> int \<times> int \<Rightarrow> (nat \<Rightarrow> string) \<Rightarrow> stream_stats list \<Rightarrow>
    (string \<times> string option \<times> string option) list \<Rightarrow> ap_status \<Rightarrow> sta_status \<Rightarrow> string option \<Rightarrow> json" where
  "status_page w uptime heap name streams sockets a st local = J_Obj [
     (''firmwareupdate'', J_Bool (isFirmwareUpdating w)),
     (''firmwareupdateprogress'', J_Num (firmwareUpdateProgress w)),
     (''firmwareupdatecompleted'', J_Bool (isFirmwareUpdatingCompleted w)),
     (''uptime'', J_Num uptime),
     (''heap'', J_Obj [(''total'', J_Num (fst heap)), (''free'', J_Num (snd heap))]),
     (''streams'', J_Obj (map (stream_json name) streams)),
     (''sockets'', J_Arr (map socket_json sockets)),
     (''wifi'', J_Obj [(''ap'', ap_json a), (''sta'', sta_json st)]),
     (''via'', J_Str (via a local))]"

section \<open>Scan and sender statistics\<close>

definition wifi_scan_page :: "(string \<times> int \<times> nat) list option \<Rightarrow> json option" where
  "wifi_scan_page records = map_option (\<lambda>l. J_Arr (map (\<lambda>(ssid, rssi, auth).
     J_Obj [(''ssid'', J_Str ssid), (''rssi'', J_Num rssi), (''authmode'', J_Str (wifi_auth_mode_name auth))]) l)) records"

definition ingest_json :: "u32 \<Rightarrow> u32 \<Rightarrow> u32 \<Rightarrow> u32 \<Rightarrow> server \<Rightarrow> json" where
  "ingest_json now later drops errors s =
     (let i = ntrip_server_ingest_stats s; f = ntrip_server_msg_freshness now later s
      in J_Obj [(''frames_ok'', J_Num (uint (in_frames_ok i))), (''bytes_ok'', J_Num (uint (in_bytes_ok i))),
           (''bytes_discarded'', J_Num (uint (in_bytes_discarded i))), (''crc_errors'', J_Num (uint (in_crc_errors i))),
           (''ring_pushed_frames'', J_Num (uint (in_ring_pushed_frames i))),
           (''ring_cum_bytes'', J_Num (uint (in_ring_cum_bytes i))),
           (''uart_event_post_drops'', J_Num (uint drops)), (''uart_read_errors'', J_Num (uint errors)),
           (''required_age_ms'', J_Obj (map (\<lambda>(t, a). (dec t, if a = - 1 then J_Null else J_Num (uint a)))
              (zip (mf_type f) (mf_age_ms f)))),
           (''required_all_fresh'', J_Bool (mf_all_fresh f))])"

definition tx_json :: "ntrip_tx_stats \<Rightarrow> json" where
  "tx_json st =
     (let t = st_tx st; n = (\<lambda>k w. (k, J_Num w))
      in J_Obj [n ''index'' (st_index st), (''connected'', J_Bool (st_connected st)),
           n ''accepted_to_lwip'' (uint (t_accepted_to_lwip t)), n ''sent_frames'' (uint (t_sent_frames t)),
           n ''copied_bytes'' (uint (t_copied_bytes t)), n ''dropped_bytes'' (uint (t_dropped_bytes t)),
           n ''skipped_bytes'' (uint (t_skipped_bytes t)), n ''skipped_frames'' (uint (t_skipped_frames t)),
           n ''dropped_frames_stale'' (uint (t_dropped_frames_stale t)),
           n ''dropped_stale_bytes'' (uint (t_dropped_stale_bytes t)), n ''eagain_count'' (uint (t_eagain_count t)),
           n ''reconnects'' (uint (t_reconnects t)), n ''pending'' (uint (st_pending st)),
           n ''max_queue_age_ms'' (uint (t_max_queue_age_ms t)), n ''last_sock_errno'' (t_last_sock_errno t)])"

definition ntrip_tx_stats_page :: "u32 \<Rightarrow> u32 \<Rightarrow> u32 \<Rightarrow> u32 \<Rightarrow> server \<Rightarrow> json" where
  "ntrip_tx_stats_page now later drops errors s =
     J_Obj [(''ingest'', ingest_json now later drops errors s),
            (''instances'', J_Arr (map tx_json (ntrip_server_tx_stats MAX_NTRIP_SERVERS s)))]"

section \<open>Posted settings\<close>

text \<open>What one read of the body brings.\<close>

datatype recv_result = Recv_Timeout | Recv_Error | Recv_Data string

record 's site =
  si_web :: web
  si_nvs :: 's
  si_files :: files
  si_restart :: bool

record lib =
  lib_match :: "string \<Rightarrow> string \<Rightarrow> bool"
  lib_print :: "json \<Rightarrow> string option"
  lib_parse :: "string \<Rightarrow> json option"
  lib_crc :: "u32 \<Rightarrow> u8 list \<Rightarrow> u32"
  lib_none :: "request \<Rightarrow> http_reply"

text \<open>The read fills at most the buffer less one; the text ends at its first zero.\<close>

definition config_post :: "lib \<Rightarrow> 's nvs \<Rightarrow> recv_result \<Rightarrow> 's site \<Rightarrow> http_reply \<times> 's site" where
  "config_post lb nvs rcv st =
     (case rcv of
        Recv_Timeout \<Rightarrow> (Reply ''408 Request Timeout'' [] [], st)
      | Recv_Error \<Rightarrow> (No_Reply, st)
      | Recv_Data d \<Rightarrow>
          if d = [] then (No_Reply, st)
          else case lib_parse lb (takeWhile (\<lambda>c. c \<noteq> CHR 0x00) (take (BUFFER_SIZE - 1) d)) of
                 None \<Rightarrow> (No_Reply, st)
               | Some root' \<Rightarrow>
                   let s = snd (config_commit nvs (apply_config nvs root' (si_nvs st)))
                   in (json_response (lib_print lb) (J_Obj [(''success'', J_Bool True)]), st\<lparr>si_nvs := s, si_restart := True\<rparr>))"

section \<open>The table of handlers\<close>

datatype web_handler = config_get_handler | config_post_handler | status_get_handler | log_get_handler
  | core_dump_get_handler | heap_info_get_handler | wifi_scan_get_handler | rtk_status_get_handler
  | ntrip_tx_stats_get_handler | file_get_handler

definition web_routes :: "(string \<times> http_method \<times> web_handler) list" where
  "web_routes = [(''/config'', GET, config_get_handler), (''/config'', POST, config_post_handler),
     (''/status'', GET, status_get_handler), (''/log'', GET, log_get_handler), (''/core_dump'', GET, core_dump_get_handler),
     (''/heap_info'', GET, heap_info_get_handler), (''/wifi/scan'', GET, wifi_scan_get_handler),
     (''/rtk/status'', GET, rtk_status_get_handler), (''/ntrip/tx_stats'', GET, ntrip_tx_stats_get_handler),
     (''/*'', GET, file_get_handler)]"

text \<open>What the handlers read of the rest of the system while they answer.\<close>

record inputs =
  in_junk :: string
  in_recv :: recv_result
  in_fw :: string
  in_log :: "string option"
  in_disposition :: string
  in_dump :: "nat \<Rightarrow> nat \<Rightarrow> string"
  in_dump_size :: nat
  in_heap_info :: heap_info
  in_uptime :: int
  in_heap :: "int \<times> int"
  in_name :: "nat \<Rightarrow> string"
  in_streams :: "stream_stats list"
  in_sockets :: "(string \<times> string option \<times> string option) list"
  in_ap :: ap_status
  in_sta :: sta_status
  in_local :: "string option"
  in_scan :: "(string \<times> int \<times> nat) list option"
  in_rtk :: json
  in_server :: server
  in_now :: u32
  in_later :: u32
  in_drops :: u32
  in_errors :: u32
  in_open_ok :: bool
  in_write_ok :: bool
  in_send_ok :: "nat \<Rightarrow> bool"

text \<open>The check with which a handler begins, and its work when the request passes.\<close>

definition guarded :: "string \<Rightarrow> request \<Rightarrow> 's site \<Rightarrow> (http_reply \<times> 's site) option \<Rightarrow> (http_reply \<times> 's site) option" where
  "guarded junk rq st work = (case check_auth junk (si_web st) rq of Some r \<Rightarrow> Some (r, st) | None \<Rightarrow> work)"

text \<open>The handlers, each with its own check where the code has one; \<open>None\<close> is the overflow of the path's buffer.\<close>

definition run_handler :: "lib \<Rightarrow> 's nvs \<Rightarrow> inputs \<Rightarrow> web_handler \<Rightarrow> request \<Rightarrow> 's site \<Rightarrow> (http_reply \<times> 's site) option" where
  "run_handler lb nvs i h rq st =
     (let js = (\<lambda>j. Some (json_response (lib_print lb) j, st));
          check_auth_or = guarded (in_junk i) rq st
      in case h of
           config_get_handler \<Rightarrow> check_auth_or (js (config_json (in_fw i) nvs (si_nvs st)))
         | config_post_handler \<Rightarrow> check_auth_or (Some (config_post lb nvs (in_recv i) st))
         | status_get_handler \<Rightarrow> check_auth_or (js (status_page (si_web st) (in_uptime i) (in_heap i) (in_name i) (in_streams i)
               (in_sockets i) (in_ap i) (in_sta i) (in_local i)))
         | log_get_handler \<Rightarrow> check_auth_or (Some (log_page (in_log i), st))
         | core_dump_get_handler \<Rightarrow> check_auth_or (Some (core_dump_page (in_disposition i) (in_dump i) (in_dump_size i), st))
         | heap_info_get_handler \<Rightarrow> check_auth_or (js (heap_info_page (in_heap_info i)))
         | wifi_scan_get_handler \<Rightarrow>
             check_auth_or (case wifi_scan_page (in_scan i) of None \<Rightarrow> Some (No_Reply, st) | Some j \<Rightarrow> js j)
         | rtk_status_get_handler \<Rightarrow> js (in_rtk i)
         | ntrip_tx_stats_get_handler \<Rightarrow>
             check_auth_or (js (ntrip_tx_stats_page (in_now i) (in_later i) (in_drops i) (in_errors i) (in_server i)))
         | file_get_handler \<Rightarrow> check_auth_or (map_option (\<lambda>(r, fs). (r, st\<lparr>si_files := fs\<rparr>))
             (file_page (lib_crc lb) (in_send_ok i) (in_open_ok i) (in_write_ok i) rq (si_files st))))"

definition route_of :: "lib \<Rightarrow> request \<Rightarrow> web_handler option" where
  "route_of lb rq = map_option (\<lambda>(path, m, h). h) (find (\<lambda>(path, m, h). lib_match lb path (rq_uri rq) \<and> m = rq_method rq) web_routes)"

definition serve :: "lib \<Rightarrow> 's nvs \<Rightarrow> inputs \<Rightarrow> request \<Rightarrow> 's site \<Rightarrow> (http_reply \<times> 's site) option" where
  "serve lb nvs i rq st =
     (case route_of lb rq of None \<Rightarrow> Some (lib_none lb rq, st) | Some h \<Rightarrow> run_handler lb nvs i h rq st)"

text \<open>A history of requests, each with what the rest of the system is at that time.\<close>

fun serve_all :: "lib \<Rightarrow> 's nvs \<Rightarrow> (inputs \<times> request) list \<Rightarrow> 's site \<Rightarrow> (http_reply list \<times> 's site) option" where
  "serve_all lb nvs [] st = Some ([], st)"
| "serve_all lb nvs ((i, rq) # rqs) st =
     Option.bind (serve lb nvs i rq st) (\<lambda>(r, st). map_option (\<lambda>(rs, st). (r # rs, st)) (serve_all lb nvs rqs st))"

section \<open>Starting\<close>

text \<open>\<open>esp_vfs_spiffs_register\<close> and \<open>esp_spiffs_info\<close> are the two arguments.\<close>

definition www_spiffs_init :: "esp_err \<Rightarrow> esp_err \<Rightarrow> esp_err" where
  "www_spiffs_init reg info = (if reg \<noteq> ESP_OK then ESP_FAIL else if info \<noteq> ESP_OK then ESP_FAIL else ESP_OK)"

text \<open>The setting fills the low byte of the variable; a number the code does not know lets every request pass.\<close>

definition auth_of :: "u8 \<Rightarrow> auth_method" where
  "auth_of b = (if b = 1 then AUTH_METHOD_HOTSPOT else if b = 2 then AUTH_METHOD_BASIC else AUTH_METHOD_OPEN)"

definition web_server_start :: "(string \<Rightarrow> string) \<Rightarrow> 's nvs \<Rightarrow> 's \<Rightarrow> bool \<Rightarrow> bool \<Rightarrow> web \<Rightarrow> bool \<times> web" where
  "web_server_start b64 nvs s started buffer_ok w =
     (let w = w\<lparr>auth_method := auth_of (ucast (prim nvs s (CONF_ITEM ''adm_auth'')))\<rparr>;
          w = (if auth_method w = AUTH_METHOD_BASIC
               then w\<lparr>basic_authentication := http_auth_basic_header b64 (str_text nvs s (CONF_ITEM ''adm_user''))
                        (str_text nvs s (CONF_ITEM ''adm_pass''))\<rparr>
               else w);
          w = (if started then w\<lparr>countWebHandler := countWebHandler w + length web_routes\<rparr> else w)
      in (started \<and> buffer_ok, w))"

definition check_count_webhandler :: "web \<Rightarrow> bool" where
  "check_count_webhandler w \<longleftrightarrow> countWebHandler w \<le> maxWebHandlerCount"

definition web_server_init :: "(string \<Rightarrow> string) \<Rightarrow> 's nvs \<Rightarrow> 's \<Rightarrow> esp_err \<times> esp_err \<Rightarrow> bool \<Rightarrow> bool \<Rightarrow> web \<Rightarrow> esp_err \<times> web" where
  "web_server_init b64 nvs s spiffs started buffer_ok w =
     (www_spiffs_init (fst spiffs) (snd spiffs), snd (web_server_start b64 nvs s started buffer_ok w))"

definition web_zero :: web where
  "web_zero = \<lparr>basic_authentication = [], auth_method = AUTH_METHOD_OPEN, isFirmwareUpdating = False,
     isFirmwareUpdatingCompleted = False, firmwareUpdateProgress = 0, countWebHandler = 0\<rparr>"

section \<open>No password, no page\<close>

text \<open>The server runs with the authentication it read from the settings \<open>s\<close> at its start.\<close>

definition started_with :: "(string \<Rightarrow> string) \<Rightarrow> 's nvs \<Rightarrow> 's \<Rightarrow> web \<Rightarrow> bool" where
  "started_with b64 nvs s w \<longleftrightarrow> (\<exists>started buffer_ok w0. let w' = snd (web_server_start b64 nvs s started buffer_ok w0) in
     auth_method w = auth_method w' \<and> basic_authentication w = basic_authentication w')"

definition auth_setting :: "'s nvs \<Rightarrow> 's \<Rightarrow> auth_method" where
  "auth_setting nvs s = auth_of (ucast (prim nvs s (CONF_ITEM ''adm_auth'')))"

definition password_header :: "(string \<Rightarrow> string) \<Rightarrow> 's nvs \<Rightarrow> 's \<Rightarrow> string" where
  "password_header b64 nvs s =
     http_auth_basic_header b64 (str_text nvs s (CONF_ITEM ''adm_user'')) (str_text nvs s (CONF_ITEM ''adm_pass''))"

text \<open>The request has an authorization header that is not the one of the settings \<open>s\<close>, whatever the case of its letters.\<close>

definition wrong_password :: "(string \<Rightarrow> string) \<Rightarrow> 's nvs \<Rightarrow> 's \<Rightarrow> request \<Rightarrow> bool" where
  "wrong_password b64 nvs s rq \<longleftrightarrow>
     (\<exists>a. rq_header rq ''Authorization'' = Some a \<and> map lower a \<noteq> map lower (password_header b64 nvs s))"

lemma started_auth:
  assumes "started_with b64 nvs s w"
  shows "auth_method w = auth_setting nvs s"
    and "auth_setting nvs s = AUTH_METHOD_BASIC \<Longrightarrow> basic_authentication w = password_header b64 nvs s"
  using assms by (auto simp: started_with_def auth_setting_def password_header_def web_server_start_def Let_def)

definition refusal :: "auth_method \<Rightarrow> http_reply" where
  "refusal a = (if a = AUTH_METHOD_HOTSPOT
     then unauthorized ''401 Unauthorized - Configured to only accept connections from hotspot devices'' []
     else unauthorized ''401 Unauthorized - Incorrect or no password provided''
            [(''WWW-Authenticate'', ''Basic realm=\"RTKdata Station Config\"'')])"

lemma refused:
  assumes "started_with b64 nvs s w"
    and "auth_setting nvs s = AUTH_METHOD_HOTSPOT \<or> auth_setting nvs s = AUTH_METHOD_BASIC \<and> wrong_password b64 nvs s rq"
  shows "check_auth junk w rq = Some (refusal (auth_setting nvs s))"
  using assms(2) started_auth [OF assms(1)]
  by (auto simp: check_auth_def hotspot_auth_def basic_auth_def refusal_def wrong_password_def Let_def)

text \<open>What a request without the password gets, whatever the site holds: the public page, or the refusal.\<close>

definition public_reply :: "lib \<Rightarrow> auth_method \<Rightarrow> json \<Rightarrow> request \<Rightarrow> http_reply" where
  "public_reply lb a rtk rq =
     (case route_of lb rq of None \<Rightarrow> lib_none lb rq
      | Some h \<Rightarrow> if h = rtk_status_get_handler then json_response (lib_print lb) rtk else refusal a)"

lemma serve_refused:
  assumes "started_with b64 nvs s (si_web st)"
    and "auth_setting nvs s = AUTH_METHOD_HOTSPOT \<or> auth_setting nvs s = AUTH_METHOD_BASIC \<and> wrong_password b64 nvs s rq"
  shows "serve lb nvs i rq st = Some (public_reply lb (auth_setting nvs s) (in_rtk i) rq, st)"
  using refused [OF assms]
  by (auto simp: serve_def public_reply_def run_handler_def guarded_def Let_def split: option.split web_handler.split)

text \<open>C17: Without the password nothing is learned and nothing is changed. Take two sites with any settings, files, log,
  core dump and statistics, whose servers were started with the same kind of authentication, hotspot only or by
  password, and a client that sends them the same requests, any number of them, none with a header that either site accepts:
  it gets the same replies from both, up to the content of the public page \<open>/rtk/status\<close> if that differs, and at the end both
  sites have the settings, files, server state and restart flag they began with. For the password the requests must have an
  authorization header, a wrong one: without one, the code compares a byte of the heap it did not
  initialise.\<close>

theorem wrong_password_learns_nothing:
  assumes "started_with b64 nvs s1 (si_web st1)" and "started_with b64 nvs s2 (si_web st2)"
    and "auth_setting nvs s1 = auth_setting nvs s2" and "auth_setting nvs s1 \<noteq> AUTH_METHOD_OPEN"
    and "list_all (\<lambda>(i, j, rq). in_rtk i = in_rtk j \<and> (auth_setting nvs s1 = AUTH_METHOD_BASIC \<longrightarrow>
      wrong_password b64 nvs s1 rq \<and> wrong_password b64 nvs s2 rq)) rqs"
  shows "\<exists>replies. serve_all lb nvs (map (\<lambda>(i, j, rq). (i, rq)) rqs) st1 = Some (replies, st1) \<and>
    serve_all lb nvs (map (\<lambda>(i, j, rq). (j, rq)) rqs) st2 = Some (replies, st2)"
  using assms(5)
proof (induction rqs)
  case (Cons x rqs)
  obtain i j rq where x: "x = (i, j, rq)" by (cases x) auto
  have a: "auth_setting nvs s1 = AUTH_METHOD_HOTSPOT \<or> auth_setting nvs s1 = AUTH_METHOD_BASIC"
    using assms(4) by (cases "auth_setting nvs s1") simp_all
  have "serve lb nvs i rq st1 = Some (public_reply lb (auth_setting nvs s1) (in_rtk i) rq, st1)"
    "serve lb nvs j rq st2 = Some (public_reply lb (auth_setting nvs s1) (in_rtk i) rq, st2)"
    using serve_refused [OF assms(1), of rq lb i] serve_refused [OF assms(2), of rq lb j] a assms(3) Cons.prems x by auto
  with Cons show ?case by (auto simp: x)
qed simp

definition eq_lib :: lib where
  "eq_lib = \<lparr>lib_match = (\<lambda>p u. p = u), lib_print = (\<lambda>j. None), lib_parse = (\<lambda>t. None), lib_crc = (\<lambda>c b. c),
     lib_none = (\<lambda>rq. No_Reply)\<rparr>"

text \<open>Two sites with different passwords, and a client that tries a third one on the settings page.\<close>

definition locked_store :: "string \<Rightarrow> string \<Rightarrow> nval option" where
  "locked_store pw = [''adm_auth'' \<mapsto> NI8 2, ''adm_user'' \<mapsto> NStr ''me'', ''adm_pass'' \<mapsto> NStr pw]"

definition locked_site :: "string \<Rightarrow> (string \<Rightarrow> nval option) site" where
  "locked_site pw = \<lparr>si_web = snd (web_server_start id map_nvs (locked_store pw) True True web_zero),
     si_nvs = locked_store pw, si_files = Map.empty, si_restart = False\<rparr>"

definition guess :: request where
  "guess = \<lparr>rq_method = POST, rq_uri = ''/config'', rq_header = [''Authorization'' \<mapsto> ''Basic me:no'']\<rparr>"

lemma conf_admin:
  "CONF_ITEM ''adm_auth'' = cfg_item ''adm_auth'' TYPE_INT8 False 0 []"
  "CONF_ITEM ''adm_user'' = cfg_item ''adm_user'' TYPE_STRING False 0 []"
  "CONF_ITEM ''adm_pass'' = cfg_item ''adm_pass'' TYPE_STRING True 0 []"
  by code_simp+

lemma locked_facts:
  "auth_setting map_nvs (locked_store pw) = AUTH_METHOD_BASIC"
  "password_header id map_nvs (locked_store pw) = ''Basic me:'' @ pw"
  "started_with id map_nvs (locked_store pw) (si_web (locked_site pw))"
  by (simp_all add: auth_setting_def auth_of_def prim_def conf_admin cfg_item_def config_get_primitive_def get_over_def map_nvs_def
      locked_store_def password_header_def http_auth_basic_header_def str_text_def config_get_str_blob_def)
    (auto simp: started_with_def locked_site_def Let_def locked_store_def map_nvs_def)

theorem wrong_password_learns_nothing_witness:
  "\<forall>i :: inputs. \<exists>rs. serve_all eq_lib map_nvs [(i, guess), (i, guess)] (locked_site ''yes'') = Some (rs, locked_site ''yes'') \<and>
     serve_all eq_lib map_nvs [(i, guess), (i, guess)] (locked_site ''other'') = Some (rs, locked_site ''other'')"
proof
  fix i :: inputs
  have w: "wrong_password id map_nvs (locked_store pw) guess" if "pw \<in> {''yes'', ''other''}" for pw
  proof -
    have "map lower ''Basic me:no'' \<noteq> map lower (''Basic me:'' @ pw)" using that by (elim insertE emptyE; simp; code_simp)
    then show ?thesis by (simp add: wrong_password_def locked_facts guess_def)
  qed
  show "\<exists>rs. serve_all eq_lib map_nvs [(i, guess), (i, guess)] (locked_site ''yes'') = Some (rs, locked_site ''yes'') \<and>
     serve_all eq_lib map_nvs [(i, guess), (i, guess)] (locked_site ''other'') = Some (rs, locked_site ''other'')"
    using wrong_password_learns_nothing [OF locked_facts(3) locked_facts(3), of "''yes''" "''other''" "[(i, i, guess), (i, i, guess)]" eq_lib]
      w locked_facts(1) by auto
qed

text \<open>A request without the header is decided by what the comparison finds on the heap.\<close>

theorem missing_header_compares_junk:
  assumes "started_with b64 nvs s w" "auth_setting nvs s = AUTH_METHOD_BASIC" "rq_header rq ''Authorization'' = None"
  shows "check_auth junk w rq = None \<longleftrightarrow> map lower junk = map lower (password_header b64 nvs s)"
  using assms started_auth [OF assms(1)] by (auto simp: check_auth_def basic_auth_def Let_def)

text \<open>The password that the server was started with opens it.\<close>

theorem web_password_accepted:
  assumes "started_with b64 nvs s w" and "auth_setting nvs s = AUTH_METHOD_BASIC"
    and "rq_header rq ''Authorization'' = Some (password_header b64 nvs s)"
  shows "check_auth junk w rq = None"
  using assms started_auth [OF assms(1)] by (simp add: check_auth_def basic_auth_def)

lemma ten_handlers: "length web_routes = 10" "countWebHandler w = 0 \<Longrightarrow> check_count_webhandler (snd (web_server_start b64 nvs s st ok w))"
  by (simp_all add: web_routes_def check_count_webhandler_def web_server_start_def Let_def)

section \<open>The core dump\<close>

lemma core_dump_chunks_split:
  assumes "\<And>k n. rd k n = take n (drop k content)"
  shows "concat (core_dump_chunks rd (length content) k) = drop k content \<and>
    (\<forall>c \<in> set (core_dump_chunks rd (length content) k). c \<noteq> [] \<and> length c \<le> BUFFER_SIZE)"
  using assms
proof (induction rd "length content" k rule: core_dump_chunks.induct)
  case (1 rd k)
  show ?case
  proof (cases "k < length content")
    case True
    have a: "take BUFFER_SIZE (drop k content) @ drop (k + BUFFER_SIZE) content = drop k content"
      by (metis append_take_drop_id drop_drop add.commute)
    have n: "take (if length content - k > BUFFER_SIZE then BUFFER_SIZE else length content - k) (drop k content)
        = take BUFFER_SIZE (drop k content)" by auto
    show ?thesis using True 1 a by (subst (1 2) core_dump_chunks.simps) (auto simp: Let_def n)
  qed (simp add: core_dump_chunks.simps)
qed

text \<open>The download of the core dump is the whole dump, byte for byte: the body is the dump's content whatever
  its size, it is read in pieces that fit the buffer, and no piece is empty (an empty one would end the reply).\<close>

theorem core_dump_whole:
  assumes "\<And>k n. rd k n = take n (drop k content)" and "content \<noteq> []"
  shows "(\<exists>hs. core_dump_page disp rd (length content) = Reply ''200 OK'' hs content) \<and>
    (\<forall>c \<in> set (core_dump_chunks rd (length content) 0). c \<noteq> [] \<and> length c \<le> BUFFER_SIZE)"
  using core_dump_chunks_split [of rd content 0] assms by (simp add: core_dump_page_def)

theorem core_dump_whole_witness:
  "\<exists>hs. core_dump_page ''x'' (\<lambda>k n. take n (drop k ''dump'')) (length ''dump'') = Reply ''200 OK'' hs ''dump''"
  using core_dump_whole [of "\<lambda>k n. take n (drop k ''dump'')" "''dump''" "''x''"] by blast

section \<open>Paths\<close>

lemma get_path_fits: "get_path_from_uri base uri n = Some p \<Longrightarrow> length p + 1 \<le> n"
  by (auto simp: get_path_from_uri_def Let_def split: if_splits)

text \<open>The path a request names never outgrows its buffers where the handler goes on: path and terminator fit the 43 bytes
  of the path's buffer, and the path of its checksum file the 47 of the other; the path starts with the mount point.\<close>

theorem file_path_bounded:
  assumes "file_path_of uri = Some (Some (path, index))"
  shows "length path + 1 \<le> FILE_PATH_MAX - length FILE_HASH_SUFFIX \<and> length (path @ FILE_HASH_SUFFIX) + 1 \<le> FILE_PATH_MAX \<and>
    take (length WWW_PARTITION_PATH) path = WWW_PARTITION_PATH"
proof -
  have b: "get_path_from_uri WWW_PARTITION_PATH uri 43 = Some p \<Longrightarrow> length p \<le> 42 \<and> (\<exists>r. p = WWW_PARTITION_PATH @ r)" for p
    using get_path_fits [of WWW_PARTITION_PATH uri 43 p] by (auto simp: get_path_from_uri_def Let_def split: if_splits)
  show ?thesis using assms by (auto simp: file_path_of_def Let_def dest: b split: option.splits if_splits)
qed

theorem file_path_bounded_witness:
  "length ''/www/index.html'' + 1 \<le> FILE_PATH_MAX - length FILE_HASH_SUFFIX"
proof -
  have "file_path_of ''/'' = Some (Some (''/www/index.html'', True))" by code_simp
  from file_path_bounded [OF this] show ?thesis by blast
qed

text \<open>A directory of 29 to 36 characters: the index page's name is written past the path's buffer.\<close>

theorem file_path_overflow:
  assumes "CHR ''?'' \<notin> set uri" "CHR ''#'' \<notin> set uri" "uri \<noteq> []"
  shows "file_path_of uri = None \<longleftrightarrow> last uri = CHR ''/'' \<and> 29 \<le> length uri \<and> length uri \<le> 36"
proof -
  have t: "takeWhile (\<lambda>c. c \<noteq> CHR ''?'') uri = uri" "takeWhile (\<lambda>c. c \<noteq> CHR ''#'') uri = uri"
    using assms by (auto simp: takeWhile_eq_all_conv)
  show ?thesis using assms(3) by (auto simp: file_path_of_def get_path_from_uri_def t Let_def)
qed

section \<open>Files and their checksums\<close>

lemma send_file_all:
  assumes law: "\<And>c a b. crc32_le c (a @ b) = crc32_le (crc32_le c a) b" and ok: "\<And>k. ok k"
  shows "send_file crc32_le ok k rest sent crc = (sent @ rest, crc32_le crc rest, True)"
proof (induction "length rest" arbitrary: k rest sent crc rule: less_induct)
  case less
  show ?case
  proof (cases "rest = []")
    case True
    then show ?thesis by (subst send_file.simps) (simp add: ok)
  next
    case False
    have c: "crc32_le (crc32_le crc (take BUFFER_SIZE rest)) (drop BUFFER_SIZE rest) = crc32_le crc rest"
      by (simp only: law [symmetric] append_take_drop_id)
    have "send_file crc32_le ok (k + 1) (drop BUFFER_SIZE rest) (sent @ take BUFFER_SIZE rest) (crc32_le crc (take BUFFER_SIZE rest))
        = (sent @ rest, crc32_le crc rest, True)"
      using False by (subst less) (simp_all add: c)
    with False show ?thesis by (subst send_file.simps) (simp add: ok Let_def)
  qed
qed

lemma ip_word_bytes: "ip_word [ip_byte c 0, ip_byte c 1, ip_byte c 2, ip_byte c 3] = c"
proof (rule bit_word_eqI)
  fix n assume n: "n < LENGTH(32)"
  consider "n < 8" | "8 \<le> n" "n < 16" | "16 \<le> n" "n < 24" | "24 \<le> n" by linarith
  then show "bit (ip_word [ip_byte c 0, ip_byte c 1, ip_byte c 2, ip_byte c 3]) n = bit c n"
    using n by cases (auto simp: ip_word_def ip_byte_def bit_simps)
qed

lemma ip_word_crc: "ip_word (crc_le_bytes c) = c" "length (crc_le_bytes c) = 4"
proof -
  have "crc_le_bytes c = [ip_byte c 0, ip_byte c 1, ip_byte c 2, ip_byte c 3]"
    by (simp add: crc_le_bytes_def upt_rec numeral_2_eq_2 numeral_3_eq_3)
  then show "ip_word (crc_le_bytes c) = c" "length (crc_le_bytes c) = 4"
    by (simp_all only: ip_word_bytes) simp
qed

text \<open>A file is served whole, and once: a first request for a file without a stored checksum answers 200 with
  exactly the file's bytes and stores their checksum, and a later request that gives this checksum as its tag is answered
  304 without a body and changes no file. The checksum of the pieces is the checksum of the file, which is the law
  assumed of the ROM's checksum.\<close>

theorem web_file_cached:
  assumes "\<And>c a b. crc32_le c (a @ b) = crc32_le (crc32_le c a) b" "\<And>k. ok k"
    and "file_path_of (rq_uri rq) = Some (Some (path, index))" "fs path = Some content" "fs (path @ FILE_HASH_SUFFIX) = None"
    and "rq_uri rq' = rq_uri rq" "rq_header rq' ''If-None-Match'' = Some (''\"'' @ hex_u32 (crc32_le 0 content) @ ''\"'')"
  shows "\<exists>hs hs' fs'. file_page crc32_le ok True True rq fs = Some (Reply ''200 OK'' hs (bytes_text content), fs') \<and>
    fs' = fs(path @ FILE_HASH_SUFFIX \<mapsto> crc_le_bytes (crc32_le 0 content)) \<and>
    file_page crc32_le ok True True rq' fs' = Some (Reply ''304 Not Modified'' hs' [], fs')"
proof -
  let ?fs = "fs(path @ FILE_HASH_SUFFIX \<mapsto> crc_le_bytes (crc32_le 0 content))"
  note s = send_file_all [of crc32_le ok, OF assms(1,2)]
  have a: "\<exists>hs. file_page crc32_le ok True True rq fs = Some (Reply ''200 OK'' hs (bytes_text content), ?fs)"
    using assms(3-5) by (simp add: file_page_def Let_def file_check_etag_hash_def s)
  have "?fs path = Some content" "?fs (path @ FILE_HASH_SUFFIX) = Some (crc_le_bytes (crc32_le 0 content))"
    using assms(4) by simp_all
  then have b: "\<exists>hs. file_page crc32_le ok True True rq' ?fs = Some (Reply ''304 Not Modified'' hs [], ?fs)"
    using assms(3,6,7) by (simp add: file_page_def Let_def file_check_etag_hash_def ip_word_crc)
  from a b show ?thesis by blast
qed

definition sum_crc :: "u32 \<Rightarrow> u8 list \<Rightarrow> u32" where
  "sum_crc c bs = foldl (\<lambda>c b. 3 * c + ucast b) c bs"

theorem web_file_cached_witness:
  "\<exists>hs fs'. file_page sum_crc (\<lambda>k. True) True True \<lparr>rq_method = GET, rq_uri = ''/a.js'', rq_header = Map.empty\<rparr>
     [''/www/a.js'' \<mapsto> [65, 66]] = Some (Reply ''200 OK'' hs ''AB'', fs')"
proof -
  let ?r = "\<lambda>h. \<lparr>rq_method = GET, rq_uri = ''/a.js'', rq_header = h\<rparr>"
  have p: "file_path_of ''/a.js'' = Some (Some (''/www/a.js'', False))" by code_simp
  have t: "bytes_text [65, 66] = ''AB''" by code_simp
  from web_file_cached [of sum_crc "\<lambda>k. True" "?r Map.empty" "''/www/a.js''" False "[''/www/a.js'' \<mapsto> [65, 66]]" "[65, 66]"
      "?r [''If-None-Match'' \<mapsto> ''\"'' @ hex_u32 (sum_crc 0 [65, 66]) @ ''\"'']"]
  show ?thesis using p t by (auto simp: sum_crc_def)
qed

end
