(* ===== verification/Socket_Server.thy ===== *)
theory Socket_Server
  imports Nmea_Util Text_Format
begin

text \<open>
  The socket server (\<open>src/main/interface/socket_server.c\<close>): every byte of the receiver goes to all connected
  clients, and what clients send goes to the receiver.

  The results of the socket calls are arguments. The state holds the list of descriptors the task has open in the
  network stack; a call that opens one carries a function from that list, which a caller's hypothesis makes fresh.
  \<open>None\<close> is undefined behaviour: a descriptor closed twice, or a negative one put into the set for \<open>select\<close>.
  Status lights, log and NMEA lines are left out, and allocations of list entries succeed.
\<close>

section \<open>State\<close>

datatype sock_addr = Inet u32 u16 | Inet6 "u8 list" u16 | Other_Family nat

datatype sock_type = SOCK_STREAM | SOCK_DGRAM

record socket_client =
  sc_socket :: int
  sc_addr :: sock_addr
  sc_type :: sock_type

record sockets =
  sock_tcp :: int
  sock_udp :: int
  client_list :: "socket_client list"
  open_fds :: "int list"
  uart_sent :: "u8 list"
  total_in :: u32
  total_out :: u32



definition k_close :: "int \<Rightarrow> sockets \<Rightarrow> sockets option" where
  "k_close fd st = (if fd \<in> set (open_fds st) then Some (st\<lparr>open_fds := remove1 fd (open_fds st)\<rparr>) else None)"

text \<open>\<open>destroy_socket\<close> on one of the descriptors: what it closes is closed in the stack.\<close>

definition destroy :: "int \<Rightarrow> sockets \<Rightarrow> sockets option" where
  "destroy fd st = (case snd (destroy_socket fd) of [] \<Rightarrow> Some st | c # _ \<Rightarrow> k_close c st)"

section \<open>Addresses as text\<close>

abbreviation INET_ADDRSTRLEN :: nat where "INET_ADDRSTRLEN \<equiv> 16"
abbreviation INET6_ADDRSTRLEN :: nat where "INET6_ADDRSTRLEN \<equiv> 46"

text \<open>The address in a version 6 address that only carries one of version 4: its last four bytes.\<close>

definition isipv4mappedipv6 :: "u8 list \<Rightarrow> bool" where
  "isipv4mappedipv6 x \<longleftrightarrow> take 12 x = replicate 10 0 @ [0xFF, 0xFF]"

definition mapped_word :: "u8 list \<Rightarrow> u32" where
  "mapped_word x = ucast (x ! 12) OR push_bit 8 (ucast (x ! 13)) OR push_bit 16 (ucast (x ! 14)) OR push_bit 24 (ucast (x ! 15))"

text \<open>\<open>ntop4\<close> and \<open>ntop6\<close> are the conversions of the network library.\<close>

definition sockaddrtostr :: "(u32 \<Rightarrow> string) \<Rightarrow> (u8 list \<Rightarrow> string) \<Rightarrow> sock_addr \<Rightarrow> string" where
  "sockaddrtostr ntop4 ntop6 a =
     (case a of
        Inet x p \<Rightarrow> ntop4 x @ '':'' @ dec (unat p)
      | Inet6 x p \<Rightarrow> (if isipv4mappedipv6 x then ntop4 (mapped_word x) else ''['' @ ntop6 x @ '']'') @ '':'' @ dec (unat p)
      | Other_Family n \<Rightarrow> ''UNKNOWN'')"

text \<open>The text and its terminator fit the static buffer.\<close>

theorem sockaddrtostr_fits:
  assumes "\<And>x. length (ntop4 x) < INET_ADDRSTRLEN" "\<And>x. length (ntop6 x) < INET6_ADDRSTRLEN"
  shows "length (sockaddrtostr ntop4 ntop6 a) + 1 \<le> INET6_ADDRSTRLEN + 2 + 6 + 1"
proof (cases a)
  case (Inet x p)
  have "length (dec (unat p)) \<le> 5" by (rule dec_length) (use unsigned_less [of p, where ?'a = nat] in simp_all)
  then show ?thesis using Inet assms(1) [of x] by (simp add: sockaddrtostr_def)
next
  case (Inet6 x p)
  have "length (dec (unat p)) \<le> 5" by (rule dec_length) (use unsigned_less [of p, where ?'a = nat] in simp_all)
  then show ?thesis using Inet6 assms(1) [of "mapped_word x"] assms(2) [of x] by (simp add: sockaddrtostr_def)
qed (simp add: sockaddrtostr_def)

section \<open>Clients\<close>



definition socket_client_remove :: "socket_client \<Rightarrow> sockets \<Rightarrow> sockets option" where
  "socket_client_remove c st =
     map_option (\<lambda>st. st\<lparr>client_list := remove1 c (client_list st)\<rparr>) (destroy (sc_socket c) st)"

text \<open>The data to each client of the list as it was; \<open>wr\<close> gives the result of the write to a descriptor.\<close>

fun write_clients :: "(int \<Rightarrow> int) \<Rightarrow> socket_client list \<Rightarrow> sockets \<Rightarrow> sockets option" where
  "write_clients wr [] st = Some st"
| "write_clients wr (c # cs) st =
     (let sent = wr (sc_socket c)
      in if sent < 0 then Option.bind (socket_client_remove c st) (write_clients wr cs)
         else write_clients wr cs (st\<lparr>total_out := total_out st + word_of_int sent\<rparr>))"

definition socket_server_uart_handler :: "(int \<Rightarrow> int) \<Rightarrow> sockets \<Rightarrow> sockets option" where
  "socket_server_uart_handler wr st = write_clients wr (client_list st) st"

section \<open>Opening\<close>









text \<open>Datagrams up to the first empty one; each is cut to the buffer.\<close>

definition take_in :: "u8 list \<Rightarrow> sockets \<Rightarrow> sockets" where
  "take_in d st = st\<lparr>uart_sent := uart_sent st @ d, total_in := total_in st + of_nat (length d)\<rparr>"


section \<open>Receiving\<close>

text \<open>The reads of a client until one brings nothing: the pieces, and whether it ended with an error.\<close>

fun socket_clients_receive :: "(int \<Rightarrow> bool) \<Rightarrow> (int \<Rightarrow> u8 list list \<times> bool) \<Rightarrow> socket_client list \<Rightarrow> sockets \<Rightarrow> sockets option" where
  "socket_clients_receive ready rx [] st = Some st"
| "socket_clients_receive ready rx (c # cs) st =
     (if \<not> ready (sc_socket c) then socket_clients_receive ready rx cs st
      else let (pieces, err) = rx (sc_socket c);
               st = fold take_in (takeWhile (\<lambda>d. d \<noteq> []) pieces) st
           in if err \<and> list_all (\<lambda>d. d \<noteq> []) pieces
              then Option.bind (socket_client_remove c st) (socket_clients_receive ready rx cs)
              else socket_clients_receive ready rx cs st)"

section \<open>The task\<close>






definition socket_server_init :: "bool \<Rightarrow> bool" where
  "socket_server_init active = active"

definition sockets_zero :: sockets where
  "sockets_zero = \<lparr>sock_tcp = 0, sock_udp = 0, client_list = [], open_fds = [], uart_sent = [], total_in = 0, total_out = 0\<rparr>"

section \<open>Ownership of descriptors\<close>


definition listeners :: "sockets \<Rightarrow> int list" where
  "listeners st = filter (\<lambda>fd. 0 \<le> fd) [sock_tcp st, sock_udp st]"

definition owned :: "sockets \<Rightarrow> int list" where
  "owned st = listeners st @ map sc_socket (client_list st)"

text \<open>The open descriptors are exactly the ones in the variables of the module, each once.\<close>

definition sv_inv :: "sockets \<Rightarrow> bool" where
  "sv_inv st \<longleftrightarrow> distinct (open_fds st) \<and> mset (open_fds st) = mset (owned st) \<and> (\<forall>c \<in> set (client_list st). 0 \<le> sc_socket c)"

lemma sv_invD:
  assumes "sv_inv st"
  shows "distinct (owned st)" "set (open_fds st) = set (owned st)" "distinct (client_list st)"
    "c \<in> set (client_list st) \<Longrightarrow> 0 \<le> sc_socket c"
proof -
  from assms have m: "mset (open_fds st) = mset (owned st)" and d: "distinct (open_fds st)" by (auto simp: sv_inv_def)
  show o: "distinct (owned st)" using m d mset_eq_imp_distinct_iff by blast
  show "set (open_fds st) = set (owned st)" using m mset_eq_setD by blast
  show "distinct (client_list st)" using o by (auto simp: owned_def distinct_map)
  show "c \<in> set (client_list st) \<Longrightarrow> 0 \<le> sc_socket c" using assms by (auto simp: sv_inv_def)
qed

lemma destroy_owned:
  assumes "0 \<le> fd" "fd \<in> set (open_fds st)"
  shows "destroy fd st = Some (st\<lparr>open_fds := remove1 fd (open_fds st)\<rparr>)"
  using assms by (simp add: destroy_def destroy_socket_def k_close_def)


lemma remove_client:
  assumes "sv_inv st" "c \<in> set (client_list st)"
  defines "st' \<equiv> st\<lparr>open_fds := remove1 (sc_socket c) (open_fds st), client_list := remove1 c (client_list st)\<rparr>"
  shows "socket_client_remove c st = Some st'" "sv_inv st'"
proof -
  note i = sv_invD [OF assms(1)]
  have o: "sc_socket c \<in> set (open_fds st)" using assms(2) i(2) by (auto simp: owned_def)
  show "socket_client_remove c st = Some st'"
    using destroy_owned [OF i(4) [OF assms(2)] o] by (simp add: socket_client_remove_def st'_def)
  have "mset (open_fds st) = mset (owned st)" using assms(1) by (simp add: sv_inv_def)
  moreover have "mset (map sc_socket (remove1 c (client_list st))) = mset (map sc_socket (client_list st)) - {#sc_socket c#}"
    using assms(2) by (simp add: image_mset_Diff)
  ultimately show "sv_inv st'" using assms(1,2)
    by (auto simp: sv_inv_def st'_def owned_def listeners_def notin_set_remove1 dest: in_set_remove1 set_remove1_subset [THEN subsetD])
qed

lemma inv_stats [simp]:
  "sv_inv (st\<lparr>total_out := n\<rparr>) = sv_inv st" "sv_inv (take_in d st) = sv_inv st"
  by (simp_all add: sv_inv_def owned_def listeners_def take_in_def)

lemma take_in_fields [simp]:
  "sock_tcp (take_in d st) = sock_tcp st" "sock_udp (take_in d st) = sock_udp st" "client_list (take_in d st) = client_list st"
  "open_fds (take_in d st) = open_fds st" "total_out (take_in d st) = total_out st" "uart_sent (take_in d st) = uart_sent st @ d"
  by (simp_all add: take_in_def)

lemma fold_take_in:
  "sv_inv (fold take_in ds st) = sv_inv st" "client_list (fold take_in ds st) = client_list st"
  "sock_tcp (fold take_in ds st) = sock_tcp st" "sock_udp (fold take_in ds st) = sock_udp st"
  "uart_sent (fold take_in ds st) = uart_sent st @ concat ds"
  by (induction ds arbitrary: st) simp_all

text \<open>Two states of the module with the same listening sockets.\<close>

definition same_listeners :: "sockets \<Rightarrow> sockets \<Rightarrow> bool" where
  "same_listeners st st' \<longleftrightarrow> sock_tcp st' = sock_tcp st \<and> sock_udp st' = sock_udp st"

lemma write_clients_effect:
  assumes "sv_inv st" "set cs \<subseteq> set (client_list st)" "distinct cs"
  shows "\<exists>st'. write_clients wr cs st = Some st' \<and> sv_inv st' \<and> same_listeners st st' \<and>
    client_list st' = filter (\<lambda>c. c \<in> set cs \<longrightarrow> 0 \<le> wr (sc_socket c)) (client_list st) \<and>
    total_out st' = total_out st + word_of_int (\<Sum>c\<leftarrow>cs. max 0 (wr (sc_socket c))) \<and> uart_sent st' = uart_sent st"
  using assms
proof (induction cs arbitrary: st)
  case Nil
  then show ?case by (simp add: same_listeners_def)
next
  case (Cons c cs)
  have d: "distinct (client_list st)" using sv_invD(3) Cons.prems(1) .
  show ?case
  proof (cases "wr (sc_socket c) < 0")
    case True
    let ?st = "st\<lparr>open_fds := remove1 (sc_socket c) (open_fds st), client_list := remove1 c (client_list st)\<rparr>"
    have c: "c \<in> set (client_list st)" using Cons.prems(2) by simp
    note r = remove_client [OF Cons.prems(1) c]
    have "set cs \<subseteq> set (client_list ?st)" "distinct cs" using Cons.prems(2,3) d by auto
    from Cons.IH [OF r(2) this] obtain st' where st': "write_clients wr cs ?st = Some st'" "sv_inv st'" "same_listeners ?st st'"
      "client_list st' = filter (\<lambda>x. x \<in> set cs \<longrightarrow> 0 \<le> wr (sc_socket x)) (remove1 c (client_list st))"
      "total_out st' = total_out st + word_of_int (\<Sum>x\<leftarrow>cs. max 0 (wr (sc_socket x)))" "uart_sent st' = uart_sent st" by auto
    have "client_list st' = filter (\<lambda>x. x \<in> set (c # cs) \<longrightarrow> 0 \<le> wr (sc_socket x)) (client_list st)"
      unfolding st'(4) distinct_remove1_removeAll [OF d] using True Cons.prems(3)
      by (induction "client_list st") (auto simp: removeAll_filter_not_eq intro!: filter_cong)
    with True r(1) st' show ?thesis by (auto simp: same_listeners_def max_def)
  next
    case False
    let ?st = "st\<lparr>total_out := total_out st + word_of_int (wr (sc_socket c))\<rparr>"
    have "sv_inv ?st" "set cs \<subseteq> set (client_list ?st)" "distinct cs" using Cons.prems by auto
    from Cons.IH [OF this] obtain st' where st': "write_clients wr cs ?st = Some st'" "sv_inv st'" "same_listeners ?st st'"
      "client_list st' = filter (\<lambda>x. x \<in> set cs \<longrightarrow> 0 \<le> wr (sc_socket x)) (client_list st)"
      "total_out st' = total_out ?st + word_of_int (\<Sum>x\<leftarrow>cs. max 0 (wr (sc_socket x)))" "uart_sent st' = uart_sent st" by auto
    have "client_list st' = filter (\<lambda>x. x \<in> set (c # cs) \<longrightarrow> 0 \<le> wr (sc_socket x)) (client_list st)"
      unfolding st'(4) using False by (auto intro!: filter_cong)
    with False st' show ?thesis by (auto simp: same_listeners_def max_def)
  qed
qed

text \<open>Every connected client gets the receiver's data. One event writes the data once to each client; the clients that took it
  stay, in order, the ones whose write failed are removed and their descriptors closed, the bytes taken are added
  to the statistics, and the descriptors that stay open are exactly those of the module's variables.\<close>

theorem socket_server_forwards:
  assumes "sv_inv st"
  shows "\<exists>st'. socket_server_uart_handler wr st = Some st' \<and> sv_inv st' \<and>
    client_list st' = filter (\<lambda>c. 0 \<le> wr (sc_socket c)) (client_list st) \<and>
    total_out st' = total_out st + word_of_int (\<Sum>c\<leftarrow>client_list st. max 0 (wr (sc_socket c)))"
proof -
  have "filter (\<lambda>c. c \<in> set (client_list st) \<longrightarrow> 0 \<le> wr (sc_socket c)) (client_list st) =
      filter (\<lambda>c. 0 \<le> wr (sc_socket c)) (client_list st)" by (rule filter_cong) auto
  then show ?thesis using write_clients_effect [OF assms subset_refl sv_invD(3) [OF assms], of wr]
    by (auto simp: socket_server_uart_handler_def)
qed

theorem socket_server_forwards_witness:
  "\<exists>st'. socket_server_uart_handler (\<lambda>fd. if fd = 5 then - 1 else 100)
      (sockets_zero\<lparr>sock_tcp := 3, sock_udp := 4, open_fds := [6, 5, 4, 3],
         client_list := [\<lparr>sc_socket = 6, sc_addr = Inet 1 2, sc_type = SOCK_STREAM\<rparr>, \<lparr>sc_socket = 5, sc_addr = Inet 3 4, sc_type = SOCK_DGRAM\<rparr>]\<rparr>)
      = Some st' \<and> map sc_socket (client_list st') = [6]"
proof -
  let ?st = "sockets_zero\<lparr>sock_tcp := 3, sock_udp := 4, open_fds := [6, 5, 4, 3],
     client_list := [\<lparr>sc_socket = 6, sc_addr = Inet 1 2, sc_type = SOCK_STREAM\<rparr>, \<lparr>sc_socket = 5, sc_addr = Inet 3 4, sc_type = SOCK_DGRAM\<rparr>]\<rparr>"
  have "sv_inv ?st" by (simp add: sv_inv_def owned_def listeners_def sockets_zero_def)
  from socket_server_forwards [OF this, of "\<lambda>fd. if fd = 5 then - 1 else 100"] show ?thesis by auto
qed

section \<open>Receiving\<close>

text \<open>What a client's reads bring.\<close>

definition client_bytes :: "(int \<Rightarrow> bool) \<Rightarrow> (int \<Rightarrow> u8 list list \<times> bool) \<Rightarrow> socket_client \<Rightarrow> u8 list" where
  "client_bytes ready rx c = (if ready (sc_socket c) then concat (takeWhile (\<lambda>d. d \<noteq> []) (fst (rx (sc_socket c)))) else [])"

definition client_failed :: "(int \<Rightarrow> bool) \<Rightarrow> (int \<Rightarrow> u8 list list \<times> bool) \<Rightarrow> socket_client \<Rightarrow> bool" where
  "client_failed ready rx c \<longleftrightarrow> ready (sc_socket c) \<and> snd (rx (sc_socket c)) \<and> list_all (\<lambda>d. d \<noteq> []) (fst (rx (sc_socket c)))"

lemma receive_effect:
  assumes "sv_inv st" "set cs \<subseteq> set (client_list st)" "distinct cs"
  shows "\<exists>st'. socket_clients_receive ready rx cs st = Some st' \<and> sv_inv st' \<and> same_listeners st st' \<and>
    client_list st' = filter (\<lambda>c. c \<in> set cs \<longrightarrow> \<not> client_failed ready rx c) (client_list st) \<and>
    uart_sent st' = uart_sent st @ concat (map (client_bytes ready rx) cs)"
  using assms
proof (induction cs arbitrary: st)
  case Nil
  then show ?case by (simp add: same_listeners_def)
next
  case (Cons c cs)
  obtain pieces err where rx: "rx (sc_socket c) = (pieces, err)" by force
  let ?in = "if ready (sc_socket c) then fold take_in (takeWhile (\<lambda>d. d \<noteq> []) pieces) st else st"
  have i: "sv_inv ?in" "client_list ?in = client_list st" "same_listeners st ?in"
    "uart_sent ?in = uart_sent st @ client_bytes ready rx c"
    using Cons.prems(1) by (auto simp: fold_take_in same_listeners_def client_bytes_def rx)
  have d: "distinct (client_list st)" using sv_invD(3) Cons.prems(1) .
  show ?case
  proof (cases "client_failed ready rx c")
    case True
    then have t: "ready (sc_socket c)" "err" "list_all (\<lambda>d. d \<noteq> []) pieces" by (simp_all add: client_failed_def rx)
    let ?st = "?in\<lparr>open_fds := remove1 (sc_socket c) (open_fds ?in), client_list := remove1 c (client_list ?in)\<rparr>"
    have c: "c \<in> set (client_list ?in)" using Cons.prems(2) i(2) by simp
    note r = remove_client [OF i(1) c]
    have "set cs \<subseteq> set (client_list ?st)" "distinct cs" using Cons.prems(2,3) d i(2) by auto
    from Cons.IH [OF r(2) this] obtain st' where st': "socket_clients_receive ready rx cs ?st = Some st'" "sv_inv st'"
      "same_listeners ?st st'"
      "client_list st' = filter (\<lambda>x. x \<in> set cs \<longrightarrow> \<not> client_failed ready rx x) (remove1 c (client_list ?in))"
      "uart_sent st' = uart_sent ?st @ concat (map (client_bytes ready rx) cs)" by auto
    have l: "client_list st' = filter (\<lambda>x. x \<in> set (c # cs) \<longrightarrow> \<not> client_failed ready rx x) (client_list st)"
      unfolding st'(4) i(2) distinct_remove1_removeAll [OF d] using True Cons.prems(3)
      by (auto simp: removeAll_filter_not_eq intro!: filter_cong)
    have e: "socket_clients_receive ready rx (c # cs) st = socket_clients_receive ready rx cs ?st"
      using r(1) t by (simp add: rx Let_def)
    have "uart_sent ?st = uart_sent st @ client_bytes ready rx c" using i(4) by simp
    with st'(5) have "uart_sent st' = uart_sent st @ concat (map (client_bytes ready rx) (c # cs))" by simp
    with e st'(1,2,3) l i(3) show ?thesis by (auto simp: same_listeners_def)
  next
    case False
    have "set cs \<subseteq> set (client_list ?in)" "distinct cs" using Cons.prems i(2) by auto
    from Cons.IH [OF i(1) this] obtain st' where st': "socket_clients_receive ready rx cs ?in = Some st'" "sv_inv st'"
      "same_listeners ?in st'"
      "client_list st' = filter (\<lambda>x. x \<in> set cs \<longrightarrow> \<not> client_failed ready rx x) (client_list ?in)"
      "uart_sent st' = uart_sent ?in @ concat (map (client_bytes ready rx) cs)" by auto
    have l: "client_list st' = filter (\<lambda>x. x \<in> set (c # cs) \<longrightarrow> \<not> client_failed ready rx x) (client_list st)"
      unfolding st'(4) i(2) using False by (auto intro!: filter_cong)
    have e: "socket_clients_receive ready rx (c # cs) st = socket_clients_receive ready rx cs ?in"
      using False by (auto simp: client_failed_def rx Let_def)
    from st'(5) i(4) have "uart_sent st' = uart_sent st @ concat (map (client_bytes ready rx) (c # cs))" by simp
    with e st'(1,2,3) l i(3) show ?thesis by (auto simp: same_listeners_def)
  qed
qed

text \<open>A client whose connection was closed by its peer reads nothing without an error, and stays in the list.\<close>

theorem closed_peer_stays:
  assumes "sv_inv st" "client_list st = [c]" "rx (sc_socket c) = ([[]], err)"
  shows "\<exists>st'. socket_clients_receive ready rx (client_list st) st = Some st' \<and> client_list st' = client_list st"
  using receive_effect [OF assms(1), of "client_list st" ready rx] assms(2,3) by (auto simp: client_failed_def)

section \<open>Opening and closing\<close>










section \<open>The task as a whole\<close>













end
