(* ===== verification/Socket_Client.thy ===== *)
theory Socket_Client
  imports Nmea_Util Config_Store Retry_Backoff
begin

text \<open>
  The socket client (\<open>src/main/interface/socket_client.c\<close>): one connection to a configured host that carries the
  receiver's data out and commands in. The results of the socket calls are arguments; the calls to the allocator
  are logged, so that what is freed, and how often, can be read off. Status light, log and NMEA lines are left out.
\<close>

datatype heap_text = Host_Text | Message_Text | Read_Buffer

record client =
  cl_sock :: int
  cl_closed :: "int list"
  cl_out :: u32
  cl_in :: u32
  cl_uart :: "u8 list"
  cl_freed :: "heap_text list"
  cl_retry :: "retry_delay_t option"

definition cl_destroy :: "client \<Rightarrow> client" where
  "cl_destroy st = (let (s, c) = destroy_socket (cl_sock st) in st\<lparr>cl_sock := s, cl_closed := cl_closed st @ c\<rparr>)"

text \<open>Data of the receiver: counted before it is written; \<open>wr\<close> is the result of the write.\<close>

definition socket_client_uart_handler :: "int \<Rightarrow> u8 list \<Rightarrow> client \<Rightarrow> client" where
  "socket_client_uart_handler wr data st =
     (if cl_sock st = - 1 then st
      else let st = st\<lparr>cl_out := cl_out st + of_nat (length data)\<rparr> in if wr < 0 then cl_destroy st else st)"

definition cl_free :: "heap_text \<Rightarrow> client \<Rightarrow> client" where
  "cl_free h st = st\<lparr>cl_freed := cl_freed st @ [h]\<rparr>"

text \<open>Reads until one fails: \<open>None\<close> is the failure, an empty read is the end of the stream.\<close>

fun read_loop :: "u8 list option list \<Rightarrow> client \<Rightarrow> client" where
  "read_loop [] st = st"
| "read_loop (None # rs) st = st"
| "read_loop (Some d # rs) st =
     read_loop rs (st\<lparr>cl_uart := cl_uart st @ d, cl_in := cl_in st + of_nat (length d)\<rparr>)"

text \<open>
  One turn of the task: \<open>conn\<close> is the result of \<open>connect_socket\<close>, \<open>wr\<close> that of sending the message. The error for the
  options of the socket is not looked at.
\<close>

definition socket_client_turn :: "int \<Rightarrow> int \<Rightarrow> u8 list option list \<Rightarrow> client \<Rightarrow> client" where
  "socket_client_turn conn wr reads st =
     (let st = st\<lparr>cl_retry := snd (snd (retry_delay (cl_retry st))), cl_sock := conn\<rparr>;
          finish = (\<lambda>st. cl_free Message_Text (cl_free Host_Text (cl_destroy st)))
      in if conn = CONNECT_SOCKET_ERROR_RESOLVE \<or> conn = CONNECT_SOCKET_ERROR_CONNECT then finish st
         else let st = cl_free Message_Text st
              in if wr < 0 then finish st
                 else finish (cl_free Read_Buffer (read_loop reads (st\<lparr>cl_retry := retry_reset (cl_retry st)\<rparr>))))"

definition socket_client_zero :: client where
  "socket_client_zero = \<lparr>cl_sock = - 1, cl_closed = [], cl_out = 0, cl_in = 0, cl_uart = [], cl_freed = [],
     cl_retry = retry_init False True 5 2000 0\<rparr>"

definition socket_client_init :: "'s nvs \<Rightarrow> 's \<Rightarrow> bool" where
  "socket_client_init nvs s = config_get_bool1 nvs (CONF_ITEM ''sck_cli_active'') s"

section \<open>What a turn does\<close>

lemma read_loop_effect:
  "cl_sock (read_loop rs st) = cl_sock st" "cl_closed (read_loop rs st) = cl_closed st"
  "cl_freed (read_loop rs st) = cl_freed st"
  "cl_uart (read_loop rs st) = cl_uart st @ concat (map the (takeWhile (\<lambda>r. r \<noteq> None) rs))"
  by (induction rs st rule: read_loop.induct) simp_all

text \<open>The descriptor of a turn is closed in it, once, and whatever was read went to the receiver in order.\<close>

theorem socket_client_turn_effect:
  "let st' = socket_client_turn conn wr reads st
   in cl_sock st' < 0 \<and> cl_closed st' = cl_closed st @ (if conn < 0 then [] else [conn]) \<and>
      cl_uart st' = cl_uart st @ (if conn = - 1 \<or> conn = - 2 \<or> wr < 0 then [] else concat (map the (takeWhile (\<lambda>r. r \<noteq> None) reads)))"
  by (auto simp: socket_client_turn_def Let_def cl_free_def cl_destroy_def destroy_socket_def read_loop_effect
    CONNECT_SOCKET_ERROR_RESOLVE_def CONNECT_SOCKET_ERROR_CONNECT_def)

text \<open>The message is freed twice in every turn that reaches the host.\<close>

theorem socket_client_double_free:
  "count_list (cl_freed (socket_client_turn conn wr reads st)) Message_Text =
     count_list (cl_freed st) Message_Text + (if conn = - 1 \<or> conn = - 2 then 1 else 2)"
  by (auto simp: socket_client_turn_def Let_def cl_free_def cl_destroy_def destroy_socket_def read_loop_effect
    CONNECT_SOCKET_ERROR_RESOLVE_def CONNECT_SOCKET_ERROR_CONNECT_def)

text \<open>The end of the stream does not end the reading: the same empty read may come any number of times.\<close>

theorem socket_client_stream_end:
  "read_loop (replicate n (Some []) @ rs) st = read_loop rs st"
  by (induction n) simp_all

end
