(* ===== verification/Status_Led.thy ===== *)
theory Status_Led
  imports Prelude
begin

text \<open>
  The status light (\<open>src/main/status_led.c\<close>): the list of colours other modules add, what the task shows of each, and the
  signal light. The light driver is outside: its calls are logged in order, with the time waited between them in
  milliseconds. Duty values are inverted, as on the board: 255 is dark.
\<close>

datatype status_led_flashing_mode = STATUS_LED_STATIC | STATUS_LED_FADE | STATUS_LED_BLINK

record status_led =
  led_red :: u8
  led_green :: u8
  led_blue :: u8
  flashing_mode :: status_led_flashing_mode
  led_interval :: u32
  led_duration :: u32
  led_expire :: u8
  led_remove :: bool
  led_active :: bool

datatype led_call = Led_Duty u8 u8 u8 | Led_Fade u8 u8 u8 nat | Led_Wait nat | Rssi_Duty u8 | Rssi_Fade u8 int

definition scale :: "u32 \<Rightarrow> u32 \<Rightarrow> u8" where
  "scale c alpha = of_nat (unat (c AND 0xFF) * unat (alpha AND 0xFF) div 255)"

text \<open>A new colour goes to the end of the list.\<close>

definition status_led_add :: "u32 \<Rightarrow> status_led_flashing_mode \<Rightarrow> u32 \<Rightarrow> u32 \<Rightarrow> u8 \<Rightarrow> status_led list \<Rightarrow> status_led list" where
  "status_led_add rgba mode interval duration expire l =
     l @ [\<lparr>led_red = scale (drop_bit 24 rgba) rgba, led_green = scale (drop_bit 16 rgba) rgba, led_blue = scale (drop_bit 8 rgba) rgba,
           flashing_mode = mode, led_interval = interval, led_duration = duration, led_expire = expire,
           led_remove = False, led_active = True\<rparr>]"

text \<open>The handle is the position in the list; a handle that was never given stands for the null pointer.\<close>

definition status_led_remove :: "nat option \<Rightarrow> status_led list \<Rightarrow> status_led list" where
  "status_led_remove h l = (case h of None \<Rightarrow> l | Some i \<Rightarrow> if i < length l then l[i := (l ! i)\<lparr>led_remove := True\<rparr>] else l)"

definition status_led_set :: "u8 \<Rightarrow> u8 \<Rightarrow> u8 \<Rightarrow> led_call" where
  "status_led_set r g b = Led_Duty (0xFF - r) (0xFF - g) (0xFF - b)"

definition status_led_fade :: "u8 \<Rightarrow> u8 \<Rightarrow> u8 \<Rightarrow> nat \<Rightarrow> led_call" where
  "status_led_fade r g b ms = Led_Fade (0xFF - r) (0xFF - g) (0xFF - b) ms"

text \<open>One colour: \<open>None\<close> is the division by an interval of zero.\<close>

definition led_phase :: "status_led \<Rightarrow> nat \<Rightarrow> led_call list" where
  "led_phase c i =
     (let on = even i; r = (if on then led_red c else 0); g = (if on then led_green c else 0); b = (if on then led_blue c else 0)
      in [if flashing_mode c = STATUS_LED_FADE then status_led_fade r g b (unat (led_interval c) div 2) else status_led_set r g b,
          Led_Wait (unat (led_interval c))])"

definition status_led_show :: "status_led \<Rightarrow> led_call list option" where
  "status_led_show c =
     (if flashing_mode c = STATUS_LED_STATIC
      then Some [status_led_set (led_red c) (led_green c) (led_blue c), Led_Wait (unat (led_duration c)), status_led_set 0 0 0]
      else if led_interval c = 0 then None
      else Some (concat (map (led_phase c) [0..<unat (led_duration c) div unat (led_interval c)]) @ [status_led_set 0 0 0]))"

text \<open>One pass over the list: the calls, and the list without the marked colours.\<close>

fun status_led_task :: "status_led list \<Rightarrow> (led_call list \<times> status_led list) option" where
  "status_led_task [] = Some ([], [])"
| "status_led_task (c # cs) =
     (if led_remove c then status_led_task cs
      else Option.bind (if led_active c then status_led_show c else Some []) (\<lambda>t.
           map_option (\<lambda>(ts, l). (t @ ts, c # l)) (status_led_task cs)))"

definition rssi_led_set :: "u8 \<Rightarrow> led_call list" where
  "rssi_led_set v = [Rssi_Duty v]"

definition rssi_led_fade :: "u8 \<Rightarrow> int \<Rightarrow> led_call list" where
  "rssi_led_fade v ms = [Rssi_Fade v ms]"

text \<open>The blinking of the signal light over a number of periods: it starts with on.\<close>

definition rssi_led_blink :: "nat \<Rightarrow> led_call list" where
  "rssi_led_blink n = concat (map (\<lambda>i. rssi_led_set (if even i then 255 else 0) @ [Led_Wait 500]) [0..<n])"

text \<open>The channels set up at the start: number, pin, first duty. All share one timer of eight bits at one kilohertz.\<close>

definition status_led_init :: "(nat \<times> nat \<times> nat) list" where
  "status_led_init = [(0, 21, 255), (1, 22, 255), (2, 19, 255), (4, 27, 255), (3, 32, 0), (5, 16, 0)]"

lemma status_led_pins: "distinct (map fst status_led_init)" "distinct (map (fst \<circ> snd) status_led_init)"
  by (simp_all add: status_led_init_def)

section \<open>What is shown\<close>

definition waited :: "led_call list \<Rightarrow> nat" where
  "waited cs = (\<Sum>c\<leftarrow>cs. case c of Led_Wait n \<Rightarrow> n | _ \<Rightarrow> 0)"

lemma waited_simps [simp]:
  "waited [] = 0" "waited (c # cs) = (case c of Led_Wait n \<Rightarrow> n | _ \<Rightarrow> 0) + waited cs" "waited (a @ b) = waited a + waited b"
  by (simp_all add: waited_def)

lemma scale_bound: "unat (scale c alpha) \<le> unat (alpha AND 0xFF)" "unat (scale c alpha) \<le> unat (c AND 0xFF)"
proof -
  have m: "unat (x AND 0xFF) \<le> 255" for x :: u32
  proof -
    have "x AND 0xFF \<le> 0xFF" by (rule word_and_le1)
    then show ?thesis by (simp add: word_le_nat_alt)
  qed
  have p: "a * b div 255 \<le> b" "a * b div 255 \<le> a" if "a \<le> 255" "b \<le> 255" for a b :: nat
  proof -
    have "a * b \<le> 255 * b" "a * b \<le> a * 255" using that by simp_all
    then show "a * b div 255 \<le> b" "a * b div 255 \<le> a"
      using div_le_mono [of "a * b" "255 * b" 255] div_le_mono [of "a * b" "a * 255" 255] by simp_all
  qed
  have l: "unat (scale c alpha) = unat (c AND 0xFF) * unat (alpha AND 0xFF) div 255"
    using p(1) [OF m m, of c alpha] m [of alpha] by (simp add: scale_def unat_of_nat)
  show "unat (scale c alpha) \<le> unat (alpha AND 0xFF)" "unat (scale c alpha) \<le> unat (c AND 0xFF)"
    unfolding l using p [OF m m] by auto
qed

lemma phases_wait: "waited (concat (map (led_phase c) [0..<n])) = n * unat (led_interval c)"
  by (induction n) (simp_all add: led_phase_def Let_def status_led_fade_def status_led_set_def)

text \<open>Showing a colour takes its duration, to a whole number of intervals, and leaves the light dark.\<close>

theorem status_led_show_time:
  assumes "status_led_show c = Some cs"
  shows "last cs = Led_Duty 255 255 255 \<and>
    waited cs = (if flashing_mode c = STATUS_LED_STATIC then unat (led_duration c)
      else unat (led_duration c) - unat (led_duration c) mod unat (led_interval c))"
  using assms
  by (auto simp: status_led_show_def status_led_set_def phases_wait minus_mod_eq_div_mult split: if_splits)

text \<open>A pass keeps the colours not marked, in order; with none active it waits for nothing, so the task does not let
  a lower one run.\<close>

theorem status_led_task_list:
  assumes "status_led_task l = Some (cs, l')"
  shows "l' = filter (\<lambda>c. \<not> led_remove c) l \<and> (list_all (\<lambda>c. \<not> led_active c) l \<longrightarrow> cs = [])"
  using assms
  by (induction l arbitrary: cs l') (auto split: if_splits bind_splits)

end
