(* ===== verification/Board.thy ===== *)
theory Board
  imports Config_Store
begin

text \<open>
  Three small modules: the log (\<open>src/main/log.c\<close>), whose lines go to a ring for the web page and to the console; the
  partition of the core dump (\<open>src/main/core_dump.c\<close>); and the operating mode (\<open>src/main/state.c\<close>).
  The ring of the operating system takes an item when it fits whole. The lengths of the colour codes around a line are
  arguments.
\<close>

section \<open>Log\<close>

abbreviation LOG_RING_SIZE :: nat where "LOG_RING_SIZE \<equiv> 4096"
abbreviation INITIAL_MAGIC :: string where "INITIAL_MAGIC \<equiv> ''@@@@'' @ [CHR 0x0A]"

definition ring_send :: "string \<Rightarrow> string \<Rightarrow> string" where
  "ring_send ring item = (if length ring + length item \<le> LOG_RING_SIZE then ring @ item else ring)"

text \<open>The ring after the start, unless it could not be created.\<close>

definition log_init :: "bool \<Rightarrow> string option" where
  "log_init created = (if created then Some (ring_send [] INITIAL_MAGIC) else None)"

text \<open>
  A formatted line of \<open>n\<close> characters: the ring gets it without the codes around it, of \<open>c\<close> and \<open>r\<close> characters, and the last
  one, which is the line's end; the length wraps to 32 bits, and the ring refuses what exceeds it. Result: the ring,
  the bytes for the console, the value returned.
\<close>

definition log_vprintf :: "nat \<Rightarrow> nat \<Rightarrow> string \<Rightarrow> string \<Rightarrow> string \<times> string \<times> nat" where
  "log_vprintf c r line ring =
     (let buffer = take 511 line @ [CHR 0x00];
          n = min 512 (length line);
          len = unat (word_of_int (int n - int c - int r - 1) :: u32);
          ring = (if len > LOG_RING_SIZE then ring else ring_send ring (take len (drop c buffer)));
          ring = ring_send ring [CHR 0x0A]
      in (ring, take n buffer, n))"

text \<open>Everything in the ring is handed out and the ring is empty when it is returned.\<close>

definition log_receive :: "string \<Rightarrow> string option \<times> string" where
  "log_receive ring = (if ring = [] then None else Some ring, [])"

text \<open>A line in its colour codes is logged without them, and goes whole to the console.\<close>

theorem log_line_plain:
  assumes "length color = c" "length reset = r" "length (color @ msg @ reset) < 511"
    and "length ring + length msg + 1 \<le> LOG_RING_SIZE"
  shows "log_vprintf c r (color @ msg @ reset @ [CHR 0x0A]) ring =
    (ring @ msg @ [CHR 0x0A], color @ msg @ reset @ [CHR 0x0A], length (color @ msg @ reset) + 1)"
proof -
  let ?l = "color @ msg @ reset @ [CHR 0x0A]"
  have n: "min 512 (length ?l) = c + length msg + r + 1" using assms(1-3) by simp
  have l: "unat (word_of_int (int (c + length msg + r + 1) - int c - int r - 1) :: u32) = length msg"
  proof -
    have "int (c + length msg + r + 1) - int c - int r - 1 = int (length msg)" by simp
    moreover have "length msg < 2 ^ 32" using assms(3) by simp
    ultimately show ?thesis by (simp only: of_int_of_nat_eq) (simp add: unat_of_nat take_bit_nat_eq_self)
  qed
  have t: "take 511 ?l = ?l" using assms(1-3) by simp
  show ?thesis unfolding log_vprintf_def Let_def n l t using assms by (simp add: ring_send_def)
qed

lemma negative_length:
  assumes "- 4294963001 \<le> d" "d < 0"
  shows "4096 < unat (word_of_int d :: u32)"
proof -
  have "(d + 2 ^ 32) mod 2 ^ 32 = d + 2 ^ 32" using assms by (intro mod_pos_pos_trivial) simp_all
  then have "d mod 2 ^ 32 = d + 2 ^ 32" by (simp only: mod_add_self2)
  then have "uint (word_of_int d :: u32) = d + 2 ^ 32" by (simp add: uint_word_of_int)
  then show ?thesis using assms by (simp add: unat_eq_nat_uint)
qed

text \<open>A line shorter than its codes is lost, and only its end is logged.\<close>

theorem log_short_line_lost:
  assumes "length line < c + r + 1" "c + r < 4294963000"
  shows "fst (log_vprintf c r line ring) = ring_send ring [CHR 0x0A]"
proof -
  have "4096 < unat (word_of_int (int (min 512 (length line)) - int c - int r - 1) :: u32)"
    using assms by (intro negative_length) auto
  then show ?thesis by (simp only: log_vprintf_def Let_def fst_conv if_True)
qed

section \<open>Core dump\<close>

record core =
  cd_partition :: "(nat \<Rightarrow> nat \<Rightarrow> string) option"
  cd_size :: nat

text \<open>\<open>img\<close>: the result and the size the library reports; \<open>part\<close>: the partition, if it is found.\<close>

definition core_dump_check :: "bool \<times> nat \<Rightarrow> (nat \<Rightarrow> nat \<Rightarrow> string) option \<Rightarrow> core \<Rightarrow> core" where
  "core_dump_check img part cd =
     (let cd = cd\<lparr>cd_size := snd img\<rparr> in if \<not> fst img \<or> cd_size cd = 0 then cd else cd\<lparr>cd_partition := part\<rparr>)"

definition core_dump_available :: "core \<Rightarrow> nat" where
  "core_dump_available cd = cd_size cd"

text \<open>\<open>None\<close>: no partition.\<close>

definition core_dump_read :: "core \<Rightarrow> nat \<Rightarrow> nat \<Rightarrow> string option" where
  "core_dump_read cd offset len = map_option (\<lambda>rd. rd offset len) (cd_partition cd)"

section \<open>Operating mode\<close>

definition init_state :: "'s nvs \<Rightarrow> 's \<Rightarrow> u16" where
  "init_state nvs s = config_get_u16 nvs (CONF_ITEM ''mode_active'') s"

definition get_state :: "'s nvs \<Rightarrow> 's \<Rightarrow> u16" where
  "get_state nvs s = config_get_u16 nvs (CONF_ITEM ''mode_active'') s"

text \<open>The variable and the storage: the write is not committed, and its error is not looked at.\<close>

definition set_state :: "'s nvs \<Rightarrow> u16 \<Rightarrow> 's \<Rightarrow> u16 \<times> 's" where
  "set_state nvs st s = (st, snd (config_set_u16 nvs ''mode_active'' st s))"

end
