(* ===== verification/Boot.thy ===== *)
theory Boot
  imports Wifi Ota_Policy
begin

text \<open>
  The start of the program (\<open>src/main/main.c\<close>): the order in which the modules are brought up, the bounded wait for
  the clock, and the button that resets the network settings. The steps are the calls of \<open>app_main\<close>; what they do
  is in the theories of their modules. Log lines are left out, the debugging loop that is compiled out too.
\<close>

section \<open>The reset button\<close>

text \<open>The levels read every two seconds: the number of the sample at which the settings are reset and the device restarts.\<close>

abbreviation BUTTON_DOWN :: int where "BUTTON_DOWN \<equiv> 1"

fun reset_button_task :: "int list \<Rightarrow> nat \<Rightarrow> nat \<Rightarrow> nat option" where
  "reset_button_task [] counter k = None"
| "reset_button_task (level # ls) counter k =
     (if level = BUTTON_DOWN
      then let counter = counter + 1 in if counter > 3 then Some k else reset_button_task ls counter (k + 1)
      else reset_button_task ls 0 (k + 1))"

definition held :: "int list \<Rightarrow> nat \<Rightarrow> bool" where
  "held ls k \<longleftrightarrow> 3 \<le> k \<and> k < length ls \<and> ls ! k = 1 \<and> ls ! (k - 1) = 1 \<and> ls ! (k - 2) = 1 \<and> ls ! (k - 3) = 1"

lemma held_shift:
  assumes "level \<noteq> 1" "c \<le> 3"
  shows "held (replicate c 1 @ level # ls) m \<longleftrightarrow> c + 1 \<le> m \<and> held ls (m - c - 1)"
proof -
  let ?x = "replicate c 1 @ level # ls"
  have l: "?x ! c = level" by (simp add: nth_append)
  have h: "?x ! (c + 1 + j) = ls ! j" for j by (simp add: nth_append)
  consider "m \<le> c" | "m = c + 1" | "m = c + 2" | "m = c + 3" | j where "m = c + 1 + (j + 3)"
    using le_Suc_ex [of "c + 4" m] by (cases "c + 4 \<le> m") (force, linarith)
  then show ?thesis
  proof cases
    case 1
    then show ?thesis using assms l by (cases "m = c") (auto simp: held_def)
  next
    case 5
    then have "m - 1 = c + 1 + (j + 2)" "m - 2 = c + 1 + (j + 1)" "m - 3 = c + 1 + j" by simp_all
    then show ?thesis using 5 by (simp only: held_def h) (auto simp: add.commute)
  qed (use l assms in \<open>auto simp: held_def\<close>)
qed

lemma reset_button_run:
  assumes "c \<le> 3"
  shows "case reset_button_task ls c k of
      Some n \<Rightarrow> k \<le> n \<and> held (replicate c 1 @ ls) (n - k + c) \<and> (\<forall>m < n - k + c. \<not> held (replicate c 1 @ ls) m)
    | None \<Rightarrow> \<forall>m. \<not> held (replicate c 1 @ ls) m"
  using assms
proof (induction ls c k rule: reset_button_task.induct)
  case (1 c k)
  then show ?case by (auto simp: held_def)
next
  case (2 level ls c k)
  show ?case
  proof (cases "level = 1")
    case True
    have r: "replicate (Suc c) 1 @ ls = replicate c 1 @ level # ls" using True by (simp add: replicate_app_Cons_same)
    show ?thesis
    proof (cases "c = 3")
      case True
      then show ?thesis using \<open>level = 1\<close> by (simp add: held_def numeral_3_eq_3 nth_append)
    next
      case False
      have e: "reset_button_task (level # ls) c k = reset_button_task ls (c + 1) (k + 1)" using True False 2(3) by simp
      have i: "k + 1 \<le> n \<Longrightarrow> n - (k + 1) + (c + 1) = n - k + c" for n by simp
      from 2(1) [OF True refl] False 2(3) have "case reset_button_task ls (c + 1) (k + 1) of
          Some n \<Rightarrow> k + 1 \<le> n \<and> held (replicate (c + 1) 1 @ ls) (n - (k + 1) + (c + 1)) \<and>
            (\<forall>m < n - (k + 1) + (c + 1). \<not> held (replicate (c + 1) 1 @ ls) m)
        | None \<Rightarrow> \<forall>m. \<not> held (replicate (c + 1) 1 @ ls) m" by simp
      then show ?thesis unfolding e using r i by (auto split: option.splits)
    qed
  next
    case False
    note h = held_shift [OF False 2(3), of ls]
    from 2(2) [OF False] show ?thesis
    proof (cases "reset_button_task ls 0 (k + 1)")
      case (Some n)
      with 2(2) [OF False] have n: "k + 1 \<le> n" "held ls (n - (k + 1))" "\<And>m. m < n - (k + 1) \<Longrightarrow> \<not> held ls m" by auto
      have "\<not> held (replicate c 1 @ level # ls) m" if "m < n - k + c" for m
        using h [of m] n(3) [of "m - c - 1"] that by auto
      moreover have "held (replicate c 1 @ level # ls) (n - k + c)" using h [of "n - k + c"] n by simp
      ultimately show ?thesis using Some False n(1) by simp
    next
      case None
      with 2(2) [OF False] h False show ?thesis by simp
    qed
  qed
qed

text \<open>The button resets the settings only when it is held. The reset and the restart come at the first sample at which the
  button was down for four samples in a row, that is for at least six seconds, and never when there is none; a
  shorter press, or any number of them, does nothing.\<close>

theorem reset_only_when_held:
  "reset_button_task ls 0 0 = (if \<exists>n. held ls n then Some (LEAST n. held ls n) else None)"
proof (cases "reset_button_task ls 0 0")
  case None
  with reset_button_run [of 0 ls 0] show ?thesis by simp
next
  case (Some n)
  with reset_button_run [of 0 ls 0] have "held ls n" "\<And>m. m < n \<Longrightarrow> \<not> held ls m" by simp_all
  then have "(LEAST n. held ls n) = n" by (intro Least_equality) (auto simp: linorder_not_less [symmetric])
  with Some \<open>held ls n\<close> show ?thesis by auto
qed

section \<open>Starting up\<close>

datatype boot_step = Status_Led_Init | Log_Init | Core_Dump_Check | Stream_Stats_Init | Config_Init | Init_State
  | Ingest_Init | Uart_Init | Boot_Loop_Guard | Reset_Button | Nmea_Init_Start string | Event_Loop | Net_Init | Wifi_Init | Update_Init
  | Gnss_Init | Web_Server_Init | Wait_For_Ip nat | Sntp_Init | Clock_Delay | Ota_Check | Ntrip_Init | Socket_Server_Init
  | Socket_Client_Init | Set_Recovery | Supervisor_Init | Provisioning_Init | Check_Handlers | Nmea_Init_Complete
  | Task_Confirm | Task_Bootloop_Clear | Task_Schedule

fun reset_reason_name :: "reset_reason \<Rightarrow> string" where
  "reset_reason_name ESP_RST_UNKNOWN = ''UNKNOWN''"
| "reset_reason_name ESP_RST_POWERON = ''POWERON''"
| "reset_reason_name ESP_RST_EXT = ''EXTERNAL''"
| "reset_reason_name ESP_RST_SW = ''SOFTWARE''"
| "reset_reason_name ESP_RST_PANIC = ''PANIC''"
| "reset_reason_name ESP_RST_INT_WDT = ''INTERRUPT_WATCHDOG''"
| "reset_reason_name ESP_RST_TASK_WDT = ''TASK_WATCHDOG''"
| "reset_reason_name ESP_RST_WDT = ''OTHER_WATCHDOG''"
| "reset_reason_name ESP_RST_DEEPSLEEP = ''DEEPSLEEP''"
| "reset_reason_name ESP_RST_BROWNOUT = ''BROWNOUT''"
| "reset_reason_name ESP_RST_SDIO = ''SDIO''"

abbreviation WIFI_BOOT_IP_TIMEOUT_MS :: nat where "WIFI_BOOT_IP_TIMEOUT_MS \<equiv> 30000"

text \<open>The delays until a sample of the clock is past November 2023, at most 20.\<close>

definition clock_wait :: "(nat \<Rightarrow> int) \<Rightarrow> boot_step list" where
  "clock_wait clock = replicate (length (takeWhile (\<lambda>i. clock i < 1700000000) [0..<20])) Clock_Delay"

text \<open>\<open>reboots\<close>: the update check installs a new image and restarts, so nothing follows it.\<close>

definition app_main :: "'s nvs \<Rightarrow> bool \<Rightarrow> 's \<Rightarrow> string \<Rightarrow> reset_reason \<Rightarrow> bool \<Rightarrow> (nat \<Rightarrow> int) \<Rightarrow> bool \<Rightarrow> boot_step list" where
  "app_main nvs oom s version reason got_ip clock reboots =
     (let sta_provisioned = provisioned nvs oom s;
          early = (if sta_provisioned then [] else [Web_Server_Init]);
          web_started = \<not> sta_provisioned;
          onboard = (if \<not> got_ip \<and> \<not> web_started then [Web_Server_Init] else []);
          web_started = (web_started \<or> \<not> got_ip \<and> \<not> web_started);
          up = [Status_Led_Init, Log_Init, Core_Dump_Check, Stream_Stats_Init, Config_Init, Init_State, Ingest_Init, Uart_Init,
                Boot_Loop_Guard, Reset_Button, Nmea_Init_Start (version @ '','' @ reset_reason_name reason), Event_Loop,
                Net_Init, Wifi_Init, Update_Init, Gnss_Init] @ early @
               [Wait_For_Ip WIFI_BOOT_IP_TIMEOUT_MS] @ onboard @ [Sntp_Init] @ clock_wait clock @ [Ota_Check]
      in if reboots then up
         else up @ [Ntrip_Init] @ (if web_started then [] else [Web_Server_Init]) @
              [Socket_Server_Init, Socket_Client_Init, Set_Recovery, Supervisor_Init, Provisioning_Init, Check_Handlers,
               Nmea_Init_Complete, Task_Confirm, Task_Bootloop_Clear, Task_Schedule])"

section \<open>The order of the start\<close>

definition precedes :: "boot_step \<Rightarrow> boot_step \<Rightarrow> boot_step list \<Rightarrow> bool" where
  "precedes a b tr \<longleftrightarrow> b \<in> set tr \<and> a \<in> set (takeWhile (\<lambda>x. x \<noteq> b) tr)"

lemma precedes_simps [simp]:
  "\<not> precedes a b []" "precedes a b (c # tr) \<longleftrightarrow> c \<noteq> b \<and> (c = a \<and> b \<in> set tr \<or> precedes a b tr)"
  by (auto simp: precedes_def)

lemma clock_steps:
  "a \<noteq> Clock_Delay \<Longrightarrow> b \<noteq> Clock_Delay \<Longrightarrow> precedes a b (clock_wait clock @ tr) = precedes a b tr"
  "a \<noteq> Clock_Delay \<Longrightarrow> a \<notin> set (clock_wait clock)" "a \<noteq> Clock_Delay \<Longrightarrow> count_list (clock_wait clock) a = 0"
  "count_list (clock_wait clock) Clock_Delay \<le> 20"
proof -
  have r: "precedes a b (replicate n Clock_Delay @ tr) = precedes a b tr" if "a \<noteq> Clock_Delay" "b \<noteq> Clock_Delay" for n
    using that by (induction n) (auto simp: precedes_def)
  show "a \<noteq> Clock_Delay \<Longrightarrow> b \<noteq> Clock_Delay \<Longrightarrow> precedes a b (clock_wait clock @ tr) = precedes a b tr"
    unfolding clock_wait_def by (rule r)
  show "a \<noteq> Clock_Delay \<Longrightarrow> a \<notin> set (clock_wait clock)" by (simp add: clock_wait_def)
  show "a \<noteq> Clock_Delay \<Longrightarrow> count_list (clock_wait clock) a = 0" by (simp add: clock_wait_def count_list_0_iff)
  have "count_list (replicate n x) x = n" for n and x :: boot_step by (induction n) simp_all
  then show "count_list (clock_wait clock) Clock_Delay \<le> 20"
    using length_takeWhile_le [of "\<lambda>i. clock i < 1700000000" "[0..<20]"] by (simp add: clock_wait_def)
qed

text \<open>The parts come up in the order their comments ask for, on every path: the frame parser before the serial
  port that feeds it, the boot-loop guard after the serial port and before the network, the update check before the data plane, the
  recovery actions before the supervisor. The web server starts at most once, exactly once unless an update restarts the device;
  it is up before the wait for an address exactly when no network is configured, and before the update check exactly when
  there is no network or no address. The clock is waited for at most 20 times.\<close>

theorem boot_order:
  "let tr = app_main nvs oom s version reason got_ip clock reboots
   in precedes Ingest_Init Uart_Init tr \<and> precedes Uart_Init Boot_Loop_Guard tr \<and> precedes Boot_Loop_Guard Net_Init tr \<and>
      (reboots \<or> precedes Ota_Check Ntrip_Init tr \<and> precedes Set_Recovery Supervisor_Init tr \<and> count_list tr Web_Server_Init = 1) \<and>
      (Ntrip_Init \<in> set tr \<longleftrightarrow> reboots = False) \<and> count_list tr Web_Server_Init \<le> 1 \<and>
      (precedes Web_Server_Init (Wait_For_Ip WIFI_BOOT_IP_TIMEOUT_MS) tr \<longleftrightarrow> provisioned nvs oom s = False) \<and>
      (precedes Web_Server_Init Ota_Check tr \<longleftrightarrow> (provisioned nvs oom s \<and> got_ip) = False) \<and>
      count_list tr Clock_Delay \<le> 20"
  using clock_steps(4) [of clock]
  by (cases "provisioned nvs oom s"; cases got_ip; cases reboots)
    (simp_all add: app_main_def clock_steps)

end
