(* ===== verification/Ota_Tasks.thy ===== *)
theory Ota_Tasks
  imports Ota_Install Web_Server
begin

text \<open>
  The tasks around the update of \<open>src/main/update.c\<close>: the fetch of the manifest, the events that carry the progress to
  the web server, the boot check on a task of its own, the daily check over time and the older check that nothing
  starts; and the planned restart of \<open>src/main/config.c\<close>. The HTTP client and the JSON parser are arguments.
\<close>

section \<open>The manifest\<close>

text \<open>One request for the manifest: what the client returns, whether the buffer is allocated, and what is read.\<close>

record manifest_env =
  me_client :: bool
  me_open :: bool
  me_length :: int
  me_malloc :: bool
  me_read :: int
  me_data :: string

datatype fetch_call = Client_Init | Client_Open | Client_Headers | Client_Read nat | Client_Cleanup | Heap_Alloc nat | Heap_Free

text \<open>The result of the parser, if any, and the calls in order. The status of the reply is not looked at.\<close>

definition ota_fetch_json_from_url :: "(string \<Rightarrow> json option) \<Rightarrow> manifest_env \<Rightarrow> json option \<times> fetch_call list" where
  "ota_fetch_json_from_url parse e =
     (if \<not> me_client e then (None, [Client_Init])
      else if \<not> me_open e then (None, [Client_Init, Client_Open, Client_Cleanup])
      else if me_length e < 0 then (None, [Client_Init, Client_Open, Client_Headers, Client_Cleanup])
      else let n = nat (me_length e); front = [Client_Init, Client_Open, Client_Headers, Heap_Alloc (n + 1)]
           in if \<not> me_malloc e then (None, front @ [Client_Cleanup])
              else (if me_read e \<ge> 0 then parse (takeWhile (\<lambda>c. c \<noteq> CHR 0x00) (take (nat (me_read e)) (me_data e))) else None,
                    front @ [Client_Read n, Heap_Free, Client_Cleanup]))"

text \<open>Version and files, where they have the right types; \<open>env\<close> gives what an entry of the list meets.\<close>

definition manifest_of :: "(json \<Rightarrow> file_env) \<Rightarrow> json \<Rightarrow> manifest" where
  "manifest_of env j =
     \<lparr>mf_version = (case json_item ''version'' j of Some (J_Str v) \<Rightarrow> Some v | _ \<Rightarrow> None),
      mf_files = (case json_item ''update_files_urls'' j of Some (J_Arr l) \<Rightarrow> Some (map env l) | _ \<Rightarrow> None)\<rparr>"

text \<open>The client is cleaned up once and the buffer freed once, on every path that has them.\<close>

theorem manifest_fetch_balanced:
  "let (j, cs) = ota_fetch_json_from_url parse e
   in count_list cs Client_Cleanup = of_bool (me_client e) \<and> (me_client e \<longrightarrow> last cs = Client_Cleanup) \<and>
      count_list cs Heap_Free = (if me_malloc e then length (filter (\<lambda>c. \<exists>n. c = Heap_Alloc n) cs) else 0)"
  by (auto simp: ota_fetch_json_from_url_def Let_def)

section \<open>Progress events\<close>

definition send_update_started :: "web_ota_event list" where
  "send_update_started = [OTA_EVENT_UPDATE_STARTED]"

definition send_update_progress :: "int \<Rightarrow> web_ota_event list" where
  "send_update_progress p = [OTA_EVENT_UPDATE_PROGRESS p]"

definition send_update_completed :: "web_ota_event list" where
  "send_update_completed = [OTA_EVENT_UPDATE_COMPLETED]"

text \<open>The events of an update: the start, the progress values of its downloads, the completion.\<close>

definition update_events :: "bool \<Rightarrow> 's nvs \<Rightarrow> file_env list \<Rightarrow> ota_state \<times> 's \<Rightarrow> web_ota_event list" where
  "update_events opened nvs files st =
     (let o1 = fst (snd (updateFirmware opened nvs files st))
      in send_update_started @ concat (map send_update_progress (drop (length (o_progress (fst st))) (o_progress o1))) @
         send_update_completed)"

text \<open>After any update, also a failed one, the status page says that it is completed.\<close>

theorem failed_update_shown_completed:
  "let w' = fold handle_ota_events (update_events opened nvs files st) w
   in isFirmwareUpdatingCompleted w' \<and> isFirmwareUpdating w' = False \<and> firmwareUpdateProgress w' = 0"
  by (simp add: update_events_def send_update_started_def send_update_completed_def handle_ota_events_def Let_def)

text \<open>While an update runs the page shows it, with the last progress.\<close>

theorem running_update_shown:
  assumes "ps \<noteq> []"
  shows "let w' = fold handle_ota_events (send_update_started @ concat (map send_update_progress ps)) w
    in isFirmwareUpdating w' \<and> isFirmwareUpdatingCompleted w' = False \<and> firmwareUpdateProgress w' = last ps"
  using assms
proof (induction ps rule: rev_induct)
  case (snoc p ps)
  then show ?case by (simp add: send_update_progress_def handle_ota_events_def Let_def)
qed simp

text \<open>The start: whether the download partition is mounted, and whether there is an event loop.\<close>

definition ota_update_init :: "esp_err \<Rightarrow> esp_err \<Rightarrow> bool \<times> bool" where
  "ota_update_init register create = (register = ESP_OK, create = ESP_OK)"

section \<open>The check at boot\<close>

text \<open>The check runs on a task of its own and the start waits for it; without memory for either it is skipped.\<close>

definition ota_boot_check_blocking :: "bool \<Rightarrow> bool \<Rightarrow> string \<Rightarrow> manifest option \<Rightarrow> boot_check_env \<Rightarrow> 's nvs \<Rightarrow>
    ota_state \<times> 's \<Rightarrow> boot_outcome \<times> ota_state \<times> 's" where
  "ota_boot_check_blocking semaphore task fw m b nvs st =
     (if \<not> semaphore then (BOOT_SKIPPED, st)
      else if \<not> task then (BOOT_SKIPPED, st)
      else ota_boot_check fw m b nvs st)"

section \<open>The daily check over time\<close>

text \<open>
  The samples of the scheduler: whether the clock is at midnight, the manifest the fetch would give, and whether the storage opens.
  Result: whether the device restarts, the flag and the storage, and the number of fetches.
\<close>

fun ota_schedule_check_newupdate :: "string \<Rightarrow> 's nvs \<Rightarrow> (bool \<times> manifest option \<times> bool \<times> bool) list \<Rightarrow> bool \<times> 's \<Rightarrow> nat \<Rightarrow>
    bool \<times> (bool \<times> 's) \<times> nat" where
  "ota_schedule_check_newupdate fw nvs [] st n = (False, st, n)"
| "ota_schedule_check_newupdate fw nvs ((midnight, m, ro, rw) # ts) st n =
     (let n = (if midnight \<and> \<not> fst st then n + 1 else n);
          (restart, st) = schedule_tick fw midnight m ro rw nvs st
      in if restart then (True, st, n) else ota_schedule_check_newupdate fw nvs ts st n)"

text \<open>How often the clock comes to midnight.\<close>

fun midnights :: "bool \<Rightarrow> bool list \<Rightarrow> nat" where
  "midnights before [] = 0"
| "midnights before (b # bs) = of_bool (b \<and> \<not> before) + midnights b bs"

lemma schedule_tick_flag: "fst (snd (schedule_tick fw midnight m ro rw nvs st)) = midnight"
  by (cases st) (auto simp: schedule_tick_def Let_def split: option.splits)

text \<open>The manifest is fetched once each time the clock comes to midnight, however many samples fall into the minute, and at no
  other time; a restart, which only follows a fetch, ends the series.\<close>

theorem daily_check_once:
  "case ota_schedule_check_newupdate fw nvs ts st n of
     (restart, st', k) \<Rightarrow> k \<le> n + midnights (fst st) (map fst ts) \<and>
       (\<not> restart \<longrightarrow> k = n + midnights (fst st) (map fst ts) \<and> fst st' = (if ts = [] then fst st else fst (last ts))) \<and>
       (restart \<longrightarrow> n < k)"
proof (induction fw nvs ts st n rule: ota_schedule_check_newupdate.induct)
  case (1 fw nvs st n)
  then show ?case by simp
next
  case (2 fw nvs midnight m ro rw ts st n)
  let ?n = "if midnight \<and> \<not> fst st then n + 1 else n"
  obtain restart f s where t: "schedule_tick fw midnight m ro rw nvs st = (restart, f, s)"
    by (cases "schedule_tick fw midnight m ro rw nvs st") auto
  have f: "f = midnight" using schedule_tick_flag [of fw midnight m ro rw nvs st] t by simp
  have r: "restart \<Longrightarrow> midnight \<and> \<not> fst st"
    using t by (cases st) (auto simp: schedule_tick_def Let_def split: if_splits)
  show ?case
  proof (cases restart)
    case True
    then show ?thesis using t r f by simp
  next
    case False
    then have e: "ota_schedule_check_newupdate fw nvs ((midnight, m, ro, rw) # ts) st n =
        ota_schedule_check_newupdate fw nvs ts (midnight, s) ?n" using t f by simp
    have "\<not> restart" using False by simp
    note ih = 2 [OF refl t [symmetric] refl False, unfolded f]
    show ?thesis unfolding e using ih by (cases "ota_schedule_check_newupdate fw nvs ts (midnight, s) ?n") auto
  qed
qed

section \<open>The check that nothing starts\<close>

text \<open>One pass: any difference of the version counts as new. The flag is cleared by the first pass.\<close>

definition ota_check_newupdate :: "string \<Rightarrow> manifest option \<Rightarrow> bool \<Rightarrow> 's nvs \<Rightarrow> bool \<times> ota_state \<times> 's \<Rightarrow>
    update_result option \<times> bool \<times> ota_state \<times> 's" where
  "ota_check_newupdate fw m opened nvs st =
     (if \<not> fst st then (None, st)
      else case m of
             None \<Rightarrow> (None, False, snd st)
           | Some m \<Rightarrow>
               (case (mf_version m, mf_files m) of
                  (Some v, Some files) \<Rightarrow>
                    if v = fw then (None, False, snd st)
                    else let (r, st') = updateFirmware opened nvs files (snd st) in (Some r, False, st')
                | _ \<Rightarrow> (None, False, snd st)))"

section \<open>The restart after a change of settings\<close>

datatype restart_step = Wait_Ms nat | Nmea_Restarting | Note_Planned | Flush | Restart

definition config_restart_task :: "bool \<Rightarrow> 's nvs \<Rightarrow> 's \<Rightarrow> restart_step list \<times> 's" where
  "config_restart_task opened nvs s =
     ([Wait_Ms 1000, Nmea_Restarting, Note_Planned, Wait_Ms 1000, Flush, Wait_Ms 1000, Restart], ota_note_planned_reboot opened nvs s)"

text \<open>C40: Saving the settings never counts as a crash. When the web page restarts the device and the marker is stored, the boot
  that follows the software reset goes on with the same image and the count of faulty boots stays as it was, whatever
  it was; and the marker is used up, so it excuses no later reset.\<close>

theorem config_restart_not_counted:
  assumes "nvs_laws nvs" "nvs_accepts nvs" "be_reason e = ESP_RST_SW" "be_open_guard e"
  shows "let (g, s') = ota_boot_loop_guard e nvs (snd (config_restart_task True nvs s))
    in g = GUARD_CONTINUE \<and> boot_count nvs s' = boot_count nvs s \<and> nvs_u8_or_0 nvs ''planned_rb'' s' = 0"
proof -
  note l = assms(1)
  have set: "nvs_u8_or_0 nvs k (snd (nvs_commit nvs (snd (nvs_set nvs s k (NU8 v))))) = v" for k s v
    using u8_same [OF l assms(2)] l by simp
  let ?p = "snd (config_restart_task True nvs s)"
  have p: "nvs_u8_or_0 nvs ''planned_rb'' ?p = 1" using set by (simp add: config_restart_task_def ota_note_planned_reboot_def Let_def)
  have b: "boot_count nvs ?p = boot_count nvs s" using planned_keeps_boots [OF l] by (simp add: config_restart_task_def)
  have c: "fst (consume_planned nvs ?p)" "nvs_u8_or_0 nvs ''planned_rb'' (snd (consume_planned nvs ?p)) = 0"
    using p set by (simp_all add: consume_planned_def Let_def)
  have "\<not> crash_like e True" using assms(3) by (simp add: crash_like_def)
  then show ?thesis using c consume_keeps_boots [OF l, of ?p] b assms(4)
    by (auto simp: ota_boot_loop_guard_def split: prod.splits)
qed

definition sw_boot :: boot_env where
  "sw_boot = panic_boot\<lparr>be_reason := ESP_RST_SW\<rparr>"

theorem config_restart_not_counted_witness:
  "let (g, s') = ota_boot_loop_guard (sw_boot) map_nvs (snd (config_restart_task True map_nvs [''bootloop'' \<mapsto> NU8 4]))
    in g = GUARD_CONTINUE \<and> boot_count map_nvs s' = 4 \<and> nvs_u8_or_0 map_nvs ''planned_rb'' s' = 0"
proof -
  have b: "boot_count map_nvs [''bootloop'' \<mapsto> NU8 4] = 4" by (simp add: nvs_u8_or_0_def map_nvs_def)
  have "be_reason sw_boot = ESP_RST_SW" "be_open_guard sw_boot" by (simp_all add: sw_boot_def panic_boot_def)
  from config_restart_not_counted [OF map_nvs_laws map_nvs_accepts this, of "[''bootloop'' \<mapsto> NU8 4]"] b show ?thesis by simp
qed

end
