(* ===== verification/Data_Path.thy ===== *)
theory Data_Path
  imports Uart Ntrip_Task
begin

text \<open>
  The composition of the parts the corrections pass: the task that reads the receiver (\<open>Uart\<close>), the ingest
  (\<open>Ntrip_Ingest\<close>), the ring (\<open>Frame_Ring\<close>) and the sender of every caster (\<open>Tx_Core\<close>, \<open>Ntrip_Task\<close>), as the
  tasks of \<open>src/main/uart.c\<close> and \<open>src/main/interface/ntrip_server.c\<close> interleave on the state they share.
  The theorems speak of the bytes read from the serial port and of the bytes a caster gets, and of
  nothing between them.
\<close>

section \<open>The machine\<close>

text \<open>
  A caster: its sender, its socket with the notes of \<open>ntrip_server_sock_send\<close>, and three ghosts: whether a
  connection is open, how many frames the device had received when it opened, and the sender at that moment.
\<close>

record 'w caster =
  cn_tx :: ntrip_tx
  cn_world :: "'w \<times> int list"
  cn_open :: bool
  cn_start :: nat
  cn_base :: ntrip_tx

text \<open>
  The bytes received are ghosts too: those since the last reset of the receiver, and before it one
  stream for each reset, oldest first.
\<close>

record 'w data_path =
  dp_uart :: uart
  dp_past :: "u8 list list"
  dp_stream :: "u8 list"
  dp_caster :: "nat \<Rightarrow> 'w caster"

text \<open>The frames of the bytes received, as the specification scanner finds them in each stream.\<close>

definition path_frames :: "u8 list list \<Rightarrow> u8 list \<Rightarrow> u8 list list" where
  "path_frames past bs = concat (map (\<lambda>xs. sc_frames (rtcm_scan xs)) past) @ sc_frames (rtcm_scan bs)"

abbreviation received :: "'w data_path \<Rightarrow> u8 list list" where
  "received s \<equiv> path_frames (dp_past s) (dp_stream s)"

abbreviation the_ring :: "'w data_path \<Rightarrow> ntrip_ring" where
  "the_ring s \<equiv> g_frame_ring (ua_server (dp_uart s))"

text \<open>What the other tasks leave alone: the buffer of the reading task, the parser, the ring and its mutex.\<close>

definition ingest_same :: "uart \<Rightarrow> uart \<Rightarrow> bool" where
  "ingest_same u u' \<longleftrightarrow> ua_buffer u' = ua_buffer u \<and>
     g_ring_mutex (ua_server u') = g_ring_mutex (ua_server u) \<and>
     g_rtcm_parser (ua_server u') = g_rtcm_parser (ua_server u) \<and>
     g_frame_ring (ua_server u') = g_frame_ring (ua_server u) \<and>
     s_ingest_reset_req (ua_server u') = s_ingest_reset_req (ua_server u)"

text \<open>
  The start as in \<open>app_main\<close>: the ingest is initialised before \<open>uart_init\<close> starts the reading task. The
  senders are in their initial state and no connection is open.
\<close>

definition path_start :: "'s nvs \<Rightarrow> 's \<Rightarrow> 'w data_path \<Rightarrow> bool" where
  "path_start nvs st s \<longleftrightarrow>
     (\<exists>g n ok. uart_init nvs st ok (uart_zero g (ntrip_server_ingest_init True (server_boot n))) = Some (dp_uart s)) \<and>
     dp_past s = [] \<and> dp_stream s = [] \<and>
     (\<forall>i. cn_tx (dp_caster s i) = ntrip_tx_init \<and> \<not> cn_open (dp_caster s i))"

definition upd_caster :: "nat \<Rightarrow> 'w caster \<Rightarrow> 'w data_path \<Rightarrow> 'w data_path" where
  "upd_caster i c s = s\<lparr>dp_caster := (dp_caster s)(i := c)\<rparr>"

text \<open>
  One step of one task: a chunk is read, the receiver is reset (the parser drops what it holds with the
  next chunk), a task that is not on the path does something, a caster connects, polls or disconnects.
\<close>

inductive path_step :: "'w send_fn \<Rightarrow> ('w \<Rightarrow> u8 list) \<Rightarrow> 'w data_path \<Rightarrow> 'w data_path \<Rightarrow> bool"
  for send :: "'w send_fn" and wire :: "'w \<Rightarrow> u8 list" where
  serial: "length (bytes_read k) < UART_BUFFER_SIZE \<Longrightarrow> uart_task_step k (dp_uart s) = Some u \<Longrightarrow>
    path_step send wire s (s\<lparr>dp_uart := u, dp_stream := dp_stream s @ bytes_read k\<rparr>)"
| receiver_reset: "path_step send wire s
    (s\<lparr>dp_uart := (dp_uart s)\<lparr>ua_server := ntrip_server_msg_epoch_reset now (ua_server (dp_uart s))\<rparr>,
       dp_past := dp_past s @ [dp_stream s], dp_stream := []\<rparr>)"
| others: "ingest_same (dp_uart s) u \<Longrightarrow> path_step send wire s (s\<lparr>dp_uart := u\<rparr>)"
| connect: "wire w = [] \<Longrightarrow> tx = ntrip_tx_reset_conn (cn_tx (dp_caster s i)) (the_ring s) now \<Longrightarrow>
    path_step send wire s (upd_caster i \<lparr>cn_tx = tx, cn_world = (w, nt), cn_open = True,
      cn_start = length (received s), cn_base = tx\<rparr> s)"
| poll: "cn_open (dp_caster s i) \<Longrightarrow>
    ntrip_tx_poll (cn_tx (dp_caster s i)) (the_ring s) now NTRIP_TX_MAX_SENDS_PER_POLL NTRIP_TX_STALE_DROP_MS
      (ntrip_server_sock_send send) (cn_world (dp_caster s i)) = Some (res, tx, w) \<Longrightarrow>
    path_step send wire s (upd_caster i ((dp_caster s i)\<lparr>cn_tx := tx, cn_world := w, cn_open := (res \<noteq> POLL_ERROR)\<rparr>) s)"
| disconnect: "path_step send wire s
    (upd_caster i ((dp_caster s i)\<lparr>cn_tx := (ntrip_tx_abort (cn_tx (dp_caster s i)))\<lparr>t_reconnects := m\<rparr>, cn_open := False\<rparr>) s)"

inductive_cases path_stepE: "path_step send wire s t"

section \<open>The invariant\<close>

text \<open>A caster agrees with the log, and while it is open the stack's count of accepted bytes is the wire.\<close>

definition caster_ok :: "('w \<Rightarrow> u8 list) \<Rightarrow> frame_log \<Rightarrow> 'w caster \<Rightarrow> bool" where
  "caster_ok wire L c \<longleftrightarrow> (\<exists>k. sender_ok L (cn_tx c) k \<and>
     (cn_open c \<longrightarrow> on_wire L (cn_start c) k (cn_tx c) (wire (fst (cn_world c))) \<and>
        sender_ok L (cn_base c) (cn_start c) \<and> t_current_len (cn_base c) \<le> t_current_off (cn_base c) \<and>
        t_accepted_to_lwip (cn_tx c) = t_accepted_to_lwip (cn_base c) + of_nat (length (wire (fst (cn_world c))))))"

definition path_log :: "('w \<Rightarrow> u8 list) \<Rightarrow> 'w data_path \<Rightarrow> frame_log \<Rightarrow> bool" where
  "path_log wire s L \<longleftrightarrow> uart_ok (dp_uart s) L \<and> map fst L = received s \<and>
     held (ua_server (dp_uart s)) = sc_rest (rtcm_scan (dp_stream s)) \<and> (\<forall>i. caster_ok wire L (dp_caster s i))"

definition path_inv :: "'w send_fn \<Rightarrow> ('w \<Rightarrow> u8 list) \<Rightarrow> 'w data_path \<Rightarrow> bool" where
  "path_inv send wire s \<longleftrightarrow> (stream_socket send wire \<longrightarrow> length (received s) < 2 ^ 32 \<longrightarrow> (\<exists>L. path_log wire s L))"

lemma uart_init_ok: "uart_init nvs st ok u = Some u' \<Longrightarrow> uart_ok u L \<Longrightarrow> uart_ok u' L \<and> ua_server u' = ua_server u"
  by (auto simp: uart_init_def uart_ok_def drv_uart_usbc_init_def drv_uart_usbc_read_set_cb_def Let_def split: if_splits)

lemma start_held: "held (ntrip_server_ingest_init True (server_boot n)) = []"
  by (simp add: held_def ntrip_server_ingest_init_def server_boot_def parser_init_ok)

lemma path_start_log: "path_start nvs st s \<Longrightarrow> path_log wire s []"
  using uart_zero_ok uart_init_ok tx_init_ok start_held
  by (fastforce simp: path_start_def path_log_def caster_ok_def path_frames_def sc_defs uart_zero_def)

lemma path_frames_append:
  "path_frames past (xs @ ys) = path_frames past xs @ sc_frames (rtcm_scan (sc_rest (rtcm_scan xs) @ ys))"
  by (simp add: path_frames_def rtcm_scan_append [of xs ys] sc_join_def)

lemma path_frames_reset: "path_frames (past @ [xs]) [] = path_frames past xs"
  by (simp add: path_frames_def sc_defs)

lemma caster_log_grows:
  assumes "caster_ok wire L c" shows "caster_ok wire (L @ es) c"
proof -
  obtain k where k: "sender_ok L (cn_tx c) k"
    "cn_open c \<longrightarrow> on_wire L (cn_start c) k (cn_tx c) (wire (fst (cn_world c))) \<and>
        sender_ok L (cn_base c) (cn_start c) \<and> t_current_len (cn_base c) \<le> t_current_off (cn_base c) \<and>
        t_accepted_to_lwip (cn_tx c) = t_accepted_to_lwip (cn_base c) + of_nat (length (wire (fst (cn_world c))))"
    using assms by (auto simp: caster_ok_def)
  have "k \<le> length L" using k(1) by (simp add: sender_ok_def tx_at_def)
  then show ?thesis unfolding caster_ok_def
    using k log_grows wire_log_grows by (intro exI [of _ k]) blast
qed

text \<open>What each of the steps of a caster keeps.\<close>

lemma caster_connect_ok:
  assumes "ring_holds r L" "length L < 2 ^ 32" "caster_ok wire L c" "wire w = []"
    and tx: "tx = ntrip_tx_reset_conn (cn_tx c) r now"
  shows "caster_ok wire L \<lparr>cn_tx = tx, cn_world = (w, nt), cn_open = True, cn_start = length L, cn_base = tx\<rparr>"
proof -
  obtain k where "sender_ok L (cn_tx c) k" using assms(3) by (auto simp: caster_ok_def)
  note ok = reset_conn_ok [OF assms(1,2) this, of now, folded tx]
  have "t_current_len tx \<le> t_current_off tx" by (simp add: tx ntrip_tx_reset_conn_def ntrip_tx_abort_def Let_def)
  with ok assms(4) show ?thesis by (auto simp: caster_ok_def)
qed

lemma caster_poll_ok:
  assumes "ring_holds r L" "length L < 2 ^ 32" "caster_ok wire L c" "stream_socket send wire" "cn_open c"
    and p: "ntrip_tx_poll (cn_tx c) r now n stale (ntrip_server_sock_send send) (cn_world c) = Some (res, tx, w)"
  shows "caster_ok wire L (c\<lparr>cn_tx := tx, cn_world := w, cn_open := (res \<noteq> POLL_ERROR)\<rparr>)"
proof -
  obtain k where k: "sender_ok L (cn_tx c) k" "on_wire L (cn_start c) k (cn_tx c) (wire (fst (cn_world c)))"
    "sender_ok L (cn_base c) (cn_start c)" "t_current_len (cn_base c) \<le> t_current_off (cn_base c)"
    "t_accepted_to_lwip (cn_tx c) = t_accepted_to_lwip (cn_base c) + of_nat (length (wire (fst (cn_world c))))"
    using assms(3,5) by (auto simp: caster_ok_def)
  obtain res' tx' w' k' where q: "ntrip_tx_poll (cn_tx c) r now n stale (ntrip_server_sock_send send) (cn_world c) = Some (res', tx', w')"
    "sender_ok L tx' k'"
    "res' \<noteq> POLL_ERROR \<longrightarrow> (\<forall>start. on_wire L start k (cn_tx c) (wire (fst (cn_world c))) \<longrightarrow> on_wire L start k' tx' (wire (fst w')))"
    by (rule ntrip_tx_poll_ok [OF assms(1,2) sock_send_stream [OF assms(4)] k(1), of now n stale "cn_world c"])
  obtain new where "noted wire (cn_world c) w new" "t_accepted_to_lwip tx = t_accepted_to_lwip (cn_tx c) + of_int (sum_list new)"
    using poll_rounds_noted [OF assms(4)] p unfolding ntrip_tx_poll_def by blast
  then have "(of_nat (length (wire (fst w))) :: u64) = of_nat (length (wire (fst (cn_world c)))) + of_int (sum_list new)"
    by (metis noted_def of_int_add of_int_of_nat_eq)
  then have "t_accepted_to_lwip tx = t_accepted_to_lwip (cn_base c) + of_nat (length (wire (fst w)))"
    using \<open>t_accepted_to_lwip tx = _\<close> k(5) by simp
  with p q k(2,3,4) show ?thesis by (auto simp: caster_ok_def intro!: exI [of _ k'])
qed

lemma caster_disconnect_ok:
  "caster_ok wire L c \<Longrightarrow> caster_ok wire L (c\<lparr>cn_tx := (ntrip_tx_abort (cn_tx c))\<lparr>t_reconnects := m\<rparr>, cn_open := False\<rparr>)"
  using abort_ok errno_ok(3) by (fastforce simp: caster_ok_def)

lemma path_log_ring: "path_log wire s L \<Longrightarrow> ring_holds (the_ring s) L" "path_log wire s L \<Longrightarrow> length L = length (received s)"
  by (simp_all add: path_log_def uart_ok_def) (metis length_map)

lemma path_log_caster:
  "path_log wire s L \<Longrightarrow> caster_ok wire L c \<Longrightarrow> path_log wire (upd_caster i c s) L"
  by (simp add: path_log_def upd_caster_def)

lemma path_log_serial:
  assumes "path_log wire s L" "length (bytes_read k) < UART_BUFFER_SIZE" "uart_task_step k (dp_uart s) = Some u"
  shows "\<exists>L. path_log wire (s\<lparr>dp_uart := u, dp_stream := dp_stream s @ bytes_read k\<rparr>) L"
proof -
  have ok: "uart_ok (dp_uart s) L" and h: "held (ua_server (dp_uart s)) = sc_rest (rtcm_scan (dp_stream s))"
    and L: "map fst L = received s" using assms(1) by (simp_all add: path_log_def)
  have "uart_after [k] (dp_uart s) L u" using uart_step_after [OF ok assms(2)] assms(3) by auto
  then obtain L' where L': "uart_ok u (L @ L')" "map fst L' = sc_frames (rtcm_scan (sc_rest (rtcm_scan (dp_stream s)) @ bytes_read k))"
    "held (ua_server u) = sc_rest (rtcm_scan (sc_rest (rtcm_scan (dp_stream s)) @ bytes_read k))"
    by (auto simp: uart_after_def stream_of_def h)
  then have "path_log wire (s\<lparr>dp_uart := u, dp_stream := dp_stream s @ bytes_read k\<rparr>) (L @ L')"
    using assms(1) L caster_log_grows [of wire L _ L']
    by (auto simp: path_log_def path_frames_append rtcm_scan_append [of "dp_stream s"] sc_join_def)
  then show ?thesis ..
qed

lemma path_log_reset:
  assumes "path_log wire s L"
  shows "path_log wire (s\<lparr>dp_uart := (dp_uart s)\<lparr>ua_server := ntrip_server_msg_epoch_reset now (ua_server (dp_uart s))\<rparr>,
     dp_past := dp_past s @ [dp_stream s], dp_stream := []\<rparr>) L"
  using assms by (simp add: path_log_def uart_ok_def ntrip_server_msg_epoch_reset_def Let_def held_def path_frames_reset sc_defs)

lemma ingest_same_held: "ingest_same u u' \<Longrightarrow> held (ua_server u') = held (ua_server u)"
  by (simp add: ingest_same_def held_def)

lemma ingest_same_ok: "ingest_same u u' \<Longrightarrow> uart_ok u L \<Longrightarrow> uart_ok u' L"
  by (simp add: ingest_same_def uart_ok_def)

lemma path_log_others: "path_log wire s L \<Longrightarrow> ingest_same (dp_uart s) u \<Longrightarrow> path_log wire (s\<lparr>dp_uart := u\<rparr>) L"
  by (simp add: path_log_def ingest_same_held ingest_same_ok)

lemma received_grows: "path_step send wire s t \<Longrightarrow> length (received s) \<le> length (received t)"
  by (cases rule: path_step.cases) (auto simp: path_frames_append path_frames_reset upd_caster_def)

lemma path_step_log:
  assumes "stream_socket send wire" "length (received s) < 2 ^ 32" "path_log wire s L" "path_step send wire s t"
  shows "\<exists>L. path_log wire t L"
proof -
  note ring = path_log_ring [OF assms(3)]
  have c: "caster_ok wire L (dp_caster s i)" for i using assms(3) by (simp add: path_log_def)
  have len: "length L < 2 ^ 32" using ring(2) assms(2) by simp
  from assms(4) show ?thesis
  proof cases
    case (serial k u)
    then show ?thesis using path_log_serial [OF assms(3)] by simp
  next
    case (receiver_reset now)
    then show ?thesis using path_log_reset [OF assms(3)] by blast
  next
    case (others u)
    then show ?thesis using path_log_others [OF assms(3)] by blast
  next
    case (connect w tx i now nt)
    then show ?thesis using path_log_caster [OF assms(3) caster_connect_ok [OF ring(1) len c connect(2,3)]] ring(2) by auto
  next
    case (poll i now res tx w)
    then show ?thesis using path_log_caster [OF assms(3) caster_poll_ok [OF ring(1) len c assms(1) poll(2,3)]] by blast
  next
    case (disconnect i m)
    then show ?thesis using path_log_caster [OF assms(3) caster_disconnect_ok [OF c]] by blast
  qed
qed

interpretation path_machine: machine_invariant "path_start nvs st" "path_step send wire" "path_inv send wire"
  for nvs :: "'s nvs" and st and send :: "'w send_fn" and wire
proof unfold_locales
  show "path_inv send wire s" if "path_start nvs st s" for s
    using path_start_log [OF that] by (auto simp: path_inv_def)
  show "path_inv send wire t" if "path_inv send wire s" "path_step send wire s t" for s t
    using that path_step_log received_grows [OF that(2)] unfolding path_inv_def by (meson le_less_trans)
qed

lemma path_reach_log:
  assumes "stream_socket send wire" "reach (path_start nvs st) (path_step send wire) s" "length (received s) < 2 ^ 32"
  obtains L where "path_log wire s L"
  using path_machine.reach_inv [OF assms(2)] assms(1,3) by (auto simp: path_inv_def)

section \<open>From the serial port to the casters\<close>

text \<open>C2: From the serial port to the caster. In every state the reading task, resets of the receiver, the other
  tasks and any number of casters can reach, before the ring's sequence number wraps: what an open
  connection has put on the wire is a sequence of whole frames and the first bytes of one more, all of them
  CRC-valid frames of the bytes read from the serial port, received after the connection opened and sent in the order of
  their arrival. This holds however the bytes were cut into chunks, whatever read errors and refused
  posts lie between them, and whatever the sockets of this and the other casters answer.\<close>

theorem serial_to_caster:
  assumes "stream_socket send wire" and "reach (path_start nvs st) (path_step send wire) s"
    and "length (received s) < 2 ^ 32" and "cn_open (dp_caster s i)"
  shows "\<exists>fs. subseq (fs @ map fst (tx_current (cn_tx (dp_caster s i)))) (drop (cn_start (dp_caster s i)) (received s)) \<and>
    wire (fst (cn_world (dp_caster s i))) = concat fs @ tx_partial (cn_tx (dp_caster s i))"
proof -
  obtain L where L: "path_log wire s L" using path_reach_log [OF assms(1-3)] .
  then obtain k fs where k: "subseq (fs @ tx_current (cn_tx (dp_caster s i))) (drop (cn_start (dp_caster s i)) (take k L))"
    "wire (fst (cn_world (dp_caster s i))) = concat (map fst fs) @ tx_partial (cn_tx (dp_caster s i))" "k \<le> length L"
    using assms(4) by (fastforce simp: path_log_def caster_ok_def on_wire_def sender_ok_def tx_at_def)
  have "subseq (map fst (fs @ tx_current (cn_tx (dp_caster s i)))) (map fst (drop (cn_start (dp_caster s i)) L))"
    using subseq_map [OF subseq_drop_take_mono [OF k(1,3)], of fst] by simp
  moreover have "map fst (drop (cn_start (dp_caster s i)) L) = drop (cn_start (dp_caster s i)) (received s)"
    using L by (simp add: path_log_def drop_map [symmetric])
  ultimately show ?thesis using k(2) by (intro exI [of _ "map fst fs"]) simp
qed

text \<open>What is left to send of the current frame, and the bytes a sender gave up.\<close>

definition tx_rest :: "ntrip_tx \<Rightarrow> u8 list" where
  "tx_rest tx = (if t_current_off tx < t_current_len tx
     then drop (t_current_off tx) (take (t_current_len tx) (t_current tx)) else [])"

definition given_up :: "ntrip_tx \<Rightarrow> u64" where
  "given_up tx = t_skipped_bytes tx + t_dropped_stale_bytes tx + t_dropped_bytes tx"

lemma subseq_all:
  assumes "subseq xs ys" "log_bytes xs = log_bytes ys" "\<forall>e \<in> set ys. fst e \<noteq> []"
  shows "xs = ys"
proof -
  have "log_bytes xs \<le> log_bytes ys \<and> (log_bytes xs = log_bytes ys \<longrightarrow> xs = ys)"
    using assms(1,3)
  proof (induction rule: list_emb.induct)
    case (list_emb_Nil ys)
    then show ?case by (cases ys) auto
  next
    case (list_emb_Cons xs ys y)
    have "0 < length (fst y)" using list_emb_Cons.prems by simp
    with list_emb_Cons show ?case by (cases y) auto
  next
    case (list_emb_Cons2 x y xs ys)
    then show ?case by (cases y) auto
  qed
  with assms(2) show ?thesis by simp
qed

lemma subseq_bytes: "subseq xs ys \<Longrightarrow> log_bytes xs \<le> log_bytes ys"
  by (induction rule: list_emb.induct) (auto simp: log_bytes_def)

lemma log_bytes_bound: "\<forall>e \<in> set L. length (fst e) \<le> b \<Longrightarrow> log_bytes L \<le> length L * b"
  by (induction L) (auto simp: log_bytes_def)

lemma log_bytes_concat: "log_bytes L = length (concat (map fst L))"
  by (induction L) (auto simp: log_bytes_def)

lemma u64_of_nat_inj: "a < 2 ^ 64 \<Longrightarrow> b < 2 ^ 64 \<Longrightarrow> (of_nat a :: u64) = of_nat b \<longleftrightarrow> a = b"
  by (simp add: word_of_nat_eq_iff take_bit_nat_eq_self)

text \<open>The byte balance of one connection: what came from the ring went to the wire, is pending or was given up.\<close>

lemma connection_bytes:
  assumes "sender_ok L tx k" "sender_ok L base start" "start \<le> k" "t_current_len base \<le> t_current_off base"
    and "t_accepted_to_lwip tx = t_accepted_to_lwip base + of_nat n" "given_up tx = given_up base"
  shows "(of_nat (log_bytes (drop start (take k L))) :: u64) = of_nat n + of_nat (t_current_len tx - t_current_off tx)"
proof -
  have b: "t_cum_through tx = of_nat (log_bytes (take k L))" "t_cum_through base = of_nat (log_bytes (take start L))"
    using assms(1,2) by (simp_all add: sender_ok_def tx_at_def)
  have "(of_nat (log_bytes (take k L)) :: u64) = of_nat (log_bytes (take start L)) + of_nat (log_bytes (drop start (take k L)))"
    by (simp add: log_bytes_drop_take [OF assms(3), of L])
  then have d: "(of_nat (log_bytes (drop start (take k L))) :: u64) = t_cum_through tx - t_cum_through base" using b by simp
  have p: "t_cum_through tx = t_accepted_to_lwip tx + of_nat (t_current_len tx - t_current_off tx) + given_up tx"
    using assms(1) by (simp add: sender_ok_def tx_balanced_def given_up_def)
  have q: "t_cum_through base = t_accepted_to_lwip base + given_up base"
    using assms(2,4) by (simp add: sender_ok_def tx_balanced_def given_up_def)
  show ?thesis unfolding d p q assms(5,6) by simp
qed

text \<open>C3: Nothing is lost without being counted. When an open connection has given up no byte since it
  opened (its counters of skipped, stale and dropped bytes are those of its start), the caster got every
  CRC-valid frame the device received after the connection opened, up to the cursor of the sender and in order: the
  wire and the rest of the current frame are exactly these frames. With the cursor at the end of the ring and
  nothing pending, the wire is all of them.\<close>

theorem caster_gets_every_frame:
  assumes "stream_socket send wire" and "reach (path_start nvs st) (path_step send wire) s"
    and "length (received s) < 2 ^ 32" and "cn_open (dp_caster s i)"
    and "given_up (cn_tx (dp_caster s i)) = given_up (cn_base (dp_caster s i))"
  shows "wire (fst (cn_world (dp_caster s i))) @ tx_rest (cn_tx (dp_caster s i)) =
      concat (drop (cn_start (dp_caster s i)) (take (unat (t_cursor_seq (cn_tx (dp_caster s i)))) (received s))) \<and>
    (t_cursor_seq (cn_tx (dp_caster s i)) = r_next_seq (the_ring s) \<longrightarrow> tx_rest (cn_tx (dp_caster s i)) = [] \<longrightarrow>
      wire (fst (cn_world (dp_caster s i))) = concat (drop (cn_start (dp_caster s i)) (received s)))"
proof -
  let ?c = "dp_caster s i"
  let ?tx = "cn_tx ?c"
  obtain L where L: "path_log wire s L" using path_reach_log [OF assms(1-3)] .
  note ring = path_log_ring [OF L]
  obtain k fs where k: "sender_ok L ?tx k" "cn_start ?c \<le> k" "k \<le> length L"
    "subseq (fs @ tx_current ?tx) (drop (cn_start ?c) (take k L))" "wire (fst (cn_world ?c)) = concat (map fst fs) @ tx_partial ?tx"
    "sender_ok L (cn_base ?c) (cn_start ?c)" "t_current_len (cn_base ?c) \<le> t_current_off (cn_base ?c)"
    "t_accepted_to_lwip ?tx = t_accepted_to_lwip (cn_base ?c) + of_nat (length (wire (fst (cn_world ?c))))"
    using L assms(4) by (fastforce simp: path_log_def caster_ok_def on_wire_def sender_ok_def tx_at_def)
  let ?sent = "fs @ tx_current ?tx" and ?due = "drop (cn_start ?c) (take k L)"
  have tx: "length (t_current ?tx) = RTCM_MAX_FRAME_B" "t_current_len ?tx \<le> RTCM_MAX_FRAME_B"
    using k(1) by (simp_all add: sender_ok_def tx_at_def)
  have sent: "wire (fst (cn_world ?c)) @ tx_rest ?tx = concat (map fst ?sent)"
    by (simp add: k(5) tx_partial_def tx_rest_def tx_current_def) (metis append_take_drop_id less_imp_le min_absorb1 take_take)
  have rest: "length (tx_rest ?tx) = t_current_len ?tx - t_current_off ?tx" using tx by (simp add: tx_rest_def)
  have frames: "\<forall>e \<in> set L. frame_len_ok (fst e)" using ring(1) by (auto simp: ring_holds_def)
  have due: "\<forall>e \<in> set ?due. frame_len_ok (fst e)" using frames by (meson in_set_dropD in_set_takeD)
  have bound: "log_bytes ?due < 2 ^ 64"
    using log_bytes_bound [of ?due 1029] due k(3) ring(2) assms(3) by (auto simp: frame_len_ok_def)
  have "(of_nat (log_bytes ?due) :: u64) = of_nat (length (wire (fst (cn_world ?c)) @ tx_rest ?tx))"
    using connection_bytes [OF k(1,6,2,7,8) assms(5)] rest by simp
  then have "(of_nat (log_bytes ?due) :: u64) = of_nat (log_bytes ?sent)" by (simp only: sent log_bytes_concat)
  then have "log_bytes ?sent = log_bytes ?due" using bound subseq_bytes [OF k(4)]
    by (subst u64_of_nat_inj [symmetric]) simp_all
  moreover have "\<forall>e \<in> set ?due. fst e \<noteq> []" using due by (auto simp: frame_len_ok_def)
  ultimately have "?sent = ?due" using subseq_all [OF k(4)] by blast
  then have all: "wire (fst (cn_world ?c)) @ tx_rest ?tx = concat (drop (cn_start ?c) (take k (received s)))"
    using sent L by (simp add: path_log_def drop_map [symmetric] take_map [symmetric])
  have kc: "k = unat (t_cursor_seq ?tx)" using k(1) tx_at_k [of ?tx L k] ring(2) assms(3) by (simp add: sender_ok_def)
  have "k = length (received s)" if "t_cursor_seq ?tx = r_next_seq (the_ring s)"
    using that kc ring assms(3) by (simp add: ring_holds_def)
  with all kc show ?thesis by auto
qed

text \<open>When a sender gives up nothing: it is polled before it is lapped and before a waiting frame is stale.\<close>

lemma copy_next_given_up:
  assumes "ring_holds r L" "length L < 2 ^ 32" "sender_ok L tx k" "length L \<le> k + RTCM_RING_SLOTS"
    and "\<forall>e \<in> set (drop k L). \<not> is_stale now stale e" and "tx_copy_next tx r now stale = Some (b, tx')"
  shows "given_up tx' = given_up tx"
proof -
  have at: "tx_at tx L k" using assms(3) by (simp add: sender_ok_def)
  have m: "lost_to L k = k" using assms(4) by (simp add: lost_to_def)
  have "takeWhile (is_stale now stale) (drop k L) = []" using assms(5) by (cases "drop k L") auto
  then have j: "first_fresh now stale L k = k" by (simp add: first_fresh_def)
  show ?thesis using assms(6) unfolding tx_copy_next_spec [OF assms(1,2) at] m
    by (auto simp: j Let_def given_up_def tx_load_def tx_drop_stale_def tx_skip_def split: if_splits)
qed

lemma after_send_given_up:
  "tx_after_send tx now n err = (r, tx') \<Longrightarrow> r \<noteq> Some POLL_ERROR \<Longrightarrow> given_up tx' = given_up tx"
  by (auto simp: tx_after_send_def given_up_def Let_def split: if_splits)

lemma poll_rounds_given_up:
  assumes "ring_holds r L" "length L < 2 ^ 32" "stream_socket send wire"
  shows "sender_ok L tx k \<Longrightarrow> length L \<le> k + RTCM_RING_SLOTS \<Longrightarrow> \<forall>e \<in> set (drop k L). \<not> is_stale now stale e \<Longrightarrow>
    tx_poll_rounds n result tx r now stale send w = Some (res, tx', w') \<Longrightarrow> res \<noteq> POLL_ERROR \<Longrightarrow> given_up tx' = given_up tx"
proof (induction n arbitrary: result tx w k)
  case 0
  then show ?case by simp
next
  case (Suc n)
  obtain b tx1 where c: "(if t_current_off tx \<ge> t_current_len tx then tx_copy_next tx r now stale else Some (True, tx)) = Some (b, tx1)"
    using Suc.prems(4) by (cases "if t_current_off tx \<ge> t_current_len tx then tx_copy_next tx r now stale else Some (True, tx)") auto
  have g1: "given_up tx1 = given_up tx"
    using c copy_next_given_up [OF assms(1,2) Suc.prems(1-3)] by (auto split: if_splits)
  obtain k1 where k1: "sender_ok L tx1 k1" "k \<le> k1" "b \<longleftrightarrow> t_current_off tx1 < t_current_len tx1"
  proof (cases "t_current_len tx \<le> t_current_off tx")
    case True
    obtain b' tx1' k1 where "tx_copy_next tx r now stale = Some (b', tx1')" "sender_ok L tx1' k1" "k \<le> k1"
        "b' \<longleftrightarrow> t_current_off tx1' < t_current_len tx1'"
      by (rule tx_copy_next_ok [OF assms(1,2) Suc.prems(1) True, of now stale])
    with True c show ?thesis by (intro that) auto
  next
    case False
    with c Suc.prems(1) show ?thesis by (intro that [of k]) auto
  qed
  show ?case
  proof (cases b)
    case False
    then show ?thesis using Suc.prems(4) c g1 by simp
  next
    case True
    define buf where "buf = take (t_current_len tx1 - t_current_off tx1) (drop (t_current_off tx1) (t_current tx1))"
    have rd: "mem_read (t_current tx1) (t_current_off tx1)
        (to_size (int (t_current_len tx1) - int (t_current_off tx1))) = Some buf"
      using True k1(1,3) by (simp add: buf_def sender_ok_def tx_at_def)
    obtain m err w1 where snd: "send w buf = (m, err, w1)" by (metis prod_cases3)
    have so: "m \<le> int (t_current_len tx1 - t_current_off tx1)"
    proof -
      have "m \<le> int (length buf)" using assms(3) snd unfolding stream_socket_def by (metis (mono_tags, lifting) case_prod_conv)
      then show ?thesis by (simp add: buf_def)
    qed
    obtain x tx2 where x: "tx_after_send tx1 now m err = (x, tx2)" by (cases "tx_after_send tx1 now m err")
    show ?thesis
    proof (cases x)
      case (Some y)
      then have "tx' = tx2" "res = y" using Suc.prems(4) c True rd snd x by simp_all
      then show ?thesis using after_send_given_up [OF x] Suc.prems(5) Some g1 by simp
    next
      case None
      then have m: "0 < m" using x by (auto simp: tx_after_send_def split: if_splits)
      have off: "t_current_off tx1 < t_current_len tx1" using True k1(3) by simp
      obtain tx3 where "tx_after_send tx1 now m err = (None, tx3)" "sender_ok L tx3 k1"
        by (rule accept_ok [OF k1(1) off m so, of now err])
      then have ok2: "sender_ok L tx2 k1" using x by simp
      have sub: "set (drop k1 L) \<subseteq> set (drop k L)" by (rule set_drop_subset_set_drop [OF k1(2)])
      have p: "tx_poll_rounds n POLL_PROGRESS tx2 r now stale send w1 = Some (res, tx', w')"
        using Suc.prems(4) c True rd snd x None by simp
      have "given_up tx' = given_up tx2"
        by (rule Suc.IH [OF ok2 _ _ p Suc.prems(5)]) (use Suc.prems(2,3) k1(2) sub in auto)
      then show ?thesis using after_send_given_up [OF x] None g1 by simp
    qed
  qed
qed

section \<open>A run of the path\<close>

text \<open>The device starts, a caster connects, the receiver sends one frame, and a poll puts all of it on the wire.\<close>

abbreviation demo_frame :: "u8 list" where "demo_frame \<equiv> encode_frame [1, 2]"

definition demo_caster :: "u8 list caster" where
  "demo_caster = \<lparr>cn_tx = ntrip_tx_init, cn_world = ([], []), cn_open = False, cn_start = 0, cn_base = ntrip_tx_init\<rparr>"

definition demo_tick :: tick where
  "demo_tick = \<lparr>tk_read = Read_Bytes demo_frame, tk_post_ok = True, tk_ms = 5, tk_us = 5000\<rparr>"

lemma demo_frame_length: "length demo_frame = 8"
  by (simp add: encode_frame_def Let_def)

lemma demo_frame_scan: "sc_frames (rtcm_scan demo_frame) = [demo_frame]"
  using rtcm_scan_encoded [of "[[1, 2]]" "[]"] by (simp add: sc_defs)

text \<open>A round with four bytes or more of a frame left, on a socket that takes four.\<close>

lemma slow_round:
  assumes "t_current_off tx + 4 \<le> t_current_len tx" "t_current_len tx \<le> 1029" "length (t_current tx) = 1029"
  shows "\<exists>w. tx_poll_rounds (Suc n) res tx r t stale (ntrip_server_sock_send slow_send) (bs, nt) =
    tx_poll_rounds n POLL_PROGRESS (snd (tx_after_send tx t 4 0)) r t stale (ntrip_server_sock_send slow_send)
      (bs @ take 4 (drop (t_current_off tx) (t_current tx)), w)"
proof -
  let ?buf = "take (t_current_len tx - t_current_off tx) (drop (t_current_off tx) (t_current tx))"
  have rd: "mem_read (t_current tx) (t_current_off tx) (to_size (int (t_current_len tx) - int (t_current_off tx))) = Some ?buf"
    using assms by simp
  have "min 4 (length ?buf) = 4" "take 4 ?buf = take 4 (drop (t_current_off tx) (t_current tx))"
    using assms by (auto simp: min_def)
  then have snd: "ntrip_server_sock_send slow_send (bs, nt) ?buf =
      (4, 0, bs @ take 4 (drop (t_current_off tx) (t_current tx)), nt @ [4])"
    by (simp add: ntrip_server_sock_send_def slow_send_def)
  have "fst (tx_after_send tx t 4 0) = None" by (simp add: tx_after_send_def Let_def)
  then have "tx_after_send tx t 4 0 = (None, snd (tx_after_send tx t 4 0))" by (metis prod.collapse)
  then show ?thesis using assms(1) rd snd by (auto intro!: exI [of _ "nt @ [4]"] split: prod.splits)
qed

lemma demo_poll:
  assumes "ring_holds r [(demo_frame, t)]" "sender_ok [(demo_frame, t)] tx 0" "t_current_len tx \<le> t_current_off tx"
  shows "\<exists>tx' w. ntrip_tx_poll tx r t NTRIP_TX_MAX_SENDS_PER_POLL NTRIP_TX_STALE_DROP_MS (ntrip_server_sock_send slow_send) ([], nt)
    = Some (POLL_PROGRESS, tx', demo_frame, w)"
proof -
  let ?L = "[(demo_frame, t)]"
  define tx1 where "tx1 = tx_load (tx_drop_stale (tx_skip tx ?L 0 0) ?L 0 0) ?L t 0"
  define tx2 where "tx2 = snd (tx_after_send tx1 t 4 0)"
  have at: "tx_at tx ?L 0" using assms(2) by (simp add: sender_ok_def)
  then have len: "length (t_current tx) = 1029" by (simp add: tx_at_def)
  have c: "tx_copy_next tx r t 2000 = Some (True, tx1)"
    using tx_copy_next_spec [OF assms(1) _ at, of t 2000]
    by (simp add: lost_to_def first_fresh_def is_stale_def Let_def tx1_def)
  have t1: "t_current_off tx1 = 0" "t_current_len tx1 = 8" "length (t_current tx1) = 1029" "take 8 (t_current tx1) = demo_frame"
    using len by (simp_all add: tx1_def tx_load_def tx_drop_stale_def tx_skip_def demo_frame_length Let_def)
  have t2: "t_current_off tx2 = 4" "t_current_len tx2 = 8" "t_current tx2 = t_current tx1"
    using t1 by (simp_all add: tx2_def tx_after_send_def Let_def)
  have "take 4 (drop 0 (t_current tx1)) @ take 4 (drop 4 (t_current tx1)) = take (4 + 4) (t_current tx1)"
    by (simp only: take_add drop_0)
  then have halves: "take 4 (t_current tx1) @ take 4 (drop 4 (t_current tx1)) = demo_frame" using t1(4) by simp
  have load: "tx_poll_rounds (Suc n) res tx r t 2000 send w = tx_poll_rounds (Suc n) res tx1 r t 2000 send w"
    for n res w and send :: "'a send_fn" using c t1 assms(3) by simp
  obtain w1 where r1: "tx_poll_rounds (Suc (Suc 0)) POLL_IDLE tx1 r t 2000 (ntrip_server_sock_send slow_send) ([], nt) =
      tx_poll_rounds (Suc 0) POLL_PROGRESS tx2 r t 2000 (ntrip_server_sock_send slow_send) (take 4 (t_current tx1), w1)"
    using slow_round [of tx1 "Suc 0" POLL_IDLE r t 2000 "[]" nt] t1 unfolding tx2_def
    by (auto simp del: tx_poll_rounds.simps)
  obtain w2 where r2: "tx_poll_rounds (Suc 0) POLL_PROGRESS tx2 r t 2000 (ntrip_server_sock_send slow_send) (take 4 (t_current tx1), w1) =
      Some (POLL_PROGRESS, snd (tx_after_send tx2 t 4 0), demo_frame, w2)"
    using slow_round [of tx2 0 POLL_PROGRESS r t 2000 "take 4 (t_current tx1)" w1] t1 t2 halves by auto
  have "nat 2 = Suc (Suc 0)" by simp
  then show ?thesis unfolding ntrip_tx_poll_def using load r1 r2 by (metis (no_types))
qed

lemma demo_path:
  "\<exists>s. reach (path_start map_nvs Map.empty) (path_step slow_send (\<lambda>w. w)) s \<and> received s = [demo_frame] \<and>
     cn_open (dp_caster s 0) \<and> fst (cn_world (dp_caster s 0)) = demo_frame \<and>
     given_up (cn_tx (dp_caster s 0)) = given_up (cn_base (dp_caster s 0)) \<and> cn_start (dp_caster s 0) = 0"
proof -
  let ?st = "path_step slow_send (\<lambda>w. w)" and ?go = "reach (path_start map_nvs Map.empty)"
  obtain u where u: "uart_init map_nvs Map.empty (True, True, True)
      (uart_zero demo_gnss (ntrip_server_ingest_init True (server_boot 0))) = Some u"
    by (auto simp: uart_init_def Let_def)
  define s0 where "s0 = \<lparr>dp_uart = u, dp_past = [], dp_stream = [], dp_caster = (\<lambda>_. demo_caster)\<rparr>"
  define tx where "tx = ntrip_tx_reset_conn ntrip_tx_init (the_ring s0) 0"
  define s1 where "s1 = upd_caster 0 \<lparr>cn_tx = tx, cn_world = ([], []), cn_open = True,
    cn_start = length (received s0), cn_base = tx\<rparr> s0"
  have s0: "path_start map_nvs Map.empty s0" unfolding path_start_def
    by (intro conjI exI [of _ demo_gnss] exI [of _ 0] exI [of _ "(True, True, True)"]) (simp_all add: u s0_def demo_caster_def)
  have l0: "path_log (\<lambda>w. w) s0 []" using path_start_log [OF s0] .
  have r0: "received s0 = []" using l0 by (simp add: path_log_def)
  have go0: "?go ?st s0" by (rule reach.start, rule s0)
  have s1: "?go ?st s1" unfolding s1_def
    by (rule reach.move [OF go0], rule path_step.connect) (simp_all add: tx_def s0_def demo_caster_def)
  obtain L1 where L1: "path_log (\<lambda>w. w) s1 L1" using path_reach_log [OF slow_socket s1] r0 by (auto simp: s1_def upd_caster_def)
  moreover have "received s1 = []" using r0 by (simp add: s1_def upd_caster_def)
  ultimately have l1: "path_log (\<lambda>w. w) s1 []" by (auto simp: path_log_def)
  have short: "length (bytes_read demo_tick) < 4096" by (simp add: bytes_read_def demo_tick_def demo_frame_length)
  obtain u2 where u2: "uart_task_step demo_tick (dp_uart s1) = Some u2"
    using uart_step_after [OF _ short, of "dp_uart s1" "[]"] l1 by (auto simp: path_log_def)
  define s2 where "s2 = s1\<lparr>dp_uart := u2, dp_stream := dp_stream s1 @ bytes_read demo_tick\<rparr>"
  have s2: "?go ?st s2" unfolding s2_def by (rule reach.move [OF s1], rule path_step.serial [OF short u2])
  have r2: "received s2 = [demo_frame]"
    by (simp add: s2_def s1_def s0_def upd_caster_def path_frames_def bytes_read_def demo_tick_def demo_frame_scan)
  obtain L where L: "path_log (\<lambda>w. w) s2 L" using path_reach_log [OF slow_socket s2] r2 by auto
  then obtain t where t: "L = [(demo_frame, t)]" using r2 by (auto simp: path_log_def)
  have ring: "ring_holds (the_ring s2) [(demo_frame, t)]" using path_log_ring(1) [OF L] by (simp add: t)
  have c2: "dp_caster s2 0 = \<lparr>cn_tx = tx, cn_world = ([], []), cn_open = True, cn_start = 0, cn_base = tx\<rparr>"
    using r0 by (simp add: s2_def s1_def upd_caster_def)
  have "sender_ok [] tx 0" using reset_conn_ok(1) [OF _ _ tx_init_ok] path_log_ring(1) [OF l0] by (simp add: tx_def)
  then have ok: "sender_ok [(demo_frame, t)] tx 0" using log_grows [of "[]" tx 0 "[(demo_frame, t)]"] by simp
  have idle: "t_current_len tx \<le> t_current_off tx" by (simp add: tx_def ntrip_tx_reset_conn_def ntrip_tx_abort_def Let_def)
  obtain tx' w where p: "ntrip_tx_poll tx (the_ring s2) t 2 2000 (ntrip_server_sock_send slow_send) ([], []) =
      Some (POLL_PROGRESS, tx', demo_frame, w)"
    using demo_poll [OF ring ok idle] by blast
  have g: "given_up tx' = given_up tx"
    using poll_rounds_given_up [OF ring _ sock_send_stream [OF slow_socket] ok, of t 2000 "nat 2" POLL_IDLE "([], [])"] p
    unfolding ntrip_tx_poll_def by (simp add: is_stale_def)
  define s3 where "s3 = upd_caster 0 ((dp_caster s2 0)\<lparr>cn_tx := tx', cn_world := (demo_frame, w),
    cn_open := (POLL_PROGRESS \<noteq> POLL_ERROR)\<rparr>) s2"
  have "?go ?st s3" unfolding s3_def
    by (rule reach.move [OF s2], rule path_step.poll [where now = t]) (simp_all add: c2 p)
  moreover have "received s3 = [demo_frame]" using r2 by (simp add: s3_def upd_caster_def)
  ultimately show ?thesis using g by (intro exI [of _ s3]) (simp add: s3_def upd_caster_def c2)
qed

theorem serial_to_caster_witness:
  "\<exists>s fs. received s = [demo_frame] \<and> cn_open (dp_caster s 0) \<and> fst (cn_world (dp_caster s 0)) = demo_frame \<and>
     subseq (fs @ map fst (tx_current (cn_tx (dp_caster s 0)))) (drop (cn_start (dp_caster s 0)) (received s)) \<and>
     fst (cn_world (dp_caster s 0)) = concat fs @ tx_partial (cn_tx (dp_caster s 0))"
proof -
  obtain s where s: "reach (path_start map_nvs Map.empty) (path_step slow_send (\<lambda>w. w)) s" "received s = [demo_frame]"
    "cn_open (dp_caster s 0)" "fst (cn_world (dp_caster s 0)) = demo_frame" using demo_path by blast
  then have "length (received s) < 2 ^ 32" by simp
  from serial_to_caster [OF slow_socket s(1) this s(3)] s show ?thesis by blast
qed

theorem caster_gets_every_frame_witness:
  "\<exists>s. received s = [demo_frame] \<and> cn_open (dp_caster s 0) \<and> fst (cn_world (dp_caster s 0)) = demo_frame \<and>
     fst (cn_world (dp_caster s 0)) @ tx_rest (cn_tx (dp_caster s 0)) =
       concat (drop (cn_start (dp_caster s 0)) (take (unat (t_cursor_seq (cn_tx (dp_caster s 0)))) (received s)))"
proof -
  obtain s where s: "reach (path_start map_nvs Map.empty) (path_step slow_send (\<lambda>w. w)) s" "received s = [demo_frame]"
    "cn_open (dp_caster s 0)" "fst (cn_world (dp_caster s 0)) = demo_frame"
    "given_up (cn_tx (dp_caster s 0)) = given_up (cn_base (dp_caster s 0))" using demo_path by blast
  then have "length (received s) < 2 ^ 32" by simp
  from caster_gets_every_frame [OF slow_socket s(1) this s(3,5)] s show ?thesis by blast
qed

text \<open>The path is never stuck: every chunk is processed and every poll of every caster returns.\<close>

theorem path_never_stuck:
  assumes "stream_socket send wire" and "reach (path_start nvs st) (path_step send wire) s"
    and "length (received s) < 2 ^ 32" and "length (bytes_read k) < UART_BUFFER_SIZE"
  shows "(\<exists>u. uart_task_step k (dp_uart s) = Some u) \<and>
    (\<exists>res tx w. ntrip_tx_poll (cn_tx (dp_caster s i)) (the_ring s) now n stale (ntrip_server_sock_send send)
       (cn_world (dp_caster s i)) = Some (res, tx, w))"
proof
  obtain L where L: "path_log wire s L" using path_reach_log [OF assms(1-3)] .
  then show "\<exists>u. uart_task_step k (dp_uart s) = Some u"
    using uart_step_after [OF _ assms(4), of "dp_uart s" L] by (auto simp: path_log_def)
  have "length L < 2 ^ 32" using path_log_ring(2) [OF L] assms(3) by simp
  moreover obtain j where "sender_ok L (cn_tx (dp_caster s i)) j" using L by (auto simp: path_log_def caster_ok_def)
  ultimately show "\<exists>res tx w. ntrip_tx_poll (cn_tx (dp_caster s i)) (the_ring s) now n stale (ntrip_server_sock_send send)
       (cn_world (dp_caster s i)) = Some (res, tx, w)"
    using ntrip_tx_poll_ok [OF path_log_ring(1) [OF L] _ sock_send_stream [OF assms(1)]] by metis
qed

end
