(* ===== verification/Spec2Isabelle.thy ===== *)
theory Spec2Isabelle
  imports Tx_Core Uart Ntrip_Task Provisioning Ntrip_Ingest Config_Store Nmea_Util Ota_Confirm Ota_Install Dns_Server Web_Server Socket_Server
    Socket_Client Status_Led Board Boot Ota_Tasks Data_Path
begin

text \<open>
  Verification of the firmware of the RTKdata base station, an ESP32 that reads RTCM corrections from a UM980 receiver
  over a serial port and uploads them to up to ten NTRIP casters. The root collects the theories; each is named after
  the part of the program it models, and keeps the names of the C functions.

  \<^bold>\<open>The path of the data.\<close> \<open>Uart\<close> (\<open>src/main/uart.c\<close>, with the byte queue in \<open>Data_Queue\<close> and the totals of
  \<open>src/main/stream_stats.c\<close> in \<open>Stream_Stats\<close>) reads a chunk from the receiver and hands it, in this order, to the command
  acknowledgements and to the ingest. \<open>Ntrip_Ingest\<close> (the UART half of \<open>src/main/interface/ntrip_server.c\<close>) feeds the
  parser of \<open>src/main/interface/ntrip_tx_core.c\<close>: \<open>Rtcm_Crc\<close> is its checksum by table, \<open>Rtcm_Frame\<close> the frames and the specification
  scanner, \<open>Rtcm_Parser\<close> the incremental parser, \<open>Frame_Ring\<close> the ring of complete frames, \<open>Tx_Core\<close> the sender of one
  connection. \<open>Ntrip_Task\<close> is the task of one caster: settings, connection, handshake, the session that drains the
  ring, the clean-up. Shown: the parser finds exactly the frames the scanner finds, for any split of the stream into
  chunks; the ring is a bounded log; a connection carries whole frames only, its counters balance, and a lost one does not
  leave half a frame for the next; the bytes of the serial port reach the ring. \<open>Data_Path\<close> composes these parts: the
  reading task, resets of the receiver and any number of casters interleave on the shared ring. Shown: an open connection has
  sent only whole frames of the bytes read from the serial port, and all of them, when its counters of given up bytes stand
  still; they do when it is polled before it is lapped and before frames are stale.

  \<^bold>\<open>The receiver.\<close> \<open>Gnss_Ack\<close> (\<open>src/main/gnss_ack.c\<close>) decides on the echo of a command, \<open>Gnss_Control\<close> (\<open>src/main/gnss.c\<close>)
  sends commands with retries and keeps the base position. Shown: the base that was pushed is latched
  and stored, and pushing it again does nothing; an acknowledgement is accepted only from a complete line with
  a correct checksum that names the command sent after the capture began, the latched base mode is the one the receiver confirmed.

  \<^bold>\<open>Staying alive.\<close> \<open>Supervisor\<close> (\<open>src/main/supervisor.c\<close>) with its ladder of recoveries; \<open>Retry_Backoff\<close> (\<open>src/main/retry.c\<close>);
  \<open>Ota_Policy\<close>, \<open>Ota_Confirm\<close>, \<open>Ota_Install\<close>, \<open>Ota_Tasks\<close> (all \<open>src/main/update.c\<close>): the order of versions, the budget of attempts,
  the boot-loop guard, the health contract, the downloads, the checks and their tasks. Shown: an image boots only after it
  arrived and was written whole, and an opened update handle is closed once; it is confirmed only after three good checks in
  a row, or by one check ten minutes or more after boot that counts no uploader; it is rolled back only for a fault on
  this side; no version is tried more than three times; the factory image needs five faults and five faults reach it; a
  restart after saving the settings is none; when exactly the daily check restarts, and what the boot after it does. The
  supervisor's restarts are justified from the history of notes and heap readings since boot.

  \<^bold>\<open>Settings and the network.\<close> \<open>Config_Store\<close> (\<open>src/main/config.c\<close>) is the table of settings and its typed access over an
  abstract storage, whose laws are the predicate \<open>nvs_laws\<close>; \<open>Wifi\<close> (\<open>src/main/wifi.c\<close>) the access point with its auto-off and the
  station; \<open>Dns_Server\<close> (\<open>src/main/dns_server.c\<close>) the name server of the captive portal; \<open>Web_Config\<close> and \<open>Web_Server\<close>
  (\<open>src/main/web_server.c\<close>) the pages. \<open>Provisioning\<close> (\<open>src/main/provisioning.c\<close>) enrols the device and sends heartbeats, with \<open>Http_Post\<close>
  its request and \<open>Telemetry_Json\<close> its telemetry text. \<open>Socket_Server\<close> and \<open>Socket_Client\<close> carry the stream to other
  programs. Shown: the settings page shows no secret and posting it back changes nothing but the alpha of
  a colour, which becomes the default; requests that carry a wrong password get the same answers whatever the device holds, status page
  apart (a request without the header is compared with uninitialized memory, which is a finding); the access point closes
  within a bound that counts the reconnections, when timer and driver calls succeed and no allocation fails; no descriptor
  leaks or is closed twice in the socket server as long as the receiver's event reaches it between two turns of its task (inside
  a turn one can be closed twice, which is shown); requests to the backend are never cut, and their pause is at least ten
  seconds for poll intervals up to twelve hours; a repeated reply changes nothing when the stored texts can be copied.

  \<^bold>\<open>The rest.\<close> \<open>Nmea_Util\<close> (\<open>src/main/protocol/nmea.c\<close>, \<open>src/main/util.c\<close>, \<open>src/main/interface/ntrip_util.c\<close>), \<open>Text_Format\<close>
  (the numbers of \<open>printf\<close> and \<open>scanf\<close>), \<open>Status_Led\<close> (\<open>src/main/status_led.c\<close>), \<open>Board\<close> (\<open>src/main/log.c\<close>,
  \<open>src/main/core_dump.c\<close>, \<open>src/main/state.c\<close>), \<open>Boot\<close> (\<open>src/main/main.c\<close>), and \<open>Prelude\<close> with the lemmas and types all share.

  \<^bold>\<open>How the code is modelled.\<close> A struct is a record, the static variables of a module are one record, integers have
  their width, a string is a list of characters without its terminator. A function takes the state and returns it
  with its result. What the platform does is an argument: the results of socket, flash and driver calls, the clock, the bytes read,
  allocations that may fail. A library whose behaviour matters is a record of functions with its laws as a named
  predicate (\<open>nvs_laws\<close> for the storage) or a hypothesis of the theorem (the checksum of the ROM in \<open>web_file_cached\<close>), and an
  instance shows that the laws can hold. \<open>None\<close> of a definition is behaviour the language leaves undefined, an abort,
  or a call that does not return. A task is its loop body; the histories of tasks and events that interleave are inductive relations
  or lists of events.

  \<^bold>\<open>Bounds.\<close> Loops of the code are structural recursions or have a measure. The parser's hunt loop is a partial function
  and shown to end within the buffer. Loops over an endless input are lists of what happens, one element each turn: the wakes of a
  session, the samples of the scheduler, the checks of the confirmation. The wait for the receiver has the 45 polls, the send loop
  the 64 turns and the wait for the clock the 20 delays of the code; a reply is read until the stream ends or the
  buffer cannot grow, which its length bounds.

  \<^bold>\<open>Interfaces.\<close> The locales state what one part asks of another, and the provider's theory interprets them on the
  model: \<open>frame_sink\<close> of \<open>Frame_Ring\<close>, a sink that turns the frames of the parser into a log, by the ring and by the ingest
  of the server; \<open>bounded_fifo\<close> of \<open>Data_Queue\<close>, by the byte queue; \<open>machine_invariant\<close> of \<open>Prelude\<close>, an invariant
  of a step relation, by the machines of the sender, the data path, the supervisor, the receiver control, the enrolment, the access
  point and the name server. The storage is the record \<open>nvs\<close> with its laws \<open>nvs_laws\<close>, kept by an instance over maps.

  \<^bold>\<open>Not modelled.\<close> Log lines, and NMEA lines except their format; the priorities and stacks of tasks; the receiver's event inside a
  turn of the socket server's task, beyond the double close that is shown; the timing of the scheduler
  below the steps of a relation, so a race inside a step is only reported where the code shows it; the set-up of
  pins and drivers that is a list of calls; the second receiver driver of \<open>src/main/uart.c\<close>, which nothing starts. JSON and HTTP
  libraries, TLS, the flash and the network stack are arguments. Web pages, scripts and tests are not C of the device.
\<close>

end
